(* ===== verification/Prelude.thy ===== *)
theory Prelude
  imports Main "HOL-Library.Word" "HOL-Library.Monad_Syntax"
begin

text \<open>
  What the components share: the fixed-width integer types of the C++ code, reads that can be
  undefined behaviour, the little-endian image of an integer in memory (every \<open>memcpy\<close> of a
  header or a record in the code is one of these images), the power-of-two test
  \<open>(n & (n - 1)) == 0\<close>, and lemmas about lists that several components need.

  Undefined behaviour is a value: a computation that could read outside a buffer has the type
  \<open>'a ub\<close>, and \<open>None\<close> is the out-of-range read. A theorem that such a computation is \<open>Some\<close> is
  a memory-safety theorem.
\<close>

unbundle bit_operations_syntax

section \<open>Types and hint collections\<close>

type_synonym u8 = "8 word"
type_synonym u16 = "16 word"
type_synonym u32 = "32 word"
type_synonym u64 = "64 word"
type_synonym 'a ub = "'a option"

named_theorems image_simps \<open>lengths and round trips of memory images\<close>
named_theorems safe_reads \<open>reads that are in range\<close>

section \<open>Checked reads\<close>

definition vec_at :: "'a list \<Rightarrow> nat \<Rightarrow> 'a ub" where
  "vec_at xs i = (if i < length xs then Some (xs ! i) else None)"

lemma vec_at_Some [safe_reads, simp]: "i < length xs \<Longrightarrow> vec_at xs i = Some (xs ! i)"
  by (simp add: vec_at_def)

lemma vec_at_None [simp]: "length xs \<le> i \<Longrightarrow> vec_at xs i = None"
  by (simp add: vec_at_def)

lemma vec_at_eq_Some: "vec_at xs i = Some x \<longleftrightarrow> i < length xs \<and> x = xs ! i"
  by (auto simp: vec_at_def)

section \<open>Little-endian images\<close>

text \<open>The low \<open>n\<close> bytes of a word, least significant first, and the word that bytes spell.\<close>

fun le_bytes :: "nat \<Rightarrow> 'a::len word \<Rightarrow> u8 list" where
  "le_bytes 0 w = []"
| "le_bytes (Suc n) w = ucast w # le_bytes n (drop_bit 8 w)"

fun of_le :: "u8 list \<Rightarrow> 'a::len word" where
  "of_le [] = 0"
| "of_le (b # bs) = ucast b OR push_bit 8 (of_le bs)"

lemma length_le_bytes [image_simps, simp]: "length (le_bytes n w) = n"
  by (induction n arbitrary: w) auto

lemma bit_of_le_le_bytes:
  "bit (of_le (le_bytes n (w :: 'a::len word)) :: 'a word) i
    \<longleftrightarrow> i < LENGTH('a) \<and> i < 8 * n \<and> bit w i"
proof (induction n arbitrary: w i)
  case 0
  then show ?case by simp
next
  case (Suc n)
  show ?case
  proof (cases "i < 8")
    case True
    then show ?thesis by (auto simp: bit_or_iff bit_ucast_iff bit_push_bit_iff dest: bit_imp_le_length)
  next
    case False
    then show ?thesis
      by (auto simp: bit_or_iff bit_ucast_iff bit_push_bit_iff Suc.IH bit_drop_bit_eq
          dest: bit_imp_le_length)
  qed
qed

lemma of_le_le_bytes [image_simps]:
  "LENGTH('a) \<le> 8 * n \<Longrightarrow> of_le (le_bytes n w) = (w :: 'a::len word)"
  by (rule bit_word_eqI) (auto simp: bit_of_le_le_bytes)

lemma of_le_bit: "bit (of_le bs :: 'a::len word) i \<Longrightarrow> i < 8 * length bs"
proof (induction bs arbitrary: i)
  case Nil
  then show ?case by simp
next
  case (Cons c cs)
  then show ?case
    by (cases "i < 8")
      (auto simp: bit_or_iff bit_ucast_iff bit_push_bit_iff dest!: Cons.IH dest: bit_imp_le_length)
qed

lemma drop_bit_of_le_Cons:
  assumes "8 * Suc (length bs) \<le> LENGTH('a)"
  shows "drop_bit 8 (of_le (b # bs) :: 'a::len word) = of_le bs"
    and "ucast (of_le (b # bs) :: 'a word) = b"
proof -
  show "drop_bit 8 (of_le (b # bs) :: 'a word) = of_le bs"
  proof (rule bit_word_eqI)
    fix i assume "i < LENGTH('a)"
    have "\<not> bit b (8 + i)" using bit_imp_le_length [of b "8 + i"] by auto
    then show "bit (drop_bit 8 (of_le (b # bs) :: 'a word)) i = bit (of_le bs :: 'a word) i"
      using of_le_bit [of bs i, where 'a = 'a] assms
      by (auto simp: bit_drop_bit_eq bit_or_iff bit_ucast_iff bit_push_bit_iff)
  qed
  show "ucast (of_le (b # bs) :: 'a word) = b"
  proof (rule bit_word_eqI)
    fix i assume "i < LENGTH(8)"
    then show "bit (ucast (of_le (b # bs) :: 'a word) :: u8) i = bit b i"
      using assms by (auto simp: bit_or_iff bit_ucast_iff bit_push_bit_iff)
  qed
qed

lemma le_bytes_of_le [image_simps]:
  "8 * length bs \<le> LENGTH('a) \<Longrightarrow> le_bytes (length bs) (of_le bs :: 'a::len word) = bs"
proof (induction bs)
  case Nil
  then show ?case by simp
next
  case (Cons b bs)
  then have fit: "8 * Suc (length bs) \<le> LENGTH('a)" by simp
  show ?case
    using Cons.IH Cons.prems drop_bit_of_le_Cons [OF fit, of b] by (simp del: of_le.simps)
qed

lemma le_bytes_inject:
  assumes "LENGTH('a) \<le> 8 * n"
  shows "le_bytes n v = le_bytes n (w :: 'a::len word) \<longleftrightarrow> v = w"
  using of_le_le_bytes [OF assms] by metis

section \<open>Powers of two\<close>

text \<open>\<open>SpscRingBuffer\<close>, \<open>validate(IngestorOptions)\<close> and \<open>validate(AppConfig&)\<close> test
  \<open>(n & (n - 1)) != 0\<close>. The test is exact: what passes it and is not zero is a power of two.\<close>

lemma and_pred_eq_0_pow2: "(n::nat) AND (n - 1) = 0 \<Longrightarrow> 0 < n \<Longrightarrow> \<exists>k. n = 2 ^ k"
proof (induction n rule: less_induct)
  case (less n)
  obtain m where m: "n = 2 * m \<or> n = Suc (2 * m)" by (metis oddE evenE Suc_eq_plus1)
  show ?case
  proof (cases "even n")
    case True
    with m have n: "n = 2 * m" and "0 < m" using less.prems by auto
    have halves: "n div 2 = m" "(n - 1) div 2 = m - 1"
      using n \<open>0 < m\<close> by presburger+
    have "n AND (n - 1) = 2 * (m AND (m - 1))"
      unfolding and_rec [of n "n - 1"] halves using True by simp
    with less.prems have "m AND (m - 1) = 0" by simp
    with less.IH [of m] \<open>0 < m\<close> n obtain k where "m = 2 ^ k" by auto
    then have "n = 2 ^ Suc k" by (simp add: n)
    then show ?thesis ..
  next
    case False
    with m have n: "n = Suc (2 * m)" by auto
    have "n AND (n - 1) = 2 * m" by (subst and_rec) (simp add: n)
    with less.prems n have "n = 2 ^ 0" by simp
    then show ?thesis ..
  qed
qed

lemma word_and_pred_eq_0_pow2:
  assumes "w AND (w - 1) = 0" and "w \<noteq> (0 :: 'a::len word)"
  shows "\<exists>k < LENGTH('a). unat w = 2 ^ k"
proof -
  have "unat (w - 1) = unat w - 1" using assms(2) by (simp add: unat_minus_one)
  moreover have "unat (w AND (w - 1)) = unat w AND unat (w - 1)" by (simp add: unsigned_and_eq)
  ultimately have "unat w AND (unat w - 1) = 0" using assms(1) by simp
  moreover have "0 < unat w" using assms(2) by (simp add: unat_gt_0)
  ultimately obtain k where k: "unat w = 2 ^ k" using and_pred_eq_0_pow2 by blast
  have "unat w < 2 ^ LENGTH('a)" by simp
  with k have "k < LENGTH('a)" by simp
  with k show ?thesis by blast
qed

section \<open>Narrowing casts\<close>

lemma unat_of_nat_less: "n < 2 ^ LENGTH('a) \<Longrightarrow> unat (of_nat n :: 'a::len word) = n"
  by (rule of_nat_inverse [OF refl])

section \<open>Lists\<close>

text \<open>\<open>last_n n xs\<close>: the last \<open>n\<close> elements, all of them when there are fewer.\<close>

definition last_n :: "nat \<Rightarrow> 'a list \<Rightarrow> 'a list" where
  "last_n n xs = drop (length xs - n) xs"

lemma length_last_n [simp]: "length (last_n n xs) = min n (length xs)"
  by (simp add: last_n_def)

lemma last_n_all [simp]: "length xs \<le> n \<Longrightarrow> last_n n xs = xs"
  by (simp add: last_n_def)

lemma last_n_last_n [simp]: "last_n m (last_n n xs) = last_n (min m n) xs"
  by (auto simp: last_n_def min_def intro!: arg_cong [where f = "\<lambda>k. drop k xs"])

lemma last_n_snoc: "0 < n \<Longrightarrow> last_n n (xs @ [x]) = last_n (n - 1) xs @ [x]"
  by (cases "length xs < n") (auto simp: last_n_def Suc_diff_le)

lemma last_n_min_length [simp]: "last_n (min k (length xs)) xs = last_n k xs"
  by (simp add: last_n_def min_def)

lemma last_n_append_last_n: "last_n n (last_n n xs @ ys) = last_n n (xs @ ys)"
  by (cases "length xs \<le> n") (auto simp: last_n_def add.commute)

lemma set_last_n_subset: "set (last_n n xs) \<subseteq> set xs"
  by (simp add: last_n_def set_drop_subset)

lemma nth_last_n: "i < min n (length xs) \<Longrightarrow> last_n n xs ! i = xs ! (length xs - min n (length xs) + i)"
  by (auto simp: last_n_def min_def)

text \<open>Consecutive fields of a buffer put it together again.\<close>

lemma take_drop_append: "k = m + n \<Longrightarrow> take n (drop m xs) @ drop k xs = drop m xs"
  by (metis append_take_drop_id drop_drop add.commute)

text \<open>Equal sums of block lengths: what a concatenation of fixed-size records measures.\<close>

lemma length_concat_map_const:
  "(\<And>x. x \<in> set xs \<Longrightarrow> length (f x) = n) \<Longrightarrow> length (concat (map f xs)) = n * length xs"
  by (induction xs) auto

end
