(* ===== verification/Text.thy ===== *)
theory Text
  imports Prelude "HOL-Library.Char_ord" "HOL-Library.List_Lexorder"
begin

text \<open>
  Text as the code makes it: decimal numbers (\<open>std::to_string\<close>, stream output, \<open>%0<w>llu\<close>),
  prefixes and suffixes, the bytes of a string. The order on strings is \<open>std::string\<close>'s, by
  unsigned bytes.
\<close>

section \<open>Decimal numbers\<close>

definition digit :: "nat \<Rightarrow> char" where "digit n = char_of (48 + n)"

fun dec_nat :: "nat \<Rightarrow> string" where
  "dec_nat n = (if n < 10 then [digit n] else dec_nat (n div 10) @ [digit (n mod 10)])"

declare dec_nat.simps [simp del]

definition dec_int :: "int \<Rightarrow> string" where
  "dec_int i = (if i < 0 then CHR ''-'' # dec_nat (nat (- i)) else dec_nat (nat i))"

definition pad0 :: "nat \<Rightarrow> string \<Rightarrow> string" where
  "pad0 w s = replicate (w - length s) CHR ''0'' @ s"

definition dec_val :: "string \<Rightarrow> nat" where
  "dec_val s = foldl (\<lambda>a c. 10 * a + (of_char c - 48)) 0 s"

lemma of_char_digit: "n < 10 \<Longrightarrow> of_char (digit n) = 48 + n"
  by (simp add: digit_def)

lemma dec_val_snoc: "dec_val (s @ [c]) = 10 * dec_val s + (of_char c - 48)"
  by (simp add: dec_val_def)

lemma dec_val_dec_nat [simp]: "dec_val (dec_nat n) = n"
proof (induction n rule: dec_nat.induct)
  case (1 n)
  show ?case
  proof (cases "n < 10")
    case True
    then show ?thesis by (subst dec_nat.simps) (simp add: dec_val_def of_char_digit)
  next
    case False
    then show ?thesis using 1 by (subst dec_nat.simps) (simp add: dec_val_snoc of_char_digit)
  qed
qed

lemma dec_nat_inject [simp]: "dec_nat m = dec_nat n \<longleftrightarrow> m = n"
  using dec_val_dec_nat by metis

lemma dec_val_pad0 [simp]: "dec_val (pad0 w s) = dec_val s"
proof -
  have "foldl (\<lambda>a c. 10 * a + (of_char c - 48)) (0::nat) (replicate k CHR ''0'') = 0" for k
    by (induction k) simp_all
  then show ?thesis by (simp add: dec_val_def pad0_def)
qed

lemma pad0_dec_inject [simp]: "pad0 w (dec_nat m) = pad0 w (dec_nat n) \<longleftrightarrow> m = n"
  using dec_val_pad0 dec_val_dec_nat by metis

lemma dec_nat_digits: "c \<in> set (dec_nat n) \<Longrightarrow> of_char c \<in> {48..57::nat}"
proof (induction n rule: dec_nat.induct)
  case (1 n)
  then show ?case
    by (subst (asm) dec_nat.simps) (auto simp: of_char_digit split: if_splits)
qed

section \<open>Prefixes and suffixes\<close>

definition ends_with :: "string \<Rightarrow> string \<Rightarrow> bool" where
  "ends_with t s \<longleftrightarrow> length s \<le> length t \<and> drop (length t - length s) t = s"

definition starts_with :: "string \<Rightarrow> string \<Rightarrow> bool" where
  "starts_with t s \<longleftrightarrow> take (length s) t = s"

lemma ends_with_append [simp]: "ends_with (t @ s) s"
  by (simp add: ends_with_def)

lemma ends_with_iff: "ends_with t s \<longleftrightarrow> (\<exists>r. t = r @ s)"
  by (auto simp: ends_with_def) (metis append_take_drop_id)

lemma starts_with_append [simp]: "starts_with (s @ t) s"
  by (simp add: starts_with_def)

section \<open>Searching\<close>

text \<open>\<open>std::string::find\<close> and \<open>rfind\<close> of one character: a position, \<open>None\<close> for \<open>npos\<close>.\<close>

fun find_sub :: "string \<Rightarrow> string \<Rightarrow> nat option" where
  "find_sub needle [] = (if needle = [] then Some 0 else None)"
| "find_sub needle (ch # s) =
     (if take (length needle) (ch # s) = needle then Some 0 else map_option Suc (find_sub needle s))"

definition rfind_char :: "char \<Rightarrow> string \<Rightarrow> nat option" where
  "rfind_char ch s = map_option (\<lambda>k. length s - 1 - k) (find_sub [ch] (rev s))"

lemma find_sub_less: "find_sub needle s = Some n \<Longrightarrow> needle \<noteq> [] \<Longrightarrow> n < length s"
  by (induction s arbitrary: n) (auto split: if_splits)

lemma find_sub_single: "find_sub [ch] s = (if ch \<in> set s then Some (length (takeWhile (\<lambda>x. x \<noteq> ch) s)) else None)"
  by (induction s) auto

lemma find_char_append [simp]: "ch \<notin> set s \<Longrightarrow> find_sub [ch] (s @ ch # t) = Some (length s)"
  by (induction s) auto

lemma find_char_None [simp]: "find_sub [ch] s = None \<longleftrightarrow> ch \<notin> set s"
  by (simp add: find_sub_single)

lemma find_char_split: "find_sub [ch] s = Some n \<Longrightarrow> \<exists>t. s = take n s @ ch # t \<and> ch \<notin> set (take n s) \<and> t = drop (Suc n) s"
proof (induction s arbitrary: n)
  case (Cons c s)
  then show ?case by (cases "c = ch") auto
qed simp

lemma rfind_char_append [simp]: "ch \<notin> set t \<Longrightarrow> rfind_char ch (s @ ch # t) = Some (length s)"
  using find_char_append [of ch "rev t" "rev s"] by (simp add: rfind_char_def)

lemma rfind_char_None [simp]: "rfind_char ch s = None \<longleftrightarrow> ch \<notin> set s"
  by (simp add: rfind_char_def)

section \<open>Bytes\<close>

definition bytes_of :: "string \<Rightarrow> u8 list" where "bytes_of s = map (\<lambda>c. of_nat (of_char c)) s"
definition text_of :: "u8 list \<Rightarrow> string" where "text_of bs = map (\<lambda>b. char_of (unat b)) bs"

lemma length_bytes_of [simp]: "length (bytes_of s) = length s"
  by (simp add: bytes_of_def)

lemma text_of_bytes_of [simp]: "text_of (bytes_of s) = s"
proof -
  have "char_of (unat (of_nat (of_char c) :: u8)) = c" for c
  proof -
    have "unat (of_nat (of_char c) :: u8) = of_char c"
      by (rule unat_of_nat_less) (use mod_less_divisor [of 256 "of_char c"] in \<open>simp\<close>)
    then show ?thesis by simp
  qed
  then show ?thesis by (simp add: bytes_of_def text_of_def comp_def)
qed

section \<open>Truncating division\<close>

text \<open>C++ integer division rounds towards zero; the remainder has the sign of the dividend.\<close>

definition c_div :: "int \<Rightarrow> int \<Rightarrow> int" where "c_div a b = sgn a * sgn b * (\<bar>a\<bar> div \<bar>b\<bar>)"
definition c_mod :: "int \<Rightarrow> int \<Rightarrow> int" where "c_mod a b = a - b * c_div a b"

lemma c_div_nonneg [simp]: "0 \<le> a \<Longrightarrow> 0 < b \<Longrightarrow> c_div a b = a div b"
  by (cases "a = 0") (simp_all add: c_div_def)

lemma c_mod_nonneg [simp]: "0 \<le> a \<Longrightarrow> 0 < b \<Longrightarrow> c_mod a b = a mod b"
  by (simp add: c_mod_def minus_mult_div_eq_mod)

end
