(* ===== verification/Base64.thy ===== *)
theory Base64
  imports Text
begin

text \<open>
  \<open>core/base64.hpp\<close>: the encoder, and a decoder written from RFC 4648 as the specification it is
  proved against. The loop over groups of three bytes is recursion on the byte list.
\<close>

section \<open>Encoder\<close>

definition kTable :: string where
  "kTable = ''ABCDEFGHIJKLMNOPQRSTUVWXYZabcdefghijklmnopqrstuvwxyz0123456789+/''"

definition sextet :: "u32 \<Rightarrow> nat \<Rightarrow> char" where
  "sextet n k = kTable ! unat (drop_bit k n AND 0x3F)"

fun b64_encode :: "u8 list \<Rightarrow> string" where
  "b64_encode (a # b # c # rest) =
     (let n = push_bit 16 (ucast a) OR push_bit 8 (ucast b) OR ucast c
      in [sextet n 18, sextet n 12, sextet n 6, sextet n 0] @ b64_encode rest)"
| "b64_encode [a, b] = (let n = push_bit 16 (ucast a) OR push_bit 8 (ucast b)
      in [sextet n 18, sextet n 12, sextet n 6] @ ''='')"
| "b64_encode [a] = (let n = push_bit 16 (ucast a) in [sextet n 18, sextet n 12] @ ''=='')"
| "b64_encode [] = []"

section \<open>Specification\<close>

text \<open>RFC 4648: four characters carry 24 bits, most significant first; \<open>=\<close> pads the last group.\<close>

definition b64_digit :: "char \<Rightarrow> nat option" where
  "b64_digit ch = find (\<lambda>i. kTable ! i = ch) [0..<64]"

definition group_value :: "nat \<Rightarrow> nat \<Rightarrow> nat \<Rightarrow> nat \<Rightarrow> nat" where
  "group_value p q r s = ((p * 64 + q) * 64 + r) * 64 + s"

definition group_bytes :: "nat \<Rightarrow> u8 list" where
  "group_bytes n = [of_nat (n div 65536), of_nat (n div 256 mod 256), of_nat (n mod 256)]"

fun b64_decode :: "string \<Rightarrow> u8 list option" where
  "b64_decode [] = Some []"
| "b64_decode (w # x # y # z # rest) =
     (if z = CHR ''='' then
        if rest \<noteq> [] then None
        else if y = CHR ''='' then do {
          p \<leftarrow> b64_digit w; q \<leftarrow> b64_digit x; Some (take 1 (group_bytes (group_value p q 0 0))) }
        else do {
          p \<leftarrow> b64_digit w; q \<leftarrow> b64_digit x; r \<leftarrow> b64_digit y;
          Some (take 2 (group_bytes (group_value p q r 0))) }
      else do {
        p \<leftarrow> b64_digit w; q \<leftarrow> b64_digit x; r \<leftarrow> b64_digit y; s \<leftarrow> b64_digit z;
        bs \<leftarrow> b64_decode rest; Some (group_bytes (group_value p q r s) @ bs) })"
| "b64_decode _ = None"

section \<open>The table\<close>

lemma kTable_digits: "list_all (\<lambda>i. b64_digit (kTable ! i) = Some i \<and> kTable ! i \<noteq> CHR ''='') [0..<64]"
  by code_simp

lemma kTable_digit: "i < 64 \<Longrightarrow> b64_digit (kTable ! i) = Some i \<and> kTable ! i \<noteq> CHR ''=''"
  using kTable_digits by (simp add: list_all_iff)

section \<open>Groups\<close>

lemma sextet_nat: "sextet n k = kTable ! (unat n div 2 ^ k mod 64)"
proof -
  have "(0x3F :: u32) = mask 6" by (simp add: mask_eq_exp_minus_1)
  then have "drop_bit k n AND 0x3F = take_bit 6 (drop_bit k n)" by (simp add: take_bit_eq_mask)
  then have "unat (drop_bit k n AND 0x3F) = take_bit 6 (drop_bit k (unat n))"
    by (simp add: unsigned_take_bit_eq unat_drop_bit_eq)
  then show ?thesis by (simp add: sextet_def drop_bit_eq_div take_bit_eq_mod)
qed

lemma digit_sextet: "b64_digit (sextet n k) = Some (unat n div 2 ^ k mod 64)" "sextet n k \<noteq> CHR ''=''"
  using kTable_digit [of "unat n div 2 ^ k mod 64"] by (simp_all add: sextet_nat)

lemma u8_less: "unat (x :: u8) < 256"
  using unsigned_less [of x] by simp

lemma word_or_disjoint: "(x :: 'a::len word) AND y = 0 \<Longrightarrow> x OR y = x + y"
  by (simp add: disjunctive_add_eq_or)

lemma unat_group: "unat (push_bit 16 (ucast (a :: u8)) OR push_bit 8 (ucast (b :: u8)) OR ucast (c :: u8) :: u32) =
    65536 * unat a + 256 * unat b + unat c"
proof -
  have "push_bit 8 (ucast b) AND (ucast c :: u32) = 0"
    by (rule bit_word_eqI) (auto simp: bit_and_iff bit_push_bit_iff bit_ucast_iff dest: bit_imp_le_length)
  note 1 = word_or_disjoint [OF this]
  have "push_bit 16 (ucast a) AND (push_bit 8 (ucast b) OR ucast c :: u32) = 0"
    by (rule bit_word_eqI)
      (auto simp: bit_and_iff bit_or_iff bit_push_bit_iff bit_ucast_iff dest: bit_imp_le_length)
  note 2 = word_or_disjoint [OF this]
  have cast: "(ucast x :: u32) = of_nat (unat x)" for x :: u8 by simp
  have "push_bit 16 (ucast a) OR (push_bit 8 (ucast b) OR ucast c) =
      (of_nat (65536 * unat a + (256 * unat b + unat c)) :: u32)"
    unfolding 2 unfolding 1 unfolding cast by (simp add: push_bit_eq_mult mult.commute)
  moreover have "65536 * unat a + (256 * unat b + unat c) < 2 ^ LENGTH(32)"
    using u8_less [of a] u8_less [of b] u8_less [of c] by simp
  ultimately show ?thesis by (simp only: unat_of_nat_less or.assoc add.assoc)
qed

lemma group_of_digits:
  assumes "n < 16777216"
  shows "group_value (n div 262144 mod 64) (n div 4096 mod 64) (n div 64 mod 64) (n mod 64) = n"
proof -
  have "n div 4096 = n div 64 div 64" "n div 262144 = n div 64 div 64 div 64"
    by (simp_all flip: div_mult2_eq)
  moreover from assms have "n div 64 div 64 div 64 < 64" by simp
  ultimately show ?thesis unfolding group_value_def
    by (simp add: div_mult_mod_eq [of _ 64])
qed

lemma group_bytes_group: "group_bytes (65536 * unat a + 256 * unat b + unat c) = [a, b, c]"
proof -
  have a: "unat a < 256" and b: "unat b < 256" and c: "unat c < 256"
    using u8_less [of a] u8_less [of b] u8_less [of c] by simp_all
  have "(65536 * unat a + (256 * unat b + unat c)) div 65536 = unat a"
    using b c by (subst div_mult_self4) simp_all
  moreover have eq: "65536 * unat a + 256 * unat b + unat c = 256 * (256 * unat a + unat b) + unat c" by simp
  then have "(65536 * unat a + 256 * unat b + unat c) div 256 = 256 * unat a + unat b"
    unfolding eq using c by (subst div_mult_self4) simp_all
  moreover have "(65536 * unat a + 256 * unat b + unat c) mod 256 = unat c"
    unfolding eq using c by (subst mod_mult_self4) simp_all
  moreover have "(256 * unat a + unat b) mod 256 = unat b" using b by (subst mod_mult_self4) simp_all
  ultimately show ?thesis unfolding group_bytes_def by (simp only: add.assoc of_nat_unat ucast_id)
qed

lemma group_less: "65536 * unat (a :: u8) + 256 * unat (b :: u8) + unat (c :: u8) < 16777216"
  using u8_less [of a] u8_less [of b] u8_less [of c] by simp

text \<open>Base64 as RFC 4648 defines it: what the encoder writes decodes to exactly the bytes it was given,
  and the text is four characters for every three bytes begun.\<close>

lemma base64_decodes:
  "b64_decode (b64_encode bs) = Some bs \<and> length (b64_encode bs) = 4 * ((length bs + 2) div 3)"
proof (induction bs rule: b64_encode.induct)
  case (1 a b c rest)
  define N :: u32 where "N = push_bit 16 (ucast a) OR push_bit 8 (ucast b) OR ucast c"
  have n: "unat N = 65536 * unat a + 256 * unat b + unat c" unfolding N_def by (rule unat_group)
  then have g: "group_value (unat N div 262144 mod 64) (unat N div 4096 mod 64) (unat N div 64 mod 64)
      (unat N mod 64) = unat N" by (intro group_of_digits) (simp only: group_less)
  have "b64_encode (a # b # c # rest) = [sextet N 18, sextet N 12, sextet N 6, sextet N 0] @ b64_encode rest"
    by (simp add: N_def Let_def)
  then have "b64_decode (b64_encode (a # b # c # rest)) = Some (group_bytes (unat N) @ rest)"
    "length (b64_encode (a # b # c # rest)) = 4 + length (b64_encode rest)"
    using 1 g by (simp_all add: digit_sextet del: b64_encode.simps)
  moreover have "(length (a # b # c # rest) + 2) div 3 = Suc ((length rest + 2) div 3)" by simp
  ultimately show ?case using 1 n by (simp only: group_bytes_group) simp
next
  case (2 a b)
  let ?n = "unat (push_bit 16 (ucast a) OR push_bit 8 (ucast b) :: u32)"
  have n: "?n = 65536 * unat a + 256 * unat b" using unat_group [of a b 0] by simp
  moreover have "(65536 * unat a + 256 * unat b) mod 64 = 0" by (simp add: mod_eq_0_iff_dvd)
  ultimately have "?n < 16777216" "?n mod 64 = 0" using group_less [of a b 0] by simp_all
  with group_of_digits [of ?n] show ?case using group_bytes_group [of a b 0]
    by (simp add: Let_def digit_sextet) (simp add: n)
next
  case (3 a)
  let ?n = "unat (push_bit 16 (ucast a) :: u32)"
  have n: "?n = 65536 * unat a" using unat_group [of a 0 0] by simp
  moreover have "65536 * unat a mod 64 = 0" "65536 * unat a div 64 mod 64 = 0" by (simp_all add: mod_eq_0_iff_dvd)
  ultimately have "?n < 16777216" "?n mod 64 = 0" "?n div 64 mod 64 = 0"
    using group_less [of a 0 0] by simp_all
  with group_of_digits [of ?n] show ?case using group_bytes_group [of a 0 0]
    by (simp add: Let_def digit_sextet) (simp add: n)
qed simp

end
