(* ===== verification/Sha1.thy ===== *)
theory Sha1
  imports Text
begin

text \<open>
  \<open>core/sha1.hpp\<close>: the digest behind the WebSocket handshake, on lists of bytes. The 80-entry arrays
  are lists, the five chaining words a tuple.
\<close>

section \<open>Padding\<close>

function pad_zeros :: "u8 list \<Rightarrow> u8 list" where
  "pad_zeros m = (if length m mod 64 \<noteq> 56 then pad_zeros (m @ [0]) else m)"
  by auto

definition zeros_left :: "nat \<Rightarrow> nat" where
  "zeros_left n = (if n mod 64 \<le> 56 then 56 - n mod 64 else 120 - n mod 64)"

lemma zeros_left_step: "n mod 64 \<noteq> 56 \<Longrightarrow> zeros_left (Suc n) < zeros_left n"
  using mod_less_divisor [of 64 n] by (auto simp: zeros_left_def mod_Suc)

termination pad_zeros
  by (relation "measure (\<lambda>m. zeros_left (length m))") (use zeros_left_step in auto)

declare pad_zeros.simps [simp del]

definition be_u64 :: "u64 \<Rightarrow> u8 list" where
  "be_u64 n = map (\<lambda>i. ucast (drop_bit (i * 8) n AND 0xFF)) [7, 6, 5, 4, 3, 2, 1, 0]"

definition sha1_pad :: "u8 list \<Rightarrow> u8 list" where
  "sha1_pad msg = pad_zeros (msg @ [0x80]) @ be_u64 (of_nat (length msg) * 8)"

section \<open>Compression\<close>

definition rotl :: "u32 \<Rightarrow> nat \<Rightarrow> u32" where
  "rotl v n = push_bit n v OR drop_bit (32 - n) v"

definition be_word :: "u8 list \<Rightarrow> nat \<Rightarrow> u32" where
  "be_word bs i = push_bit 24 (ucast (bs ! i)) OR push_bit 16 (ucast (bs ! (i + 1))) OR
     push_bit 8 (ucast (bs ! (i + 2))) OR ucast (bs ! (i + 3))"

definition schedule :: "u8 list \<Rightarrow> u32 list" where
  "schedule chunk = foldl (\<lambda>w i. w @ [rotl (w ! (i - 3) XOR w ! (i - 8) XOR w ! (i - 14) XOR w ! (i - 16)) 1])
     (map (\<lambda>i. be_word chunk (i * 4)) [0..<16]) [16..<80]"

type_synonym chain = "u32 \<times> u32 \<times> u32 \<times> u32 \<times> u32"

definition sha1_round :: "u32 list \<Rightarrow> chain \<Rightarrow> nat \<Rightarrow> chain" where
  "sha1_round w = (\<lambda>(a, b, c, d, e) i.
     let (f, k) = (if i < 20 then ((b AND c) OR (NOT b AND d), 0x5A827999)
                   else if i < 40 then (b XOR c XOR d, 0x6ED9EBA1)
                   else if i < 60 then ((b AND c) OR (b AND d) OR (c AND d), 0x8F1BBCDC)
                   else (b XOR c XOR d, 0xCA62C1D6));
         temp = rotl a 5 + f + e + k + w ! i
     in (temp, a, rotl b 30, c, d))"

definition sha1_chunk :: "chain \<Rightarrow> u8 list \<Rightarrow> chain" where
  "sha1_chunk h chunk =
     (let (h0, h1, h2, h3, h4) = h; (a, b, c, d, e) = foldl (sha1_round (schedule chunk)) h [0..<80]
      in (h0 + a, h1 + b, h2 + c, h3 + d, h4 + e))"

function sha1_chunks :: "chain \<Rightarrow> u8 list \<Rightarrow> chain" where
  "sha1_chunks h msg = (if msg = [] then h else sha1_chunks (sha1_chunk h (take 64 msg)) (drop 64 msg))"
  by auto
termination sha1_chunks
  by (relation "measure (\<lambda>(h, msg). length msg)") auto

declare sha1_chunks.simps [simp del]

definition be_bytes :: "u32 \<Rightarrow> u8 list" where
  "be_bytes v = [ucast (drop_bit 24 v AND 0xFF), ucast (drop_bit 16 v AND 0xFF),
     ucast (drop_bit 8 v AND 0xFF), ucast (v AND 0xFF)]"

definition initial_chain :: chain where
  "initial_chain = (0x67452301, 0xEFCDAB89, 0x98BADCFE, 0x10325476, 0xC3D2E1F0)"

definition sha1_digest :: "u8 list \<Rightarrow> u8 list" where
  "sha1_digest input = (let (h0, h1, h2, h3, h4) = sha1_chunks initial_chain (sha1_pad input)
     in concat (map be_bytes [h0, h1, h2, h3, h4]))"

lemma length_sha1_digest [simp]: "length (sha1_digest input) = 20"
  by (simp add: sha1_digest_def be_bytes_def split: prod.split)

text \<open>The padding is the shortest that fills a chunk: a single one bit, zeros, the length in bits.\<close>

lemma pad_zeros_replicate: "pad_zeros m = m @ replicate (zeros_left (length m)) 0"
proof (induction m rule: pad_zeros.induct)
  case (1 m)
  show ?case
  proof (cases "length m mod 64 = 56")
    case True
    then show ?thesis by (subst pad_zeros.simps) (simp add: zeros_left_def)
  next
    case False
    then have "zeros_left (length m) = Suc (zeros_left (Suc (length m)))"
      using mod_less_divisor [of 64 "length m"] by (auto simp: zeros_left_def mod_Suc)
    with False 1 show ?thesis by (subst pad_zeros.simps) (simp add: replicate_app_Cons_same)
  qed
qed

lemma sha1_pad_spec: "sha1_pad msg = msg @ [0x80] @ replicate (zeros_left (length msg + 1)) 0 @
    be_u64 (of_nat (length msg) * 8)" "zeros_left n < 64"
  using mod_less_divisor [of 64 n] by (auto simp: sha1_pad_def pad_zeros_replicate zeros_left_def)

text \<open>The padded message is a whole number of 64-byte chunks, so no chunk is read past its end.\<close>

lemma pad_zeros_length: "length (pad_zeros m) mod 64 = 56"
  by (induction m rule: pad_zeros.induct) (subst pad_zeros.simps, simp)

lemma length_sha1_pad: "length (sha1_pad msg) mod 64 = 0"
proof -
  have "length (sha1_pad msg) mod 64 = (length (pad_zeros (msg @ [0x80])) mod 64 + 8) mod 64"
    by (simp add: sha1_pad_def be_u64_def mod_simps add.commute)
  then show ?thesis by (simp add: pad_zeros_length)
qed

end
