(* ===== verification/WsServer.thy ===== *)
theory WsServer
  imports Base64 Sha1
begin

text \<open>
  \<open>src/api/ws_server.cpp\<close>: the WebSocket server. First the pure functions (headers, query parameters,
  the accept key, frames), then a connection as a state machine on its strand: the chain of reads that
  takes a client frame apart, and the outbox with its single write in flight. Asio's part is explicit:
  \<open>in_flight\<close> is the write started and not yet completed, \<open>reading\<close> says how many bytes the pending read
  wants. Reading from an empty outbox is undefined behaviour.
\<close>

section \<open>Strings\<close>

definition crlf :: string where "crlf = [CHR 0x0D, CHR 0x0A]"

definition to_lower :: "string \<Rightarrow> string" where
  "to_lower = map (\<lambda>ch. let n = of_char ch :: nat in if 65 \<le> n \<and> n \<le> 90 then char_of (n + 32) else ch)"

definition is_blank :: "char \<Rightarrow> bool" where "is_blank ch \<longleftrightarrow> ch = CHR '' '' \<or> ch = CHR 0x09"

definition upto_sub :: "string \<Rightarrow> string \<Rightarrow> string" where
  "upto_sub needle s = (case find_sub needle s of None \<Rightarrow> s | Some n \<Rightarrow> take n s)"

definition extract_header :: "string \<Rightarrow> string \<Rightarrow> string" where
  "extract_header request header_name =
     (let needle = crlf @ to_lower header_name @ '':''
      in case find_sub needle (to_lower request) of
           None \<Rightarrow> []
         | Some pos \<Rightarrow> let v = upto_sub crlf (drop (pos + length needle) request)
             in rev (dropWhile is_blank (rev (dropWhile is_blank v))))"

definition hex_value :: "char \<Rightarrow> nat option" where
  "hex_value ch = (let n = of_char ch in
     if 48 \<le> n \<and> n \<le> 57 then Some (n - 48)
     else if 97 \<le> n \<and> n \<le> 102 then Some (n - 97 + 10)
     else if 65 \<le> n \<and> n \<le> 70 then Some (n - 65 + 10) else None)"

definition plus_space :: "char \<Rightarrow> char" where
  "plus_space ch = (if ch = CHR ''+'' then CHR '' '' else ch)"

fun percent_decode :: "string \<Rightarrow> string" where
  "percent_decode (c0 # c1 # c2 # rest) =
     (case (hex_value c1, hex_value c2) of
        (Some h, Some l) \<Rightarrow> if c0 = CHR ''%'' then char_of (h * 16 + l) # percent_decode rest
                          else plus_space c0 # percent_decode (c1 # c2 # rest)
      | _ \<Rightarrow> plus_space c0 # percent_decode (c1 # c2 # rest))"
| "percent_decode (c0 # rest) = plus_space c0 # percent_decode rest"
| "percent_decode [] = []"

function split_on :: "char \<Rightarrow> string \<Rightarrow> string list" where
  "split_on sep s = (case find_sub [sep] s of None \<Rightarrow> [s] | Some n \<Rightarrow> take n s # split_on sep (drop (Suc n) s))"
  by auto

termination split_on
  by (relation "measure (\<lambda>(sep, s). length s)") (auto dest!: find_sub_less)

declare split_on.simps [simp del]

fun lookup_pair :: "string \<Rightarrow> string list \<Rightarrow> string" where
  "lookup_pair name [] = []"
| "lookup_pair name (pair # pairs) =
     (case find_sub ''='' pair of
        None \<Rightarrow> if percent_decode pair = name then [] else lookup_pair name pairs
      | Some eq \<Rightarrow> if percent_decode (take eq pair) = name then percent_decode (drop (Suc eq) pair)
                  else lookup_pair name pairs)"

definition query_param :: "string \<Rightarrow> string \<Rightarrow> string" where
  "query_param target name = (case find_sub ''?'' target of None \<Rightarrow> []
     | Some q \<Rightarrow> lookup_pair name (split_on CHR ''&'' (drop (Suc q) target)))"

text \<open>\<open>constant_time_equals\<close> of \<open>http_server.cpp\<close>: every byte of the longer string is looked at.\<close>

definition byte_at :: "string \<Rightarrow> nat \<Rightarrow> u8" where
  "byte_at s i = (if i < length s then of_nat (of_char (s ! i)) else 0)"

definition constant_time_equals :: "string \<Rightarrow> string \<Rightarrow> bool" where
  "constant_time_equals a b =
     (foldl (\<lambda>diff i. diff OR (byte_at a i XOR byte_at b i)) (if length a = length b then 0 else 1)
        [0..<max (length a) (length b)] = (0 :: u8))"

section \<open>Handshake\<close>

definition kWebSocketGuid :: string where "kWebSocketGuid = ''258EAFA5-E914-47DA-95CA-C5AB0DC85B11''"

definition compute_accept_key :: "string \<Rightarrow> string" where
  "compute_accept_key client_key = b64_encode (sha1_digest (bytes_of (client_key @ kWebSocketGuid)))"

definition reject_response :: "string \<Rightarrow> string" where
  "reject_response status_line = ''HTTP/1.1 '' @ status_line @ crlf @ ''Content-Length: 0'' @ crlf @
     ''Connection: close'' @ crlf @ crlf"

definition accept_response :: "string \<Rightarrow> string" where
  "accept_response client_key = ''HTTP/1.1 101 Switching Protocols'' @ crlf @ ''Upgrade: websocket'' @ crlf @
     ''Connection: Upgrade'' @ crlf @ ''Sec-WebSocket-Accept: '' @ compute_accept_key client_key @ crlf @ crlf"

definition request_target :: "string \<Rightarrow> string" where
  "request_target request_line =
     (case find_sub '' '' request_line of None \<Rightarrow> []
      | Some first_space \<Rightarrow> upto_sub '' '' (drop (Suc first_space) request_line))"

text \<open>The answer to an upgrade request: \<open>Inl\<close> a rejection, \<open>Inr\<close> the switch of protocols.\<close>

definition handshake :: "string \<Rightarrow> string \<Rightarrow> string + string" where
  "handshake required_token request =
     (let request_line = upto_sub crlf request;
          target = request_target request_line;
          client_key = extract_header request ''Sec-WebSocket-Key''
      in if \<not> starts_with request_line ''GET '' \<or> client_key = []
         then Inl (reject_response ''400 Bad Request'')
         else if required_token \<noteq> [] \<and> \<not> constant_time_equals (query_param target ''token'') required_token
         then Inl (reject_response ''401 Unauthorized'')
         else Inr (accept_response client_key))"

section \<open>Frames\<close>

definition kOpText :: u8 where "kOpText = 0x1"
definition kOpClose :: u8 where "kOpClose = 0x8"
definition kOpPing :: u8 where "kOpPing = 0x9"
definition kOpPong :: u8 where "kOpPong = 0xA"

definition make_frame :: "u8 \<Rightarrow> u8 list \<Rightarrow> u8 list" where
  "make_frame opcode data =
     (let len = of_nat (length data) :: u64
      in [0x80 OR opcode] @
         (if len \<le> 125 then [ucast len]
          else if len \<le> 0xFFFF then [126, ucast (drop_bit 8 len AND 0xFF), ucast (len AND 0xFF)]
          else 127 # be_u64 len) @ data)"

section \<open>A connection\<close>

definition kMaxIncomingPayload :: u64 where "kMaxIncomingPayload = 64 * 1024"
definition kMaxQueuedFrames :: nat where "kMaxQueuedFrames = 512"

text \<open>What the pending read of the chain is for.\<close>

datatype Reading =
    Frame_header
  | Ext_length nat u8 bool
  | Mask_key u64 u8
  | Payload "u8 list" u64 u8
  | Not_reading

record WsConnection =
  outbox :: "u8 list list"
  writing :: bool
  is_open :: bool
  closed :: bool
  reading :: Reading
  in_flight :: "u8 list list"
  closed_calls :: nat

definition ws_close :: "WsConnection \<Rightarrow> WsConnection" where
  "ws_close c = (if closed c then c
     else c\<lparr>closed := True, is_open := False, outbox := [], closed_calls := closed_calls c + 1\<rparr>)"

definition write_next :: "WsConnection \<Rightarrow> WsConnection" where
  "write_next c = (if outbox c = [] \<or> closed c then c\<lparr>writing := False\<rparr>
     else c\<lparr>writing := True, in_flight := in_flight c @ [hd (outbox c)]\<rparr>)"

definition on_written :: "bool \<Rightarrow> WsConnection \<Rightarrow> WsConnection ub" where
  "on_written ec c = (if ec then Some (ws_close c)
     else case outbox c of [] \<Rightarrow> None | frame # frames \<Rightarrow> Some (write_next (c\<lparr>outbox := frames\<rparr>)))"

definition ws_enqueue :: "u8 list \<Rightarrow> WsConnection \<Rightarrow> WsConnection" where
  "ws_enqueue frame c =
     (if closed c then c
      else if kMaxQueuedFrames \<le> length (outbox c) then ws_close c
      else let c = c\<lparr>outbox := outbox c @ [frame]\<rparr> in if \<not> writing c then write_next c else c)"

definition handle_frame :: "u8 list \<Rightarrow> u8 \<Rightarrow> WsConnection \<Rightarrow> WsConnection" where
  "handle_frame payload opcode c =
     (if opcode = kOpClose then ws_close c
      else if opcode = kOpPing then ws_enqueue (make_frame kOpPong (take 125 payload)) c
      else c)"

definition finish_with_length :: "u8 \<Rightarrow> bool \<Rightarrow> u64 \<Rightarrow> WsConnection \<Rightarrow> WsConnection" where
  "finish_with_length opcode masked len c =
     (if \<not> masked \<or> kMaxIncomingPayload < len then (ws_close c)\<lparr>reading := Not_reading\<rparr>
      else c\<lparr>reading := Mask_key len opcode\<rparr>)"

definition on_frame_header :: "u8 list \<Rightarrow> WsConnection \<Rightarrow> WsConnection" where
  "on_frame_header bs c =
     (let byte0 = bs ! 0; byte1 = bs ! 1;
          opcode = byte0 AND 0x0F; masked = (byte1 AND 0x80 \<noteq> 0);
          payload_len = (ucast (byte1 AND 0x7F) :: u64)
      in if payload_len = 126 then c\<lparr>reading := Ext_length 2 opcode masked\<rparr>
         else if payload_len = 127 then c\<lparr>reading := Ext_length 8 opcode masked\<rparr>
         else finish_with_length opcode masked payload_len c)"

text \<open>Both extended lengths are big-endian.\<close>

definition be_value :: "u8 list \<Rightarrow> u64" where
  "be_value bs = foldl (\<lambda>len b. push_bit 8 len OR ucast b) 0 bs"

definition unmask :: "u8 list \<Rightarrow> u8 list \<Rightarrow> u8 list" where
  "unmask mask_key payload = map (\<lambda>i. payload ! i XOR mask_key ! (i mod 4)) [0..<length payload]"

definition on_mask_key :: "u64 \<Rightarrow> u8 \<Rightarrow> u8 list \<Rightarrow> WsConnection \<Rightarrow> WsConnection" where
  "on_mask_key len opcode key c =
     (if len = 0 then (handle_frame [] opcode c)\<lparr>reading := Frame_header\<rparr>
      else c\<lparr>reading := Payload key len opcode\<rparr>)"

definition on_payload :: "u8 list \<Rightarrow> u8 \<Rightarrow> u8 list \<Rightarrow> WsConnection \<Rightarrow> WsConnection" where
  "on_payload key opcode payload c = (handle_frame (unmask key payload) opcode c)\<lparr>reading := Frame_header\<rparr>"

fun wanted :: "Reading \<Rightarrow> nat" where
  "wanted Frame_header = 2"
| "wanted (Ext_length n opcode masked) = n"
| "wanted (Mask_key len opcode) = 4"
| "wanted (Payload key len opcode) = unat len"
| "wanted Not_reading = 0"

fun on_read :: "Reading \<Rightarrow> u8 list \<Rightarrow> WsConnection \<Rightarrow> WsConnection" where
  "on_read Frame_header bs c = on_frame_header bs c"
| "on_read (Ext_length n opcode masked) bs c = finish_with_length opcode masked (be_value bs) c"
| "on_read (Mask_key len opcode) bs c = on_mask_key len opcode bs c"
| "on_read (Payload key len opcode) bs c = on_payload key opcode bs c"
| "on_read Not_reading bs c = c"

text \<open>The state in which \<open>start\<close> hands a connection over after the handshake.\<close>

definition ws_ready :: WsConnection where
  "ws_ready = \<lparr>outbox = [], writing = False, is_open = True, closed = False, reading = Frame_header,
     in_flight = [], closed_calls = 0\<rparr>"

text \<open>The handlers of the strand: a frame posted by \<open>send_text\<close>, a read that succeeded or failed, the
  write that completed with or without an error.\<close>

datatype WsEvent = Posted "u8 list" | Read_ok "u8 list" | Read_failed | Written bool

fun ws_do :: "WsEvent \<Rightarrow> WsConnection \<Rightarrow> WsConnection ub" where
  "ws_do (Posted frame) c = Some (ws_enqueue frame c)"
| "ws_do (Read_ok bs) c = Some (on_read (reading c) bs c)"
| "ws_do Read_failed c = Some ((ws_close c)\<lparr>reading := Not_reading\<rparr>)"
| "ws_do (Written ec) c = on_written ec (c\<lparr>in_flight := tl (in_flight c)\<rparr>)"

text \<open>What Asio may deliver: a read brings as many bytes as it was asked for, only a started write
  completes. A write that was complete before \<open>close()\<close> still reports success after it.\<close>

fun ws_allowed :: "WsEvent \<Rightarrow> WsConnection \<Rightarrow> bool" where
  "ws_allowed (Posted frame) c = True"
| "ws_allowed (Read_ok bs) c = (reading c \<noteq> Not_reading \<and> length bs = wanted (reading c))"
| "ws_allowed Read_failed c = (reading c \<noteq> Not_reading)"
| "ws_allowed (Written ec) c = (in_flight c \<noteq> [])"

fun ws_run :: "WsEvent list \<Rightarrow> WsConnection \<Rightarrow> WsConnection ub" where
  "ws_run [] c = Some c"
| "ws_run (e # es) c = (case ws_do e c of None \<Rightarrow> None | Some c' \<Rightarrow> ws_run es c')"

fun ws_possible :: "WsEvent list \<Rightarrow> WsConnection \<Rightarrow> bool" where
  "ws_possible [] c = True"
| "ws_possible (e # es) c = (ws_allowed e c \<and> (case ws_do e c of None \<Rightarrow> True | Some c' \<Rightarrow> ws_possible es c'))"

section \<open>The server's list of connections\<close>

text \<open>Connections are numbered; every update holds the mutex. \<open>broadcast\<close> copies the list and posts the
  message's frame to every connection of the copy that is open.\<close>

definition server_ready :: "nat \<Rightarrow> nat list \<Rightarrow> nat list" where
  "server_ready conn connections = connections @ [conn]"

definition server_closed :: "nat \<Rightarrow> nat list \<Rightarrow> nat list" where
  "server_closed conn connections = filter (\<lambda>other. other \<noteq> conn) connections"

definition connection_count :: "nat list \<Rightarrow> nat" where
  "connection_count connections = length connections"

definition send_text :: "string \<Rightarrow> WsConnection \<Rightarrow> WsEvent list" where
  "send_text payload c = (if \<not> is_open c then [] else [Posted (make_frame kOpText (bytes_of payload))])"

definition broadcast :: "string \<Rightarrow> (nat \<Rightarrow> WsConnection) \<Rightarrow> nat list \<Rightarrow> (nat \<times> WsEvent) list" where
  "broadcast message conns connections =
     concat (map (\<lambda>conn. map (Pair conn) (send_text message (conns conn))) connections)"

section \<open>Specification: frames as RFC 6455 defines them\<close>

text \<open>How a client reads a server's frame: a final, unmasked frame, then whatever follows it.\<close>

definition parse_frame :: "u8 list \<Rightarrow> (u8 \<times> u8 list \<times> u8 list) option" where
  "parse_frame bs = (case bs of b0 # b1 # rest \<Rightarrow>
       if \<not> bit b0 7 \<or> bit b1 7 then None
       else let (len, body) =
              (if b1 = 126 then (unat (be_value (take 2 rest)), drop 2 rest)
               else if b1 = 127 then (unat (be_value (take 8 rest)), drop 8 rest)
               else (unat b1, rest))
            in if length body < len then None
               else Some (b0 AND 0x0F, take len body, drop len body)
     | _ \<Rightarrow> None)"

text \<open>How a client sends one: masked, with the shortest length form, as the reads that take it apart.\<close>

definition mask_payload :: "u8 list \<Rightarrow> u8 list \<Rightarrow> u8 list" where
  "mask_payload key data = map (\<lambda>i. data ! i XOR key ! (i mod 4)) [0..<length data]"

definition client_reads :: "u8 \<Rightarrow> u8 list \<Rightarrow> u8 list \<Rightarrow> WsEvent list" where
  "client_reads opcode key data =
     (let len = of_nat (length data) :: u64
      in (if len \<le> 125 then [Read_ok [0x80 OR opcode, 0x80 OR ucast len]]
          else if len \<le> 0xFFFF then [Read_ok [0x80 OR opcode, 0x80 OR 126],
                 Read_ok [ucast (drop_bit 8 len AND 0xFF), ucast (len AND 0xFF)]]
          else [Read_ok [0x80 OR opcode, 0x80 OR 127], Read_ok (be_u64 len)]) @
         [Read_ok key] @ (if data = [] then [] else [Read_ok (mask_payload key data)]))"

section \<open>Lengths\<close>

definition be_image :: "nat \<Rightarrow> u64 \<Rightarrow> u8 list" where
  "be_image k n = map (\<lambda>i. ucast (drop_bit (i * 8) n AND 0xFF)) (rev [0..<k])"

lemma be_u64_image: "be_u64 n = be_image 8 n"
  by (simp add: be_u64_def be_image_def upt_rec)

lemma be_pair_image: "[ucast (drop_bit 8 n AND 0xFF), ucast (n AND 0xFF)] = be_image 2 n"
  by (simp add: be_image_def upt_rec)

lemma ff_mask64: "(0xFF :: u64) = mask 8"
  by (simp add: mask_eq_exp_minus_1)

lemma be_value_image: "foldl (\<lambda>len b. push_bit 8 len OR ucast b) acc (be_image k n) =
    push_bit (8 * k) acc OR (take_bit (8 * k) n :: u64)"
proof (induction k arbitrary: acc)
  case 0
  then show ?case by (simp add: be_image_def)
next
  case (Suc k)
  let ?b = "ucast (drop_bit (k * 8) n AND 0xFF) :: u8"
  have "push_bit (8 * k) (push_bit 8 acc OR ucast ?b) OR take_bit (8 * k) n =
      push_bit (8 * Suc k) acc OR take_bit (8 * Suc k) n"
    unfolding ff_mask64
    by (rule bit_word_eqI) (auto simp: bit_simps mult.commute add.commute dest: bit_imp_le_length)
  with Suc [of "push_bit 8 acc OR ucast ?b"] show ?case by (simp add: be_image_def)
qed

lemma be_value_be_image: "be_value (be_image k n) = take_bit (8 * k) n"
  by (simp add: be_value_def be_value_image)

lemma be_value_u64 [simp]: "be_value (be_u64 n) = n"
  by (simp add: be_u64_image be_value_be_image take_bit_word_eq_self)

lemma be_value_pair: "n \<le> 0xFFFF \<Longrightarrow> be_value [ucast (drop_bit 8 n AND 0xFF), ucast (n AND 0xFF)] = n"
proof -
  assume "n \<le> 0xFFFF"
  then have "unat (take_bit 16 n) = unat n"
    by (simp add: unsigned_take_bit_eq take_bit_nat_eq_self word_le_nat_alt)
  then have "take_bit 16 n = n" by (simp only: word_unat_eq_iff)
  then show ?thesis by (simp only: be_pair_image be_value_be_image) simp
qed

section \<open>Frames survive the wire\<close>

lemma opcode_bits:
  assumes "opcode < (16 :: u8)"
  shows "bit (0x80 OR opcode) 7" "(0x80 OR opcode) AND 0x0F = opcode"
proof -
  have "unat (take_bit 4 opcode) = unat opcode"
    using assms by (simp add: unsigned_take_bit_eq take_bit_nat_eq_self word_less_nat_alt)
  then have op: "take_bit 4 opcode = opcode" by (simp only: word_unat_eq_iff)
  show "bit (0x80 OR opcode) 7" by (simp add: bit_or_iff)
  have "(0x0F :: u8) = mask 4" by (simp add: mask_eq_exp_minus_1)
  then have "(0x80 OR opcode) AND 0x0F = take_bit 4 (0x80 OR opcode)" by (simp add: take_bit_eq_mask)
  also have "\<dots> = opcode" by (simp add: take_bit_or op)
  finally show "(0x80 OR opcode) AND 0x0F = opcode" .
qed

lemma short_length:
  assumes "(len :: u64) \<le> 127"
  shows "unat (ucast len :: u8) = unat len" "\<not> bit (ucast len :: u8) 7" "(ucast len :: u8) AND 0x7F = ucast len"
    "(0x80 OR ucast len) AND (0x7F :: u8) = ucast len"
proof -
  have "unat (take_bit 7 len) = unat len"
    using assms by (simp add: unsigned_take_bit_eq take_bit_nat_eq_self word_le_nat_alt)
  then have len: "take_bit 7 len = len" by (simp only: word_unat_eq_iff)
  show "unat (ucast len :: u8) = unat len"
    using assms by (simp add: unsigned_ucast_eq take_bit_nat_eq_self word_le_nat_alt)
  have "\<not> bit (take_bit 7 len) 7" by (simp add: bit_take_bit_iff)
  then show "\<not> bit (ucast len :: u8) 7" by (simp add: bit_ucast_iff len)
  have 7: "(0x7F :: u8) = mask 7" by (simp add: mask_eq_exp_minus_1)
  have "take_bit 7 (ucast len :: u8) = ucast (take_bit 7 len)" by (rule bit_word_eqI) (auto simp: bit_simps)
  then have t: "take_bit 7 (ucast len :: u8) = ucast len" by (simp add: len)
  then show "(ucast len :: u8) AND 0x7F = ucast len" by (simp add: 7 flip: take_bit_eq_mask)
  have "take_bit 7 (0x80 :: u8) = 0" by simp
  with t show "(0x80 OR ucast len) AND (0x7F :: u8) = ucast len"
    by (simp add: 7 take_bit_or flip: take_bit_eq_mask)
qed

lemma of_nat_length: "length data < 2 ^ 64 \<Longrightarrow> unat (of_nat (length data) :: u64) = length data"
  by (intro unat_of_nat_less) simp

lemma parse_make_frame:
  assumes "opcode < 16" "length data < 2 ^ 64"
  shows "parse_frame (make_frame opcode data @ rest) = Some (opcode, data, rest)"
proof -
  define len :: u64 where "len = of_nat (length data)"
  have u: "unat len = length data" using of_nat_length [OF assms(2)] by (simp add: len_def)
  note op = opcode_bits [OF assms(1)]
  have frame: "make_frame opcode data = [0x80 OR opcode] @ (if len \<le> 125 then [ucast len]
      else if len \<le> 0xFFFF then [126, ucast (drop_bit 8 len AND 0xFF), ucast (len AND 0xFF)]
      else 127 # be_u64 len) @ data" by (simp only: make_frame_def len_def Let_def)
  consider "len \<le> 125" | "\<not> len \<le> 125" "len \<le> 0xFFFF" | "\<not> len \<le> 125" "\<not> len \<le> 0xFFFF" by blast
  then show ?thesis
  proof cases
    case 1
    then have "len \<le> 127" by (rule order_trans) simp
    note short = short_length [OF this]
    have "(ucast len :: u8) \<noteq> 126" "(ucast len :: u8) \<noteq> 127"
      using short(1) 1 by (auto simp: word_le_nat_alt dest: arg_cong [of _ _ unat])
    with 1 show ?thesis using short u op by (simp add: frame parse_frame_def)
  next
    case 2
    have "\<not> bit (126 :: u8) 7" by simp
    with 2 show ?thesis using be_value_pair [OF 2(2)] u op by (simp add: frame parse_frame_def)
  next
    case 3
    have "\<not> bit (127 :: u8) 7" "length (be_u64 len) = 8" by (simp_all add: be_u64_def)
    with 3 show ?thesis using u op by (simp add: frame parse_frame_def)
  qed
qed

lemma unmask_mask: "length key = 4 \<Longrightarrow> unmask key (mask_payload key data) = data"
  by (auto simp: unmask_def mask_payload_def intro!: nth_equalityI simp: xor.assoc)

lemma length_mask_payload [simp]: "length (mask_payload key data) = length data"
  by (simp add: mask_payload_def)

lemma client_reads_run:
  assumes "opcode < 16" "length key = 4" "length data \<le> 65536" "reading c = Frame_header"
  shows "ws_run (client_reads opcode key data) c = Some ((handle_frame data opcode c)\<lparr>reading := Frame_header\<rparr>)"
proof -
  define len :: u64 where "len = of_nat (length data)"
  have u: "unat len = length data" using of_nat_length [of data] assms(3) by (simp add: len_def)
  have le: "\<not> kMaxIncomingPayload < len" using u assms(3) by (simp add: kMaxIncomingPayload_def word_less_nat_alt)
  note op = opcode_bits [OF assms(1)]
  have events: "client_reads opcode key data =
      (if len \<le> 125 then [Read_ok [0x80 OR opcode, 0x80 OR ucast len]]
       else if len \<le> 0xFFFF then [Read_ok [0x80 OR opcode, 0x80 OR 126],
              Read_ok [ucast (drop_bit 8 len AND 0xFF), ucast (len AND 0xFF)]]
       else [Read_ok [0x80 OR opcode, 0x80 OR 127], Read_ok (be_u64 len)]) @
      [Read_ok key] @ (if data = [] then [] else [Read_ok (mask_payload key data)])"
    by (simp only: client_reads_def len_def Let_def)
  have tail: "ws_run ([Read_ok key] @ (if data = [] then [] else [Read_ok (mask_payload key data)]))
      (c\<lparr>reading := Mask_key len opcode\<rparr>) = Some ((handle_frame data opcode c)\<lparr>reading := Frame_header\<rparr>)"
  proof -
    have hf: "(handle_frame d opcode (c\<lparr>reading := r\<rparr>))\<lparr>reading := Frame_header\<rparr> =
        (handle_frame d opcode c)\<lparr>reading := Frame_header\<rparr>" for d r
      by (simp add: handle_frame_def ws_close_def ws_enqueue_def write_next_def Let_def)
    have "len = 0 \<longleftrightarrow> data = []" using u by (metis length_0_conv unat_0 word_unat_eq_iff)
    with unmask_mask [OF assms(2), of data] hf show ?thesis
      by (auto simp: on_mask_key_def on_payload_def)
  qed
  have masked: "(0x80 OR x) AND (0x80 :: u8) \<noteq> 0" for x
  proof -
    have "bit ((0x80 OR x) AND (0x80 :: u8)) 7" by (simp add: bit_simps)
    then show ?thesis by (metis bit_0_eq bot_apply bot_bool_def)
  qed
  consider "len \<le> 125" | "\<not> len \<le> 125" "len \<le> 0xFFFF" | "\<not> len \<le> 125" "\<not> len \<le> 0xFFFF" by blast
  then show ?thesis
  proof cases
    case 1
    then have "len \<le> 127" by (rule order_trans) simp
    note short = short_length [OF this]
    have "unat (take_bit 8 len) = unat len"
      using 1 by (simp add: unsigned_take_bit_eq take_bit_nat_eq_self word_le_nat_alt)
    then have "take_bit 8 len = len" by (simp only: word_unat_eq_iff)
    moreover have "(ucast (ucast len :: u8) :: u64) = take_bit 8 len"
      by (rule bit_word_eqI) (auto simp: bit_simps)
    ultimately have cast: "(ucast (ucast len :: u8) :: u64) = len" by simp
    have "len \<noteq> 126" "len \<noteq> 127" using 1 by (auto simp: word_le_nat_alt)
    then have "on_frame_header [0x80 OR opcode, 0x80 OR ucast len] c = c\<lparr>reading := Mask_key len opcode\<rparr>"
      using le masked op short(4) cast by (simp add: on_frame_header_def Let_def finish_with_length_def)
    with 1 tail assms(4) show ?thesis by (simp add: events)
  next
    case 2
    have "on_frame_header [0x80 OR opcode, 0x80 OR 126] c = c\<lparr>reading := Ext_length 2 opcode True\<rparr>"
      using masked [of 126] op by (simp add: on_frame_header_def Let_def)
    with 2 tail assms(4) le show ?thesis
      by (simp add: events be_value_pair finish_with_length_def)
  next
    case 3
    have "on_frame_header [0x80 OR opcode, 0x80 OR 127] c = c\<lparr>reading := Ext_length 8 opcode True\<rparr>"
      using masked [of 127] op by (simp add: on_frame_header_def Let_def)
    with 3 tail assms(4) le show ?thesis by (simp add: events finish_with_length_def)
  qed
qed

section \<open>The outbox\<close>

text \<open>What an event adds to the outbox, and the frame a completed write has put on the wire.\<close>

fun pong_for :: "u8 \<Rightarrow> u8 list \<Rightarrow> u8 list list" where
  "pong_for opcode payload = (if opcode = kOpPing then [make_frame kOpPong (take 125 payload)] else [])"

fun enqueued_by :: "WsEvent \<Rightarrow> WsConnection \<Rightarrow> u8 list list" where
  "enqueued_by (Posted frame) c = [frame]"
| "enqueued_by (Read_ok bs) c = (case reading c of
       Mask_key len opcode \<Rightarrow> if len = 0 then pong_for opcode [] else []
     | Payload key len opcode \<Rightarrow> pong_for opcode (unmask key bs)
     | _ \<Rightarrow> [])"
| "enqueued_by _ c = []"

fun sent_by :: "WsEvent \<Rightarrow> WsConnection \<Rightarrow> u8 list list" where
  "sent_by (Written ec) c = (if ec then [] else [hd (in_flight c)])"
| "sent_by _ c = []"

fun ws_enqueued :: "WsEvent list \<Rightarrow> WsConnection \<Rightarrow> u8 list list" where
  "ws_enqueued [] c = []"
| "ws_enqueued (e # es) c = enqueued_by e c @ (case ws_do e c of None \<Rightarrow> [] | Some c' \<Rightarrow> ws_enqueued es c')"

fun ws_sent :: "WsEvent list \<Rightarrow> WsConnection \<Rightarrow> u8 list list" where
  "ws_sent [] c = []"
| "ws_sent (e # es) c = sent_by e c @ (case ws_do e c of None \<Rightarrow> [] | Some c' \<Rightarrow> ws_sent es c')"

definition ws_inv :: "WsConnection \<Rightarrow> bool" where
  "ws_inv c \<longleftrightarrow> closed_calls c = (if closed c then 1 else 0) \<and> length (outbox c) \<le> kMaxQueuedFrames \<and>
     (if closed c then outbox c = [] \<and> \<not> is_open c
      else is_open c \<and> writing c = (outbox c \<noteq> []) \<and> in_flight c = (if outbox c = [] then [] else [hd (outbox c)]))"

lemma ws_inv_ready [simp]: "ws_inv ws_ready" "\<not> closed ws_ready" "outbox ws_ready = []"
  by (simp_all add: ws_inv_def ws_ready_def)

lemma ws_close_inv: "ws_inv c \<Longrightarrow> ws_inv (ws_close c) \<and> closed (ws_close c)"
  by (simp add: ws_inv_def ws_close_def)

lemma ws_enqueue_inv:
  assumes "ws_inv c"
  shows "ws_inv (ws_enqueue frame c)" "closed c \<Longrightarrow> closed (ws_enqueue frame c)"
    "\<not> closed (ws_enqueue frame c) \<Longrightarrow> outbox (ws_enqueue frame c) = outbox c @ [frame]"
proof -
  have "ws_inv (ws_enqueue frame c) \<and> (closed c \<longrightarrow> closed (ws_enqueue frame c)) \<and>
    (\<not> closed (ws_enqueue frame c) \<longrightarrow> outbox (ws_enqueue frame c) = outbox c @ [frame])"
  proof (cases "closed c")
    case True
    with assms show ?thesis by (simp add: ws_enqueue_def)
  next
    case False
    show ?thesis
    proof (cases "kMaxQueuedFrames \<le> length (outbox c)")
      case True
      with False ws_close_inv [OF assms] show ?thesis by (simp add: ws_enqueue_def)
    next
      case room: False
      with False assms show ?thesis
        by (simp add: ws_enqueue_def ws_inv_def write_next_def Let_def hd_append)
    qed
  qed
  then show "ws_inv (ws_enqueue frame c)" "closed c \<Longrightarrow> closed (ws_enqueue frame c)"
    "\<not> closed (ws_enqueue frame c) \<Longrightarrow> outbox (ws_enqueue frame c) = outbox c @ [frame]"
    by blast+
qed

lemma reading_inv [simp]: "ws_inv (c\<lparr>reading := r\<rparr>) = ws_inv c"
  by (simp add: ws_inv_def)

lemma handle_frame_inv:
  assumes "ws_inv c"
  shows "ws_inv (handle_frame payload opcode c)" "closed c \<Longrightarrow> closed (handle_frame payload opcode c)"
    "\<not> closed (handle_frame payload opcode c) \<Longrightarrow>
      outbox (handle_frame payload opcode c) = outbox c @ pong_for opcode payload"
  using assms ws_close_inv [OF assms] ws_enqueue_inv [OF assms, of "make_frame kOpPong (take 125 payload)"]
  by (auto simp: handle_frame_def kOpClose_def kOpPing_def)

text \<open>An event on a connection that stays open: no undefined behaviour, and the outbox is a queue.\<close>

lemma ws_do_open:
  assumes "ws_inv c" "\<not> closed c" "ws_allowed e c"
  shows "\<exists>c'. ws_do e c = Some c' \<and> ws_inv c' \<and>
    (\<not> closed c' \<longrightarrow> sent_by e c @ outbox c' = outbox c @ enqueued_by e c)"
proof (cases e)
  case (Posted frame)
  with assms ws_enqueue_inv [OF assms(1)] show ?thesis by auto
next
  case (Read_ok bs)
  with assms ws_close_inv [OF assms(1)] handle_frame_inv [OF assms(1)] show ?thesis
    by (cases "reading c")
      (auto simp: on_frame_header_def finish_with_length_def on_mask_key_def on_payload_def Let_def
        simp del: pong_for.simps)
next
  case Read_failed
  with assms ws_close_inv [OF assms(1)] show ?thesis by auto
next
  case (Written ec)
  let ?c = "c\<lparr>in_flight := tl (in_flight c)\<rparr>"
  from assms Written obtain frame frames where o: "outbox c = frame # frames" "in_flight c = [frame]" "is_open c"
    "closed_calls c = 0" "length (outbox c) \<le> kMaxQueuedFrames"
    by (cases "outbox c") (auto simp: ws_inv_def split: if_splits)
  show ?thesis
  proof (cases ec)
    case True
    with o assms(2) Written show ?thesis by (simp add: on_written_def ws_close_def ws_inv_def)
  next
    case False
    with o assms(2) Written show ?thesis
      by (cases frames) (simp_all add: on_written_def write_next_def ws_inv_def)
  qed
qed

lemma closed_stays:
  assumes "closed c" "ws_do e c = Some c'"
  shows "closed c'"
  using assms
  by (cases e; cases "reading c") (auto simp: ws_close_def ws_enqueue_def on_written_def write_next_def
    handle_frame_def on_frame_header_def finish_with_length_def on_mask_key_def on_payload_def Let_def
    split: list.splits if_splits)

lemma closed_stays_run: "closed c \<Longrightarrow> ws_run es c = Some c' \<Longrightarrow> closed c'"
  by (induction es arbitrary: c) (auto dest: closed_stays split: option.splits)

lemma ws_run_open:
  assumes "ws_inv c" "ws_possible es c" "ws_run es c = Some c'" "\<not> closed c'"
  shows "ws_inv c' \<and> ws_sent es c @ outbox c' = outbox c @ ws_enqueued es c"
  using assms
proof (induction es arbitrary: c)
  case (Cons e es)
  then have "\<not> closed c" using closed_stays_run by blast
  with ws_do_open [of c e] Cons.prems obtain c1 where c1: "ws_do e c = Some c1" "ws_inv c1"
    "\<not> closed c1 \<longrightarrow> sent_by e c @ outbox c1 = outbox c @ enqueued_by e c" by auto
  from Cons.prems c1(1) have run: "ws_run es c1 = Some c'" "ws_possible es c1" by simp_all
  with closed_stays_run Cons.prems(4) have "\<not> closed c1" by blast
  with c1 Cons.IH [OF c1(2) run(2,1) Cons.prems(4)] show ?case
    by simp
qed simp

text \<open>How much a client can make the server read ahead.\<close>

fun reading_ok :: "Reading \<Rightarrow> bool" where
  "reading_ok (Ext_length n opcode masked) = (n = 2 \<or> n = 8)"
| "reading_ok (Mask_key len opcode) = (len \<le> kMaxIncomingPayload)"
| "reading_ok (Payload key len opcode) = (len \<le> kMaxIncomingPayload)"
| "reading_ok _ = True"

lemma keeps_reading [simp]: "reading (ws_close c) = reading c" "reading (ws_enqueue frame c) = reading c"
  "reading (write_next c) = reading c"
  by (simp_all add: ws_close_def ws_enqueue_def write_next_def Let_def)

lemma ws_do_reading: "reading_ok (reading c) \<Longrightarrow> ws_do e c = Some c' \<Longrightarrow> reading_ok (reading c')"
  by (cases e; cases "reading c")
    (auto simp: on_written_def on_frame_header_def finish_with_length_def on_mask_key_def on_payload_def
      Let_def split: list.splits if_splits)

lemma ws_run_reading: "reading_ok (reading c) \<Longrightarrow> ws_run es c = Some c' \<Longrightarrow> reading_ok (reading c')"
  by (induction es arbitrary: c) (auto dest: ws_do_reading split: option.splits)

lemma reading_ok_wanted: "reading_ok r \<Longrightarrow> wanted r \<le> 65536"
  by (cases r) (auto simp: kMaxIncomingPayload_def word_le_nat_alt)

section \<open>Tokens\<close>

lemma or_zero_iff: "(x OR y = (0 :: u8)) \<longleftrightarrow> x = 0 \<and> y = 0"
  by (auto simp: bit_eq_iff bit_or_iff)

lemma foldl_or_zero: "(foldl (\<lambda>diff i. diff OR f i) d is = (0 :: u8)) \<longleftrightarrow> d = 0 \<and> (\<forall>i \<in> set is. f i = 0)"
  by (induction "is" arbitrary: d) (auto simp: or_zero_iff)

lemma xor_zero_iff: "(x XOR y = (0 :: u8)) \<longleftrightarrow> x = y"
  by (auto simp: bit_eq_iff bit_xor_iff)

lemma char_byte_inject: "(of_nat (of_char a) :: u8) = of_nat (of_char b) \<longleftrightarrow> a = b"
proof
  assume "(of_nat (of_char a) :: u8) = of_nat (of_char b)"
  then have "text_of (bytes_of [a]) = text_of (bytes_of [b])" by (simp only: bytes_of_def list.map)
  then show "a = b" by (simp only: text_of_bytes_of list.inject)
qed simp

lemma constant_time_equals_iff: "constant_time_equals a b \<longleftrightarrow> a = b"
proof
  assume "constant_time_equals a b"
  then have len: "length a = length b" and bytes: "\<forall>i < length a. byte_at a i = byte_at b i"
    by (auto simp: constant_time_equals_def foldl_or_zero xor_zero_iff split: if_splits)
  then show "a = b" by (intro nth_equalityI) (auto simp: byte_at_def char_byte_inject)
next
  assume "a = b"
  then show "constant_time_equals a b" unfolding constant_time_equals_def foldl_or_zero by simp
qed

section \<open>Properties\<close>

text \<open>A frame the server writes is read back by any RFC 6455 client: whatever the payload and its
  length, with one, three or nine length bytes, the client gets the opcode, the payload, and the
  bytes that follow the frame.\<close>

theorem ws_frame_roundtrip:
  assumes "opcode < 16" and "length data < 2 ^ 64"
  shows "parse_frame (make_frame opcode data @ rest) = Some (opcode, data, rest)"
  using assms by (rule parse_make_frame)

theorem ws_frame_roundtrip_witness:
  "parse_frame (make_frame kOpText [104, 105] @ [7]) = Some (kOpText, [104, 105], [7])"
  using ws_frame_roundtrip [of kOpText "[104, 105]" "[7]"] by (simp add: kOpText_def)

text \<open>A masked client frame of up to 64 KiB, in whatever length form its size needs, is taken apart by
  the chain of reads into exactly its opcode and unmasked payload, and the server is then ready for
  the next frame; and whatever a client sends, a read never asks for more than 64 KiB.\<close>

theorem ws_client_frame_handled:
  assumes "opcode < 16" and "length key = 4" and "length data \<le> 65536" and "reading c = Frame_header"
    and "ws_run es ws_ready = Some c'"
  shows "ws_run (client_reads opcode key data) c =
      Some ((handle_frame data opcode c)\<lparr>reading := Frame_header\<rparr>) \<and> wanted (reading c') \<le> 65536"
proof -
  have "reading_ok (reading ws_ready)" by (simp add: ws_ready_def)
  from ws_run_reading [OF this assms(5)] have "wanted (reading c') \<le> 65536" by (rule reading_ok_wanted)
  with client_reads_run [OF assms(1-4)] show ?thesis by blast
qed

theorem ws_client_frame_handled_witness:
  "ws_run (client_reads kOpPing [1, 2, 3, 4] [9]) ws_ready =
     Some ((handle_frame [9] kOpPing ws_ready)\<lparr>reading := Frame_header\<rparr>)"
  using ws_client_frame_handled [of kOpPing "[1, 2, 3, 4]" "[9]" ws_ready "[]" ws_ready]
  by (simp add: kOpPing_def ws_ready_def)

text \<open>C33. While a connection stays open its outbox is a queue: the frames on the wire followed by the
  frames still queued are the frames enqueued, in order and each whole; at most one write is in
  flight, at most 512 frames are queued, and every event that can happen next is defined.\<close>

theorem ws_outbox_fifo:
  assumes "ws_possible es ws_ready" and "ws_run es ws_ready = Some c" and "\<not> closed c"
  shows "ws_sent es ws_ready @ outbox c = ws_enqueued es ws_ready \<and> length (in_flight c) \<le> 1 \<and>
    length (outbox c) \<le> 512 \<and> (ws_allowed e c \<longrightarrow> ws_do e c \<noteq> None)"
proof -
  from ws_run_open [OF ws_inv_ready(1) assms] have inv: "ws_inv c"
    and "ws_sent es ws_ready @ outbox c = ws_enqueued es ws_ready" by simp_all
  moreover have "length (in_flight c) \<le> 1" "length (outbox c) \<le> 512"
    using inv assms(3) by (auto simp: ws_inv_def kMaxQueuedFrames_def)
  ultimately show ?thesis using ws_do_open [OF inv assms(3), of e] by auto
qed

theorem ws_outbox_fifo_witness:
  "\<exists>c. ws_run [Posted [1], Posted [2], Written False] ws_ready = Some c \<and> \<not> closed c \<and>
     ws_sent [Posted [1], Posted [2], Written False] ws_ready @ outbox c = [[1], [2]]"
proof -
  let ?es = "[Posted [1], Posted [2], Written False]"
  obtain c where c: "ws_run ?es ws_ready = Some c" "\<not> closed c" "ws_possible ?es ws_ready"
    by (simp add: ws_ready_def ws_enqueue_def write_next_def on_written_def kMaxQueuedFrames_def)
  from ws_outbox_fifo [OF c(3,1,2)] have "ws_sent ?es ws_ready @ outbox c = ws_enqueued ?es ws_ready" by blast
  also have "\<dots> = [[1], [2]]"
    by (simp add: ws_ready_def ws_enqueue_def write_next_def on_written_def kMaxQueuedFrames_def)
  finally show ?thesis using c by blast
qed

text \<open>C34. A connection that closes while a finished write waits to be reported is undefined behaviour: the
  close empties the outbox, and the handler of the write then pops from the empty deque. A client
  that sends a close frame while the server is sending can bring this about.\<close>

theorem ws_close_races_write:
  "ws_possible [Posted frame, Read_ok [0x88, 0x80], Read_ok [0, 0, 0, 0], Written False] ws_ready \<and>
   ws_run [Posted frame, Read_ok [0x88, 0x80], Read_ok [0, 0, 0, 0], Written False] ws_ready = None"
proof -
  have "on_frame_header [0x88, 0x80] c = c\<lparr>reading := Mask_key 0 kOpClose\<rparr>" for c
    by (simp add: on_frame_header_def finish_with_length_def kOpClose_def kMaxIncomingPayload_def)
  then show ?thesis
    by (simp add: ws_ready_def ws_enqueue_def write_next_def on_written_def kMaxQueuedFrames_def
      on_mask_key_def handle_frame_def ws_close_def)
qed

text \<open>Authentication of the live feed: with a token configured, an upgrade request is accepted only if
  it is a GET with a key whose query carries exactly that token, and every such request is accepted;
  the reply's accept value is the Base64 text of the SHA-1 digest of key and GUID.\<close>

theorem handshake_authenticates:
  "((\<exists>reply. handshake token request = Inr reply) \<longleftrightarrow>
      starts_with (upto_sub crlf request) ''GET '' \<and> extract_header request ''Sec-WebSocket-Key'' \<noteq> [] \<and>
      (token = [] \<or> query_param (request_target (upto_sub crlf request)) ''token'' = token)) \<and>
   b64_decode (compute_accept_key key) = Some (sha1_digest (bytes_of (key @ kWebSocketGuid)))"
  using base64_decodes [of "sha1_digest (bytes_of (key @ kWebSocketGuid))"]
  by (auto simp: handshake_def constant_time_equals_iff compute_accept_key_def Let_def)

end
