(* ===== verification/WsHub.thy ===== *)
theory WsHub
  imports WsServer
begin

text \<open>
  \<open>src/api/ws_server.cpp\<close>, the life of the connections: accepting a socket, reading the upgrade request,
  answering it, serving, closing, and the server's list that \<open>broadcast\<close> copies. A client is its phase,
  its request and its connection (\<open>WsServer\<close>); clients keep their number after they are gone. Every
  handler of a connection runs on its strand and is one step; \<open>hub_posted\<close> is a history variable.
\<close>

section \<open>State\<close>

datatype Phase = Reading_request | Rejecting | Accepting | Serving

record Client =
  cl_phase :: Phase
  cl_request :: string
  cl_response :: string
  cl_conn :: WsConnection

record Hub =
  hub_token :: string
  hub_accepting :: bool
  hub_next :: nat
  hub_clients :: "nat \<Rightarrow> Client option"
  hub_connections :: "nat list"
  hub_posted :: "(nat \<times> WsEvent) list"

definition Hub_make :: "string \<Rightarrow> Hub" where
  "Hub_make token = \<lparr>hub_token = token, hub_accepting = True, hub_next = 0, hub_clients = Map.empty,
     hub_connections = [], hub_posted = []\<rparr>"

text \<open>A connection before its handshake is over.\<close>

definition ws_fresh :: WsConnection where
  "ws_fresh = ws_ready\<lparr>is_open := False, reading := Not_reading\<rparr>"

section \<open>Handlers\<close>

datatype AcceptResult = Accept_ok | Accept_error | Accept_aborted

text \<open>The accept handler: after \<open>stop\<close> it is aborted and does not accept again.\<close>

definition on_accept :: "AcceptResult \<Rightarrow> Hub \<Rightarrow> Hub" where
  "on_accept result h =
     (if \<not> hub_accepting h then h
      else case result of
        Accept_aborted \<Rightarrow> h\<lparr>hub_accepting := False\<rparr>
      | Accept_error \<Rightarrow> h
      | Accept_ok \<Rightarrow> h\<lparr>hub_next := hub_next h + 1, hub_clients := (hub_clients h)(hub_next h \<mapsto>
          \<lparr>cl_phase = Reading_request, cl_request = [], cl_response = [], cl_conn = ws_fresh\<rparr>)\<rparr>)"

text \<open>What a handler left of a connection; when it closed it, \<open>on_closed_\<close> took it off the list.\<close>

definition put_conn :: "nat \<Rightarrow> Client \<Rightarrow> WsConnection \<Rightarrow> Hub \<Rightarrow> Hub" where
  "put_conn n cl c h = h\<lparr>hub_clients := (hub_clients h)(n \<mapsto> cl\<lparr>cl_conn := c\<rparr>),
     hub_connections := (if closed c \<and> \<not> closed (cl_conn cl) then server_closed n (hub_connections h)
                         else hub_connections h)\<rparr>"

text \<open>The handler of \<open>async_read_until\<close>: an error includes headers that are too long.\<close>

definition on_request :: "nat \<Rightarrow> Client \<Rightarrow> string option \<Rightarrow> Hub \<Rightarrow> Hub" where
  "on_request n cl request h =
     (case request of None \<Rightarrow> put_conn n cl (ws_close (cl_conn cl)) h
      | Some text \<Rightarrow>
        (case handshake (hub_token h) text of
           Inl response \<Rightarrow> h\<lparr>hub_clients := (hub_clients h)(n \<mapsto>
             cl\<lparr>cl_phase := Rejecting, cl_request := text, cl_response := response\<rparr>)\<rparr>
         | Inr response \<Rightarrow> h\<lparr>hub_clients := (hub_clients h)(n \<mapsto>
             cl\<lparr>cl_phase := Accepting, cl_request := text, cl_response := response\<rparr>)\<rparr>))"

definition on_response_written :: "nat \<Rightarrow> Client \<Rightarrow> bool \<Rightarrow> Hub \<Rightarrow> Hub" where
  "on_response_written n cl ec h =
     (if cl_phase cl = Rejecting \<or> ec then put_conn n cl (ws_close (cl_conn cl)) h
      else h\<lparr>hub_clients := (hub_clients h)(n \<mapsto> cl\<lparr>cl_phase := Serving,
               cl_conn := (cl_conn cl)\<lparr>is_open := True, reading := Frame_header\<rparr>\<rparr>),
             hub_connections := server_ready n (hub_connections h)\<rparr>)"

definition hub_broadcast :: "string \<Rightarrow> Hub \<Rightarrow> Hub" where
  "hub_broadcast message h = h\<lparr>hub_posted := hub_posted h @
     broadcast message (\<lambda>n. case hub_clients h n of None \<Rightarrow> ws_fresh | Some cl \<Rightarrow> cl_conn cl) (hub_connections h)\<rparr>"

datatype HubEvent =
    Accept AcceptResult
  | Request nat "string option"
  | Response_written nat bool
  | Serve nat WsEvent
  | Broadcast string

text \<open>A client's event only comes in the phase that waits for it, and never once it is closed, save what a
  served connection still has in flight.\<close>

fun hub_do :: "HubEvent \<Rightarrow> Hub \<Rightarrow> Hub ub" where
  "hub_do (Accept result) h = Some (on_accept result h)"
| "hub_do (Request n request) h =
     (case hub_clients h n of None \<Rightarrow> Some h
      | Some cl \<Rightarrow> Some (if cl_phase cl = Reading_request \<and> \<not> closed (cl_conn cl) then on_request n cl request h else h))"
| "hub_do (Response_written n ec) h =
     (case hub_clients h n of None \<Rightarrow> Some h
      | Some cl \<Rightarrow> Some (if cl_phase cl \<in> {Rejecting, Accepting} \<and> \<not> closed (cl_conn cl)
          then on_response_written n cl ec h else h))"
| "hub_do (Serve n e) h =
     (case hub_clients h n of None \<Rightarrow> Some h
      | Some cl \<Rightarrow> if cl_phase cl = Serving then map_option (\<lambda>c. put_conn n cl c h) (ws_do e (cl_conn cl)) else Some h)"
| "hub_do (Broadcast message) h = Some (hub_broadcast message h)"

fun hub_run :: "HubEvent list \<Rightarrow> Hub \<Rightarrow> Hub ub" where
  "hub_run [] h = Some h"
| "hub_run (e # es) h = (case hub_do e h of None \<Rightarrow> None | Some h \<Rightarrow> hub_run es h)"

section \<open>Who is on the list\<close>

definition let_in :: "string \<Rightarrow> Client \<Rightarrow> bool" where
  "let_in token cl \<longleftrightarrow> (\<exists>response. handshake token (cl_request cl) = Inr response)"

text \<open>The list holds exactly the open connections that are being served, each once; all of them, and
  whoever was ever posted a frame, passed the handshake.\<close>

definition posted_to :: "nat \<Rightarrow> (nat \<times> WsEvent) list \<Rightarrow> bool" where
  "posted_to n posts \<longleftrightarrow> n \<in> fst ` set posts"

definition slot_ok :: "Hub \<Rightarrow> nat \<Rightarrow> bool" where
  "slot_ok h n \<longleftrightarrow>
     (case hub_clients h n of
        None \<Rightarrow> n \<notin> set (hub_connections h) \<and> \<not> posted_to n (hub_posted h)
      | Some cl \<Rightarrow> n < hub_next h \<and>
          (n \<in> set (hub_connections h) \<longleftrightarrow> cl_phase cl = Serving \<and> \<not> closed (cl_conn cl)) \<and>
          (cl_phase cl \<in> {Accepting, Serving} \<longrightarrow> let_in (hub_token h) cl) \<and>
          (posted_to n (hub_posted h) \<longrightarrow> cl_phase cl = Serving))"

definition hub_inv :: "Hub \<Rightarrow> bool" where
  "hub_inv h \<longleftrightarrow> distinct (hub_connections h) \<and> (\<forall>n. slot_ok h n)"

lemma hub_invI: "distinct (hub_connections h) \<Longrightarrow> (\<And>n. slot_ok h n) \<Longrightarrow> hub_inv h"
  by (simp add: hub_inv_def)

lemma hub_inv_make: "hub_inv (Hub_make token)"
  by (simp add: hub_inv_def slot_ok_def Hub_make_def posted_to_def)

lemma hub_inv_slot: "hub_inv h \<Longrightarrow> slot_ok h n"
  by (simp add: hub_inv_def)

lemma put_conn_inv:
  assumes "hub_inv h" and "hub_clients h n = Some cl" and "closed (cl_conn cl) \<longrightarrow> closed c"
  shows "hub_inv (put_conn n cl c h)"
proof (rule hub_invI)
  show "distinct (hub_connections (put_conn n cl c h))"
    using assms(1) by (simp add: hub_inv_def put_conn_def server_closed_def)
  show "slot_ok (put_conn n cl c h) m" for m
    using hub_inv_slot [OF assms(1), of m] assms(2,3)
    by (cases "m = n") (auto simp: slot_ok_def put_conn_def server_closed_def let_in_def split: option.split)
qed

lemma on_accept_inv:
  assumes "hub_inv h"
  shows "hub_inv (on_accept result h)"
proof (rule hub_invI)
  have new: "hub_clients h (hub_next h) = None"
    using hub_inv_slot [OF assms, of "hub_next h"] by (auto simp: slot_ok_def split: option.splits)
  show "distinct (hub_connections (on_accept result h))"
    using assms by (simp add: hub_inv_def on_accept_def split: AcceptResult.split)
  show "slot_ok (on_accept result h) m" for m
    using hub_inv_slot [OF assms, of m] new
    by (cases "m = hub_next h") (auto simp: slot_ok_def on_accept_def ws_fresh_def split: option.splits AcceptResult.split)
qed

lemma on_request_inv:
  assumes "hub_inv h" and "hub_clients h n = Some cl" and "cl_phase cl = Reading_request"
  shows "hub_inv (on_request n cl request h)"
proof (cases request)
  case None
  then show ?thesis using put_conn_inv [OF assms(1,2)] by (simp add: on_request_def ws_close_def)
next
  case (Some request_text)
  show ?thesis
  proof (rule hub_invI)
    show "distinct (hub_connections (on_request n cl request h))"
      using assms(1) Some by (simp add: hub_inv_def on_request_def split: sum.split)
    show "slot_ok (on_request n cl request h) m" for m
      using hub_inv_slot [OF assms(1), of m] assms(2,3) Some
      by (cases "m = n") (auto simp: slot_ok_def on_request_def let_in_def split: option.split sum.split)
  qed
qed

lemma on_response_inv:
  assumes "hub_inv h" and "hub_clients h n = Some cl" and "cl_phase cl \<in> {Rejecting, Accepting}" and "\<not> closed (cl_conn cl)"
  shows "hub_inv (on_response_written n cl ec h)"
proof (cases "cl_phase cl = Rejecting \<or> ec")
  case True
  then show ?thesis using put_conn_inv [OF assms(1,2)] by (auto simp: on_response_written_def ws_close_def)
next
  case False
  then have n: "n \<notin> set (hub_connections h)"
    using hub_inv_slot [OF assms(1), of n] assms(2,3) by (auto simp: slot_ok_def)
  show ?thesis
  proof (rule hub_invI)
    show "distinct (hub_connections (on_response_written n cl ec h))"
      using assms(1) False n by (simp add: hub_inv_def on_response_written_def server_ready_def)
    show "slot_ok (on_response_written n cl ec h) m" for m
      using hub_inv_slot [OF assms(1), of m] assms(2-4) False
      by (cases "m = n") (auto simp: slot_ok_def on_response_written_def server_ready_def let_in_def split: option.split)
  qed
qed

lemma broadcast_targets: "posted_to n (posts @ broadcast message conns connections) \<Longrightarrow>
    posted_to n posts \<or> n \<in> set connections"
  by (auto simp: posted_to_def broadcast_def send_text_def split: if_splits)

lemma hub_broadcast_inv:
  assumes "hub_inv h"
  shows "hub_inv (hub_broadcast message h)"
proof (rule hub_invI)
  show "distinct (hub_connections (hub_broadcast message h))"
    using assms by (simp add: hub_inv_def hub_broadcast_def)
  show "slot_ok (hub_broadcast message h) m" for m
    using hub_inv_slot [OF assms, of m] broadcast_targets [of m "hub_posted h" message]
    by (auto simp: slot_ok_def hub_broadcast_def split: option.splits)
qed

lemma hub_tokens [simp]:
  "hub_token (put_conn n cl c h) = hub_token h" "hub_token (on_accept result h) = hub_token h"
  "hub_token (on_request n cl request h) = hub_token h" "hub_token (on_response_written n cl ec h) = hub_token h"
  "hub_token (hub_broadcast message h) = hub_token h"
  by (simp_all add: put_conn_def on_accept_def on_request_def on_response_written_def hub_broadcast_def
      split: AcceptResult.split option.split sum.split)

lemma hub_do_inv:
  assumes "hub_do e h = Some h'" and "hub_inv h"
  shows "hub_inv h' \<and> hub_token h' = hub_token h"
proof (cases e)
  case (Serve n ev)
  with assms put_conn_inv [OF assms(2), of n] closed_stays [of _ ev] show ?thesis
    by (auto split: option.splits if_splits)
qed (use assms on_accept_inv on_request_inv on_response_inv hub_broadcast_inv in \<open>auto split: option.splits if_splits\<close>)

lemma hub_run_inv:
  "hub_run es h = Some h' \<Longrightarrow> hub_inv h \<Longrightarrow> hub_inv h' \<and> hub_token h' = hub_token h"
  by (induction es arbitrary: h) (auto dest!: hub_do_inv split: option.splits)

lemma let_in_token:
  assumes "let_in token cl" and "token \<noteq> []"
  shows "query_param (request_target (upto_sub crlf (cl_request cl))) ''token'' = token"
  using assms by (auto simp: let_in_def handshake_def Let_def constant_time_equals_iff split: if_splits)

section \<open>Properties\<close>

text \<open>C32. Only authenticated clients ever see dashboard data. Whatever sockets connect, send, fail, close or
  wait, and whenever messages are broadcast: with a token configured, every client that a frame was ever
  posted to had asked with exactly that token and was answered with the switch of protocols; and the
  list the broadcasts go to holds exactly the clients being served and not closed, each once.\<close>

theorem broadcast_only_to_authenticated:
  assumes "hub_run es (Hub_make token) = Some h" and "token \<noteq> []"
  shows "(\<forall>n. n \<in> fst ` set (hub_posted h) \<longrightarrow> (\<exists>cl. hub_clients h n = Some cl \<and> cl_phase cl = Serving \<and>
      query_param (request_target (upto_sub crlf (cl_request cl))) ''token'' = token)) \<and>
    distinct (hub_connections h) \<and> set (hub_connections h) =
      {n. \<exists>cl. hub_clients h n = Some cl \<and> cl_phase cl = Serving \<and> \<not> closed (cl_conn cl)}"
proof -
  from hub_run_inv [OF assms(1) hub_inv_make] have inv: "hub_inv h" and tok: "hub_token h = token"
    by (simp_all add: Hub_make_def)
  have slot: "slot_ok h n" for n using inv by (rule hub_inv_slot)
  have "\<exists>cl. hub_clients h n = Some cl \<and> cl_phase cl = Serving \<and>
      query_param (request_target (upto_sub crlf (cl_request cl))) ''token'' = token" if "n \<in> fst ` set (hub_posted h)" for n
    using slot [of n] that let_in_token [OF _ assms(2)] by (auto simp: slot_ok_def posted_to_def tok split: option.splits)
  moreover have "n \<in> set (hub_connections h) \<longleftrightarrow>
      (\<exists>cl. hub_clients h n = Some cl \<and> cl_phase cl = Serving \<and> \<not> closed (cl_conn cl))" for n
    using slot [of n] by (auto simp: slot_ok_def split: option.splits)
  moreover have "distinct (hub_connections h)" using inv by (simp add: hub_inv_def)
  ultimately show ?thesis by blast
qed

definition demo_upgrade :: string where
  "demo_upgrade = ''GET /?token=s HTTP/1.1'' @ crlf @ ''Sec-WebSocket-Key: k'' @ crlf @ crlf"

lemma demo_upgrade_accepted: "handshake ''s'' demo_upgrade = Inr (accept_response ''k'')"
proof -
  have "upto_sub crlf demo_upgrade = ''GET /?token=s HTTP/1.1''" "extract_header demo_upgrade ''Sec-WebSocket-Key'' = ''k''"
    "request_target ''GET /?token=s HTTP/1.1'' = ''/?token=s''" "query_param ''/?token=s'' ''token'' = ''s''"
    "starts_with ''GET /?token=s HTTP/1.1'' ''GET ''"
    unfolding demo_upgrade_def crlf_def by code_simp+
  then show ?thesis by (simp add: handshake_def constant_time_equals_iff)
qed

theorem broadcast_only_to_authenticated_witness:
  "\<exists>h cl. hub_run [Accept Accept_ok, Request 0 (Some demo_upgrade), Response_written 0 False, Broadcast ''hi'']
      (Hub_make ''s'') = Some h \<and> hub_clients h 0 = Some cl \<and>
    query_param (request_target (upto_sub crlf (cl_request cl))) ''token'' = ''s''"
proof -
  obtain h where h: "hub_run [Accept Accept_ok, Request 0 (Some demo_upgrade), Response_written 0 False, Broadcast ''hi'']
      (Hub_make ''s'') = Some h" "0 \<in> fst ` set (hub_posted h)"
    by (simp add: Hub_make_def on_accept_def on_request_def demo_upgrade_accepted on_response_written_def
        hub_broadcast_def ws_fresh_def ws_ready_def broadcast_def send_text_def server_ready_def)
  from broadcast_only_to_authenticated [OF h(1)] h show ?thesis by auto
qed

end
