(* ===== verification/OrderedMap.thy ===== *)
theory OrderedMap
  imports Main
begin

text \<open>
  \<open>std::map\<close>: an association list with ascending keys. \<open>omap_alter d f k\<close> is a change made through
  \<open>m[k]\<close>, which first inserts the default \<open>d\<close> when the key is absent.
\<close>

fun omap_alter :: "'v \<Rightarrow> ('v \<Rightarrow> 'v) \<Rightarrow> 'k::linorder \<Rightarrow> ('k \<times> 'v) list \<Rightarrow> ('k \<times> 'v) list" where
  "omap_alter d f k [] = [(k, f d)]"
| "omap_alter d f k ((k', v) # kvs) =
     (if k < k' then (k, f d) # (k', v) # kvs
      else if k = k' then (k', f v) # kvs
      else (k', v) # omap_alter d f k kvs)"

definition omap_ok :: "('k::linorder \<times> 'v) list \<Rightarrow> bool" where
  "omap_ok kvs \<longleftrightarrow> sorted_wrt (<) (map fst kvs)"

lemma keys_omap_alter: "fst ` set (omap_alter d f k kvs) = insert k (fst ` set kvs)"
  by (induction d f k kvs rule: omap_alter.induct) auto

lemma omap_ok_Nil [simp]: "omap_ok []"
  by (simp add: omap_ok_def)

lemma omap_ok_Cons [simp]: "omap_ok ((k, v) # kvs) \<longleftrightarrow> (\<forall>k' \<in> fst ` set kvs. k < k') \<and> omap_ok kvs"
  by (auto simp: omap_ok_def)

lemma omap_ok_alter [simp]: "omap_ok kvs \<Longrightarrow> omap_ok (omap_alter d f k kvs)"
  by (induction d f k kvs rule: omap_alter.induct) (force simp: keys_omap_alter)+

lemma map_of_omap_alter:
  "omap_ok kvs \<Longrightarrow> map_of (omap_alter d f k kvs) =
     (map_of kvs)(k \<mapsto> f (case map_of kvs k of None \<Rightarrow> d | Some v \<Rightarrow> v))"
proof (induction d f k kvs rule: omap_alter.induct)
  case (2 d f k k' v kvs)
  have "map_of kvs k = None" if "k < k'" using 2(2) that by (force simp: map_of_eq_None_iff)
  with 2 show ?case by (auto simp: fun_eq_iff)
qed simp

lemma omap_ok_distinct: "omap_ok kvs \<Longrightarrow> distinct (map fst kvs)"
  by (auto simp: omap_ok_def strict_sorted_iff)

text \<open>A property of every entry survives when the changed entry has it.\<close>

lemma omap_alter_all:
  "list_all P kvs \<Longrightarrow> (\<And>v. (k, v) \<in> set kvs \<or> v = d \<Longrightarrow> P (k, f v)) \<Longrightarrow> list_all P (omap_alter d f k kvs)"
  by (induction d f k kvs rule: omap_alter.induct) auto

end
