(* ===== verification/Ieee754.thy ===== *)
theory Ieee754
  imports Prelude Complex_Main
begin

text \<open>
  The arithmetic of C++ \<open>double\<close> and \<open>float\<close>: IEEE 754 binary64 and binary32 values as their bit
  patterns, every operation as the exact rational result rounded to nearest, ties to even. The
  code computes with \<open>+ - * /\<close>, \<open>std::sqrt\<close>, \<open>std::abs\<close>, \<open>std::ceil\<close>, \<open>std::min\<close>, \<open>std::max\<close>,
  the comparisons, \<open>std::isfinite\<close>, the conversions from integers and from \<open>float\<close>, and formats
  with \<open>"%.2f"\<close>; each is a definition here. An arithmetic NaN is the default quiet NaN. The
  operations are the separate IEEE operations: a compiler that contracts \<open>a * b + c\<close> into one
  fused operation is outside the model.

  The lemmas show that the rounding is correct (a representable result is returned unchanged, and
  rounding is monotone), that the comparisons order every value that is not NaN, and the sign and
  NaN facts the detectors' proofs use.
\<close>

type_synonym double = u64
type_synonym float32 = u32

section \<open>Fields of a bit pattern\<close>

definition d_sign :: "double \<Rightarrow> bool" where
  "d_sign x \<longleftrightarrow> 2 ^ 63 \<le> uint x"

definition d_mag_bits :: "double \<Rightarrow> int" where
  "d_mag_bits x = uint x mod 2 ^ 63"

definition d_exp :: "double \<Rightarrow> int" where
  "d_exp x = d_mag_bits x div 2 ^ 52"

definition d_frac :: "double \<Rightarrow> int" where
  "d_frac x = d_mag_bits x mod 2 ^ 52"

abbreviation d_top :: int where
  "d_top \<equiv> 2047 * 2 ^ 52"

definition d_nan :: "double \<Rightarrow> bool" where
  "d_nan x \<longleftrightarrow> d_top < d_mag_bits x"

definition d_inf :: "double \<Rightarrow> bool" where
  "d_inf x \<longleftrightarrow> d_mag_bits x = d_top"

definition d_finite :: "double \<Rightarrow> bool" where
  "d_finite x \<longleftrightarrow> d_mag_bits x < d_top"

definition d_zero :: "double \<Rightarrow> bool" where
  "d_zero x \<longleftrightarrow> d_mag_bits x = 0"

text \<open>The significand with its hidden bit, and the exponent of its last place plus 1075.\<close>

definition d_mant :: "double \<Rightarrow> int" where
  "d_mant x = (if d_exp x = 0 then d_frac x else d_frac x + 2 ^ 52)"

definition d_place :: "double \<Rightarrow> int" where
  "d_place x = (if d_exp x = 0 then 1 else d_exp x)"

text \<open>\<open>scale2 k r\<close> is \<open>r * 2 ^ k\<close>; the code equations evaluate it with one normalisation.\<close>

definition scale2 :: "int \<Rightarrow> rat \<Rightarrow> rat" where
  "scale2 k r = r * 2 powi k"

lemma scale2_code [code]:
  "scale2 k r = (if r = 0 then 0 else if 0 \<le> k then r * of_int (2 ^ nat k)
     else r / of_int (2 ^ nat (- k)))"
  by (simp add: scale2_def power_int_def field_simps)

text \<open>
  The magnitude and the value. On an infinity the formula gives \<open>2 ^ 1024\<close>, which is above every
  finite magnitude: the order of the values is the order of the numbers, infinities included.
\<close>

definition d_mag :: "double \<Rightarrow> rat" where
  "d_mag x = scale2 (d_place x - 1075) (of_int (d_mant x))"

definition d_val :: "double \<Rightarrow> rat" where
  "d_val x = (if d_sign x then - d_mag x else d_mag x)"

section \<open>Rounding\<close>

text \<open>The number of binary digits, and the floor of the binary logarithm.\<close>

function nbits :: "int \<Rightarrow> int" where
  "nbits n = (if n \<le> 0 then 0 else 1 + nbits (n div 2))"
  by pat_completeness auto
termination by (relation "measure nat") auto

declare nbits.simps [simp del]

definition rat_log2 :: "rat \<Rightarrow> int" where
  "rat_log2 r = (if 1 \<le> r then nbits \<lfloor>r\<rfloor> - 1 else - nbits (\<lceil>1 / r\<rceil> - 1))"

definition round_half_even :: "rat \<Rightarrow> int" where
  "round_half_even r = (let n = \<lfloor>r\<rfloor>; d = r - of_int n
     in if d < 1 / 2 then n else if 1 / 2 < d then n + 1 else if even n then n else n + 1)"

definition d_pack :: "bool \<Rightarrow> int \<Rightarrow> double" where
  "d_pack s n = word_of_int ((if s then 2 ^ 63 else 0) + n)"

definition d_round_bits :: "rat \<Rightarrow> int" where
  "d_round_bits r = (if r = 0 then 0 else
     let e = max 1 (rat_log2 r + 1023);
         m = round_half_even (scale2 (1075 - e) r)
     in min d_top (m + (e - 1) * 2 ^ 52))"

definition d_round :: "bool \<Rightarrow> rat \<Rightarrow> double" where
  "d_round s r = d_pack s (d_round_bits r)"

definition d_of_rat :: "rat \<Rightarrow> double" where
  "d_of_rat r = d_round (r < 0) \<bar>r\<bar>"

definition d_nan_val :: double where
  "d_nan_val = 0x7FF8000000000000"

definition d_inf_val :: "bool \<Rightarrow> double" where
  "d_inf_val s = d_pack s d_top"

section \<open>Arithmetic\<close>

definition d_neg :: "double \<Rightarrow> double" where
  "d_neg x = d_pack (\<not> d_sign x) (d_mag_bits x)"

definition d_abs :: "double \<Rightarrow> double" where
  "d_abs x = d_pack False (d_mag_bits x)"

definition d_add :: "double \<Rightarrow> double \<Rightarrow> double" where
  "d_add x y =
     (if d_nan x \<or> d_nan y then d_nan_val
      else if d_inf x then (if d_inf y \<and> d_sign x \<noteq> d_sign y then d_nan_val else x)
      else if d_inf y then y
      else let r = d_val x + d_val y
           in if r = 0 then d_pack (d_sign x \<and> d_sign y) 0 else d_of_rat r)"

definition d_sub :: "double \<Rightarrow> double \<Rightarrow> double" where
  "d_sub x y = d_add x (d_neg y)"

definition d_mul :: "double \<Rightarrow> double \<Rightarrow> double" where
  "d_mul x y = (let s = (d_sign x \<noteq> d_sign y) in
     if d_nan x \<or> d_nan y then d_nan_val
     else if d_inf x \<or> d_inf y then (if d_zero x \<or> d_zero y then d_nan_val else d_inf_val s)
     else d_round s (d_mag x * d_mag y))"

definition d_div :: "double \<Rightarrow> double \<Rightarrow> double" where
  "d_div x y = (let s = (d_sign x \<noteq> d_sign y) in
     if d_nan x \<or> d_nan y then d_nan_val
     else if d_inf x then (if d_inf y then d_nan_val else d_inf_val s)
     else if d_inf y then d_pack s 0
     else if d_zero y then (if d_zero x then d_nan_val else d_inf_val s)
     else d_round s (d_mag x / d_mag y))"

function isqrt :: "int \<Rightarrow> int" where
  "isqrt n = (if n \<le> 0 then 0 else
     let r = 2 * isqrt (n div 4) in if (r + 1) * (r + 1) \<le> n then r + 1 else r)"
  by pat_completeness auto
termination by (relation "measure nat") auto

declare isqrt.simps [simp del]

definition d_sqrt :: "double \<Rightarrow> double" where
  "d_sqrt x =
     (if d_nan x then d_nan_val
      else if d_zero x then x
      else if d_sign x then d_nan_val
      else if d_inf x then x
      else let q = rat_log2 (d_mag x) div 2;
               t = scale2 (2 * (52 - q)) (d_mag x);
               s = isqrt \<lfloor>t\<rfloor>;
               h = of_int s + 1 / 2;
               m = (if t < h * h then s else if h * h < t then s + 1 else if even s then s else s + 1)
           in d_pack False (m + (q + 1022) * 2 ^ 52))"

section \<open>Comparison, minimum, maximum, conversions\<close>

definition d_lt :: "double \<Rightarrow> double \<Rightarrow> bool" where
  "d_lt x y \<longleftrightarrow> \<not> d_nan x \<and> \<not> d_nan y \<and> d_val x < d_val y"

definition d_le :: "double \<Rightarrow> double \<Rightarrow> bool" where
  "d_le x y \<longleftrightarrow> \<not> d_nan x \<and> \<not> d_nan y \<and> d_val x \<le> d_val y"

definition d_eq :: "double \<Rightarrow> double \<Rightarrow> bool" where
  "d_eq x y \<longleftrightarrow> \<not> d_nan x \<and> \<not> d_nan y \<and> d_val x = d_val y"

text \<open>\<open>std::max(a, b)\<close> is \<open>a < b ? b : a\<close> and \<open>std::min(a, b)\<close> is \<open>b < a ? b : a\<close>: with a NaN
  second argument both return the first.\<close>

definition d_max :: "double \<Rightarrow> double \<Rightarrow> double" where
  "d_max a b = (if d_lt a b then b else a)"

definition d_min :: "double \<Rightarrow> double \<Rightarrow> double" where
  "d_min a b = (if d_lt b a then b else a)"

definition d_of_int :: "int \<Rightarrow> double" where
  "d_of_int i = d_of_rat (of_int i)"

text \<open>\<open>static_cast<std::size_t>(std::ceil(x))\<close> for \<open>x\<close> in the range of \<open>size_t\<close>.\<close>

definition d_ceil_nat :: "double \<Rightarrow> nat" where
  "d_ceil_nat x = nat \<lceil>d_val x\<rceil>"

text \<open>\<open>static_cast<double>(float)\<close>, exact: every binary32 value is a binary64 value.\<close>

definition f_exp :: "float32 \<Rightarrow> int" where
  "f_exp x = uint x mod 2 ^ 31 div 2 ^ 23"

definition f_frac :: "float32 \<Rightarrow> int" where
  "f_frac x = uint x mod 2 ^ 23"

definition f_sign :: "float32 \<Rightarrow> bool" where
  "f_sign x \<longleftrightarrow> 2 ^ 31 \<le> uint x"

definition f_mag :: "float32 \<Rightarrow> rat" where
  "f_mag x = (if f_exp x = 0 then scale2 (- 149) (of_int (f_frac x))
              else scale2 (f_exp x - 150) (of_int (f_frac x + 2 ^ 23)))"

definition f_to_double :: "float32 \<Rightarrow> double" where
  "f_to_double x =
     (if f_exp x = 255 then (if f_frac x = 0 then d_inf_val (f_sign x) else d_nan_val)
      else d_round (f_sign x) (f_mag x))"

section \<open>Bit patterns\<close>

lemma d_mag_bits_range [simp]:
  "0 \<le> d_mag_bits x" "d_mag_bits x < 2 ^ 63" "d_mag_bits x < 9223372036854775808"
  by (simp_all add: d_mag_bits_def)

lemma uint_sign_mag: "uint x = (if d_sign x then 2 ^ 63 else 0) + d_mag_bits x"
proof -
  have "uint x < 2 ^ 64" using uint_lt2p [of x] by simp
  moreover have "uint x mod 2 ^ 63 = (uint x - 2 ^ 63) mod 2 ^ 63"
    using mod_add_self2 [of "uint x - 2 ^ 63" "2 ^ 63"] by (simp only: diff_add_cancel)
  moreover have "2 ^ 63 \<le> uint x \<Longrightarrow> (uint x - 2 ^ 63) mod 2 ^ 63 = uint x - 2 ^ 63"
    using calculation(1) by (intro mod_pos_pos_trivial) simp_all
  ultimately show ?thesis
    unfolding d_sign_def d_mag_bits_def by (cases "2 ^ 63 \<le> uint x") simp_all
qed

lemma d_pack_fields:
  assumes "0 \<le> n" "n < 2 ^ 63"
  shows "d_sign (d_pack s n) = s" and "d_mag_bits (d_pack s n) = n"
proof -
  have "uint (d_pack s n) = (if s then 2 ^ 63 else 0) + n"
    unfolding d_pack_def uint_word_of_int using assms by (simp add: mod_pos_pos_trivial)
  then show "d_sign (d_pack s n) = s" "d_mag_bits (d_pack s n) = n"
    using assms by (auto simp: d_sign_def d_mag_bits_def)
qed

lemma d_pack_self: "d_pack (d_sign x) (d_mag_bits x) = x"
  unfolding d_pack_def by (subst uint_sign_mag [symmetric]) (rule word_of_int_uint)

lemma d_eqI:
  assumes "d_sign x = d_sign y" "d_mag_bits x = d_mag_bits y"
  shows "x = y"
proof -
  have "d_pack (d_sign x) (d_mag_bits x) = d_pack (d_sign y) (d_mag_bits y)" by (simp only: assms)
  then show ?thesis unfolding d_pack_self .
qed

lemma d_abs_fields [simp]: "d_sign (d_abs x) = False" "d_mag_bits (d_abs x) = d_mag_bits x"
  by (simp_all add: d_abs_def d_pack_fields)

lemma d_neg_fields [simp]: "d_sign (d_neg x) = (\<not> d_sign x)" "d_mag_bits (d_neg x) = d_mag_bits x"
  by (simp_all add: d_neg_def d_pack_fields)

lemma d_class_cases: "d_nan x \<or> d_inf x \<or> d_finite x"
  by (auto simp: d_nan_def d_inf_def d_finite_def)

lemma d_nan_val_nan [simp]: "d_nan d_nan_val"
  by (simp add: d_nan_def d_nan_val_def d_mag_bits_def)

lemma d_inf_val_fields [simp]: "d_sign (d_inf_val s) = s" "d_mag_bits (d_inf_val s) = d_top"
  by (simp_all add: d_inf_val_def d_pack_fields)

lemma d_inf_val_class [simp]: "d_inf (d_inf_val s)" "\<not> d_nan (d_inf_val s)"
  by (simp_all add: d_inf_def d_nan_def)

lemma d_pack_zero [simp]: "d_sign (d_pack s 0) = s" "d_mag_bits (d_pack s 0) = 0"
    "\<not> d_nan (d_pack s 0)"
  by (simp_all add: d_nan_def d_pack_fields)

section \<open>Rounding is correct\<close>

lemma nbits_bounds: "0 < n \<Longrightarrow> 1 \<le> nbits n \<and> 2 ^ nat (nbits n - 1) \<le> n \<and> n < 2 ^ nat (nbits n)"
proof (induction n rule: nbits.induct)
  case (1 n)
  show ?case
  proof (cases "n = 1")
    case True
    then show ?thesis by (simp add: nbits.simps [of 1] nbits.simps [of 0])
  next
    case False
    with "1.prems" have "0 < n div 2" "\<not> n \<le> 0" by auto
    with "1.IH" have ih: "1 \<le> nbits (n div 2)" "2 ^ nat (nbits (n div 2) - 1) \<le> n div 2"
      "n div 2 < 2 ^ nat (nbits (n div 2))" by auto
    define k where "k = nat (nbits (n div 2) - 1)"
    have k: "nat (nbits (n div 2)) = Suc k" using ih(1) by (simp add: k_def)
    have nb: "nbits n = nbits (n div 2) + 1"
      using \<open>\<not> n \<le> 0\<close> by (subst nbits.simps) simp
    have "nat (nbits n - 1) = Suc k" "nat (nbits n) = Suc (Suc k)"
      using nb ih(1) k by auto
    moreover have "(2::int) ^ Suc k \<le> n" using ih(2) by (simp add: k_def)
    moreover have "n < 2 ^ Suc (Suc k)" using ih(3) by (simp add: k)
    ultimately show ?thesis using nb ih(1) by simp
  qed
qed

lemma nbits_powi:
  assumes "0 < n"
  shows "2 powi (nbits n - 1) \<le> (of_int n :: rat)" and "(of_int n :: rat) < 2 powi (nbits n)"
proof -
  have b: "1 \<le> nbits n" "2 ^ nat (nbits n - 1) \<le> n" "n < 2 ^ nat (nbits n)"
    using nbits_bounds [OF assms] by auto
  have "(of_int (2 ^ nat (nbits n - 1)) :: rat) \<le> of_int n" using b(2) by (simp only: of_int_le_iff)
  then show "2 powi (nbits n - 1) \<le> (of_int n :: rat)" using b(1) by (simp add: power_int_def)
  have "(of_int n :: rat) < of_int (2 ^ nat (nbits n))" using b(3) by (simp only: of_int_less_iff)
  then show "(of_int n :: rat) < 2 powi (nbits n)" using b(1) by (simp add: power_int_def)
qed

lemma rat_log2_bounds:
  assumes "0 < r"
  shows "2 powi (rat_log2 r) \<le> r \<and> r < 2 powi (rat_log2 r + 1)"
proof (cases "1 \<le> r")
  case True
  then have fl: "0 < \<lfloor>r\<rfloor>" by simp
  have lo: "2 powi (nbits \<lfloor>r\<rfloor> - 1) \<le> r"
    using nbits_powi(1) [OF fl] of_int_floor_le [of r] by linarith
  have "\<lfloor>r\<rfloor> + 1 \<le> 2 ^ nat (nbits \<lfloor>r\<rfloor>)" using nbits_bounds [OF fl] by simp
  then have "(of_int (\<lfloor>r\<rfloor> + 1) :: rat) \<le> of_int (2 ^ nat (nbits \<lfloor>r\<rfloor>))"
    by (simp only: of_int_le_iff)
  then have "r < 2 powi (nbits \<lfloor>r\<rfloor>)"
    using nbits_bounds [OF fl] floor_correct [of r] by (simp add: power_int_def)
  with lo True show ?thesis by (simp add: rat_log2_def)
next
  case False
  define n where "n = \<lceil>1 / r\<rceil> - 1"
  have "1 < 1 / r" using False assms by (simp add: field_simps)
  then have n: "0 < n" by (simp add: n_def less_ceiling_iff)
  have up: "1 / r \<le> of_int (n + 1)" "of_int n < 1 / r"
    using ceiling_correct [of "1 / r"] by (simp_all add: n_def)
  have "n + 1 \<le> 2 ^ nat (nbits n)" using nbits_bounds [OF n] by simp
  then have "(of_int (n + 1) :: rat) \<le> of_int (2 ^ nat (nbits n))" by (simp only: of_int_le_iff)
  then have a: "1 / r \<le> 2 powi (nbits n)"
    using up(1) nbits_bounds [OF n] by (simp add: power_int_def)
  have b: "2 powi (nbits n - 1) < 1 / r" using nbits_powi(1) [OF n] up(2) by linarith
  have "2 powi (- nbits n) \<le> r"
    using a assms by (simp add: power_int_minus field_simps)
  moreover have "r < 2 powi (- nbits n + 1)"
  proof -
    have "r * 2 powi (nbits n - 1) < 1" using b assms by (simp add: field_simps)
    moreover have "2 powi (- nbits n + 1) * 2 powi (nbits n - 1) = (1 :: rat)"
      by (simp flip: power_int_add)
    ultimately show ?thesis
      by (metis mult_less_cancel_right_pos zero_less_numeral zero_less_power_int)
  qed
  ultimately show ?thesis using False by (simp add: rat_log2_def n_def)
qed

lemma powi_less_imp_less: "(2 :: rat) powi a < 2 powi b \<Longrightarrow> a < b"
  by (metis linorder_not_less one_le_numeral power_int_increasing)

lemma rat_log2_unique:
  assumes "2 powi k \<le> r" "r < 2 powi (k + 1)"
  shows "rat_log2 r = k"
proof -
  have "(0 :: rat) < 2 powi k" by simp
  with assms(1) have "0 < r" by linarith
  from rat_log2_bounds [OF this] assms have "(2 :: rat) powi k < 2 powi (rat_log2 r + 1)"
    "(2 :: rat) powi (rat_log2 r) < 2 powi (k + 1)" by linarith+
  then have "k < rat_log2 r + 1" "rat_log2 r < k + 1" by (auto dest: powi_less_imp_less)
  then show ?thesis by simp
qed

lemma round_half_even_int [simp]: "round_half_even (of_int n) = n"
  by (simp add: round_half_even_def)

lemma round_half_even_nonneg: "0 \<le> r \<Longrightarrow> 0 \<le> round_half_even r"
  by (auto simp: round_half_even_def Let_def add_nonneg_nonneg)

lemma d_round_bits_range: "0 \<le> r \<Longrightarrow> 0 \<le> d_round_bits r \<and> d_round_bits r \<le> d_top"
  by (auto simp: d_round_bits_def Let_def scale2_def intro!: add_nonneg_nonneg mult_nonneg_nonneg
      round_half_even_nonneg)

lemma d_round_fields:
  assumes "0 \<le> r"
  shows "d_sign (d_round s r) = s" and "d_mag_bits (d_round s r) = d_round_bits r"
    and "\<not> d_nan (d_round s r)"
proof -
  have "d_round_bits r < 2 ^ 63" using d_round_bits_range [OF assms] by simp
  with d_round_bits_range [OF assms] show "d_sign (d_round s r) = s"
    "d_mag_bits (d_round s r) = d_round_bits r" by (simp_all add: d_round_def d_pack_fields)
  with d_round_bits_range [OF assms] show "\<not> d_nan (d_round s r)" by (simp add: d_nan_def)
qed

text \<open>The significand and the place determine the magnitude bits, and are in range.\<close>

lemma d_mant_place:
  "d_mag_bits x = d_mant x + (d_place x - 1) * 2 ^ 52"
  "0 \<le> d_mant x" "d_mant x < 2 ^ 53" "1 \<le> d_place x"
  "d_place x \<noteq> 1 \<Longrightarrow> 2 ^ 52 \<le> d_mant x"
proof -
  have split: "d_mag_bits x = d_exp x * 2 ^ 52 + d_frac x" by (simp add: d_exp_def d_frac_def)
  have fr: "0 \<le> d_frac x" "d_frac x < 2 ^ 52" by (simp_all add: d_frac_def)
  have ex: "0 \<le> d_exp x" by (simp add: d_exp_def pos_imp_zdiv_nonneg_iff)
  show "d_mag_bits x = d_mant x + (d_place x - 1) * 2 ^ 52"
    by (simp add: split d_mant_def d_place_def algebra_simps)
  show "0 \<le> d_mant x" "d_mant x < 2 ^ 53" using fr by (simp_all add: d_mant_def)
  show "1 \<le> d_place x" "d_place x \<noteq> 1 \<Longrightarrow> 2 ^ 52 \<le> d_mant x"
    using ex fr by (auto simp: d_mant_def d_place_def)
qed

lemma d_mag_eq: "d_mag x = of_int (d_mant x) * 2 powi (d_place x - 1075)"
  by (simp add: d_mag_def scale2_def)

lemma d_mag_nonneg [simp]: "0 \<le> d_mag x" "\<not> d_mag x < 0"
  using d_mant_place(2) [of x] by (simp_all add: d_mag_eq not_less)

lemma d_zero_mag: "d_mag x = 0 \<longleftrightarrow> d_zero x"
proof -
  have "d_mant x = 0 \<longleftrightarrow> d_mag_bits x = 0"
    using d_mant_place [of x] by (cases "d_place x = 1") auto
  then show ?thesis by (simp add: d_mag_eq d_zero_def)
qed

text \<open>A representable magnitude is rounded to itself.\<close>

lemma d_round_bits_exact:
  assumes "d_finite x"
  shows "d_round_bits (d_mag x) = d_mag_bits x"
proof (cases "d_mant x = 0")
  case True
  then have "d_mag x = 0" by (simp add: d_mag_eq)
  then show ?thesis by (simp add: d_round_bits_def d_zero_mag d_zero_def)
next
  case False
  with d_mant_place(2) [of x] have m: "0 < d_mant x" by simp
  define k where "k = nbits (d_mant x) - 1"
  note nb = nbits_bounds [OF m] nbits_powi [OF m]
  have "k \<le> 52"
  proof -
    have "(2::int) ^ nat k < 2 ^ 53"
      using nb(1) d_mant_place(3) [of x] unfolding k_def by linarith
    then have "nat k < 53" by (rule power_less_imp_less_exp [rotated]) simp
    then show ?thesis by simp
  qed
  have log: "rat_log2 (d_mag x) = k + d_place x - 1075"
  proof (rule rat_log2_unique)
    show "2 powi (k + d_place x - 1075) \<le> d_mag x"
      using nb(2) by (simp add: d_mag_eq k_def power_int_add power_int_diff field_simps)
    show "d_mag x < 2 powi (k + d_place x - 1075 + 1)"
      using nb(3) by (simp add: d_mag_eq k_def power_int_add power_int_diff field_simps)
  qed
  have "max 1 (rat_log2 (d_mag x) + 1023) = d_place x"
  proof (cases "d_place x = 1")
    case True
    then show ?thesis using log \<open>k \<le> 52\<close> by simp
  next
    case False
    then have "(2::int) ^ 52 < 2 ^ nat (nbits (d_mant x))"
      using d_mant_place(5) [of x] nb(1) by linarith
    then have "52 < nat (nbits (d_mant x))" by (rule power_less_imp_less_exp [rotated]) simp
    then have "k = 52" using \<open>k \<le> 52\<close> by (simp add: k_def)
    then show ?thesis using log d_mant_place(4) [of x] by simp
  qed
  moreover have "scale2 (1075 - d_place x) (d_mag x) = of_int (d_mant x)"
    by (simp add: scale2_def d_mag_eq mult.assoc flip: power_int_add)
  moreover have "d_mag x \<noteq> 0" using m by (simp add: d_mag_eq)
  ultimately show ?thesis
    using assms d_mant_place(1) [of x] by (simp add: d_round_bits_def d_finite_def)
qed

lemma d_round_exact: "d_finite x \<Longrightarrow> d_round (d_sign x) (d_mag x) = x"
  by (simp add: d_round_def d_round_bits_exact d_pack_self)

lemma d_of_rat_val:
  assumes "d_finite x" "\<not> d_zero x"
  shows "d_of_rat (d_val x) = x"
proof -
  have "0 < d_mag x" using assms(2) d_zero_mag [of x] d_mag_nonneg [of x] by (simp add: less_le)
  then show ?thesis using d_round_exact [OF assms(1)] by (auto simp: d_of_rat_def d_val_def)
qed

text \<open>Rounding is monotone.\<close>

lemma round_half_even_bounds: "\<lfloor>r\<rfloor> \<le> round_half_even r" "round_half_even r \<le> \<lfloor>r\<rfloor> + 1"
  by (simp_all add: round_half_even_def Let_def)

lemma round_half_even_mono:
  assumes "r \<le> s"
  shows "round_half_even r \<le> round_half_even s"
proof (cases "\<lfloor>r\<rfloor> = \<lfloor>s\<rfloor>")
  case True
  with assms have "r - of_int \<lfloor>r\<rfloor> \<le> s - of_int \<lfloor>s\<rfloor>" by simp
  with True show ?thesis by (auto simp: round_half_even_def Let_def)
next
  case False
  then have "\<lfloor>r\<rfloor> + 1 \<le> \<lfloor>s\<rfloor>" using floor_mono [OF assms] by simp
  then show ?thesis using round_half_even_bounds [of r] round_half_even_bounds [of s] by linarith
qed

lemma rat_log2_mono:
  assumes "0 < r" "r \<le> s"
  shows "rat_log2 r \<le> rat_log2 s"
proof -
  have "0 < s" using assms by simp
  from rat_log2_bounds [OF assms(1)] rat_log2_bounds [OF this] assms(2)
  have "(2 :: rat) powi rat_log2 r < 2 powi (rat_log2 s + 1)" by linarith
  then show ?thesis using powi_less_imp_less by fastforce
qed

lemma scaled_bounds:
  assumes "0 < r" "rat_log2 r + 1023 \<le> e"
  shows "scale2 (1075 - e) r < 2 ^ 53"
    and "e = rat_log2 r + 1023 \<Longrightarrow> 2 ^ 52 \<le> scale2 (1075 - e) r"
proof -
  have "r < 2 powi (e - 1022)"
    using rat_log2_bounds [OF assms(1)] assms(2)
      power_int_increasing [of "rat_log2 r + 1" "e - 1022" "2 :: rat"] by simp
  then have "r * 2 powi (1075 - e) < 2 powi (e - 1022) * 2 powi (1075 - e)" by simp
  also have "\<dots> = 2 ^ 53" by (simp flip: power_int_add)
  finally show "scale2 (1075 - e) r < 2 ^ 53" by (simp add: scale2_def)
  assume e: "e = rat_log2 r + 1023"
  have "2 powi (rat_log2 r) * 2 powi (1075 - e) \<le> r * 2 powi (1075 - e)"
    using rat_log2_bounds [OF assms(1)] by simp
  moreover have "(2 :: rat) powi (rat_log2 r) * 2 powi (1075 - e) = 2 ^ 52"
    by (simp add: e flip: power_int_add)
  ultimately show "2 ^ 52 \<le> scale2 (1075 - e) r" by (simp add: scale2_def)
qed

lemma round_half_even_le: "r \<le> of_int n \<Longrightarrow> round_half_even r \<le> n"
  using round_half_even_mono [of r "of_int n"] by simp

lemma round_half_even_ge: "of_int n \<le> r \<Longrightarrow> n \<le> round_half_even r"
  using round_half_even_mono [of "of_int n" r] by simp

lemma d_round_bits_mono:
  assumes "0 \<le> r" "r \<le> s"
  shows "d_round_bits r \<le> d_round_bits s"
proof (cases "r = 0")
  case True
  then show ?thesis using d_round_bits_range [of s] assms by (simp add: d_round_bits_def)
next
  case False
  with assms have pos: "0 < r" "0 < s" by simp_all
  define e where "e = max 1 (rat_log2 r + 1023)"
  define f where "f = max 1 (rat_log2 s + 1023)"
  define m where "m = round_half_even (scale2 (1075 - e) r)"
  define n where "n = round_half_even (scale2 (1075 - f) s)"
  have bits: "d_round_bits r = min d_top (m + (e - 1) * 2 ^ 52)"
    "d_round_bits s = min d_top (n + (f - 1) * 2 ^ 52)"
    using pos by (simp_all add: d_round_bits_def e_def f_def m_def n_def Let_def)
  have "e \<le> f" using rat_log2_mono [OF pos(1) assms(2)] by (simp add: e_def f_def)
  have "m + (e - 1) * 2 ^ 52 \<le> n + (f - 1) * 2 ^ 52"
  proof (cases "e = f")
    case True
    then have "scale2 (1075 - e) r \<le> scale2 (1075 - f) s" using assms by (simp add: scale2_def)
    then have "m \<le> n" unfolding m_def n_def by (rule round_half_even_mono)
    with True show ?thesis by simp
  next
    case False
    with \<open>e \<le> f\<close> have "e < f" by simp
    then have f: "f = rat_log2 s + 1023" by (auto simp: e_def f_def)
    have "m \<le> 2 ^ 53" unfolding m_def
      using scaled_bounds(1) [OF pos(1), of e] by (intro round_half_even_le) (auto simp: e_def)
    moreover have "2 ^ 52 \<le> n" unfolding n_def
      using scaled_bounds(2) [OF pos(2), of f] f by (intro round_half_even_ge) auto
    ultimately show ?thesis using \<open>e < f\<close> by simp
  qed
  then show ?thesis by (simp add: bits)
qed

section \<open>Order\<close>

lemma d_val_nonneg: "\<not> d_sign x \<Longrightarrow> 0 \<le> d_val x"
  by (simp add: d_val_def)

lemma d_val_pos_sign: "0 < d_val x \<Longrightarrow> \<not> d_sign x"
  by (auto simp: d_val_def split: if_splits)

lemma d_val_0 [simp]: "d_val 0 = 0"
  by (simp add: d_val_def d_mag_eq d_mant_def d_exp_def d_frac_def d_mag_bits_def)

lemma d_nan_0 [simp]: "\<not> d_nan 0"
  by (simp add: d_nan_def d_mag_bits_def)

lemma d_sign_0 [simp]: "\<not> d_sign 0"
  by (simp add: d_sign_def)

lemma d_finite_not_nan: "d_finite x \<Longrightarrow> \<not> d_nan x"
  by (simp add: d_finite_def d_nan_def)

lemma d_le_refl: "\<not> d_nan x \<Longrightarrow> d_le x x"
  by (simp add: d_le_def)

lemma d_le_trans: "d_le x y \<Longrightarrow> d_le y z \<Longrightarrow> d_le x z"
  by (auto simp: d_le_def)

lemma d_lt_imp_le: "d_lt x y \<Longrightarrow> d_le x y"
  by (simp add: d_lt_def d_le_def)

lemma d_lt_irrefl [simp]: "\<not> d_lt x x"
  by (simp add: d_lt_def)

lemma d_lt_asym: "d_lt x y \<Longrightarrow> \<not> d_lt y x"
  by (simp add: d_lt_def)

lemma d_not_lt: "\<not> d_nan x \<Longrightarrow> \<not> d_nan y \<Longrightarrow> \<not> d_lt x y \<longleftrightarrow> d_le y x"
  by (auto simp: d_lt_def d_le_def)

lemma d_max_cases: "d_max a b = a \<or> d_max a b = b"
  by (simp add: d_max_def)

lemma d_max_not_nan: "\<not> d_nan a \<Longrightarrow> \<not> d_nan (d_max a b)"
  by (simp add: d_max_def d_lt_def)

lemma d_max_ge:
  assumes "\<not> d_nan a"
  shows "d_le a (d_max a b)" and "\<not> d_nan b \<Longrightarrow> d_le b (d_max a b)"
  using assms by (auto simp: d_max_def d_lt_def d_le_def)

lemma d_min_le: "\<not> d_nan a \<Longrightarrow> d_le (d_min a b) a"
  by (auto simp: d_min_def d_lt_def d_le_def)

lemma d_mag_mono:
  assumes "d_mag_bits x \<le> d_mag_bits y"
  shows "d_mag x \<le> d_mag y"
proof -
  note x = d_mant_place [of x] and y = d_mant_place [of y]
  consider "d_place x = d_place y" | "d_place x < d_place y" | "d_place y < d_place x" by linarith
  then show ?thesis
  proof cases
    case 1
    then have "d_mant x \<le> d_mant y" using x(1) y(1) assms by simp
    with 1 show ?thesis by (simp add: d_mag_eq)
  next
    case 2
    then have "d_place y \<noteq> 1" using x(4) by linarith
    then have my: "2 ^ 52 \<le> d_mant y" by (rule y(5))
    have "of_int (d_mant x) \<le> (2 ^ 53 :: rat)" using x(3) by (metis less_imp_le of_int_le_iff of_int_power of_int_numeral)
    then have "d_mag x \<le> 2 ^ 53 * 2 powi (d_place x - 1075)"
      unfolding d_mag_eq by (intro mult_right_mono) simp_all
    also have "\<dots> = 2 ^ 52 * 2 powi (d_place x + 1 - 1075)"
      by (simp add: power_int_diff power_int_add)
    also have "\<dots> \<le> 2 ^ 52 * 2 powi (d_place y - 1075)"
      using 2 by (intro mult_left_mono power_int_increasing) simp_all
    also have "\<dots> \<le> of_int (d_mant y) * 2 powi (d_place y - 1075)"
      using my by (intro mult_right_mono) (metis of_int_le_iff of_int_power of_int_numeral, simp)
    finally show ?thesis by (simp add: d_mag_eq)
  next
    case 3
    then have "d_place x \<noteq> 1" using y(4) by linarith
    then have "2 ^ 52 \<le> d_mant x" by (rule x(5))
    moreover have "d_place y * 2 ^ 52 \<le> (d_place x - 1) * 2 ^ 52" using 3 by (intro mult_right_mono) simp_all
    ultimately have "2 ^ 52 + d_place y * 2 ^ 52 \<le> d_mag_bits x" using x(1) by linarith
    moreover have "d_mag_bits y < 2 ^ 53 + (d_place y - 1) * 2 ^ 52" using y(1,3) by linarith
    ultimately show ?thesis using assms by (simp add: algebra_simps)
  qed
qed

lemma d_round_mono: "0 \<le> r \<Longrightarrow> r \<le> s \<Longrightarrow> d_mag (d_round a r) \<le> d_mag (d_round b s)"
  by (rule d_mag_mono) (simp add: d_round_fields d_round_bits_mono)

lemma d_round_finite: "0 \<le> r \<Longrightarrow> r \<le> s \<Longrightarrow> d_finite (d_round b s) \<Longrightarrow> d_finite (d_round a r)"
  using d_round_bits_mono [of r s] by (simp add: d_finite_def d_round_fields)

section \<open>Signs of results\<close>

lemma d_mul_sign: "\<not> d_nan (d_mul x y) \<Longrightarrow> d_sign (d_mul x y) = (d_sign x \<noteq> d_sign y)"
  by (auto simp: d_mul_def Let_def d_round_fields split: if_splits)

lemma d_div_sign: "\<not> d_nan (d_div x y) \<Longrightarrow> d_sign (d_div x y) = (d_sign x \<noteq> d_sign y)"
  by (auto simp: d_div_def Let_def d_round_fields split: if_splits)

text \<open>\<open>std::min(1.0, x)\<close> is in \<open>[0, 1]\<close> whenever \<open>x\<close> has no sign or is a NaN.\<close>

definition d_one :: double where
  "d_one = 0x3FF0000000000000"

lemma d_one_facts [simp]: "\<not> d_nan d_one" "\<not> d_sign d_one" "d_val d_one = 1"
  by code_simp+

definition d_unit :: "double \<Rightarrow> bool" where
  "d_unit x \<longleftrightarrow> d_le 0 x \<and> d_le x d_one"

lemma d_min_one_unit:
  assumes "d_nan x \<or> \<not> d_sign x"
  shows "d_unit (d_min d_one x)"
  using assms by (auto simp: d_unit_def d_min_def d_lt_def d_le_def d_val_nonneg)

section \<open>Exact conversions\<close>

text \<open>A number with at most 53 significant bits and a normal exponent is represented exactly.\<close>

lemma d_pack_normal:
  assumes "2 ^ 52 \<le> m" "m < 2 ^ 53" "1 \<le> e" "e \<le> 2046"
  shows "d_finite (d_pack s (m + (e - 1) * 2 ^ 52))"
    and "d_mag (d_pack s (m + (e - 1) * 2 ^ 52)) = of_int m * 2 powi (e - 1075)"
    and "d_sign (d_pack s (m + (e - 1) * 2 ^ 52)) = s"
proof -
  let ?n = "m + (e - 1) * 2 ^ 52"
  have "0 \<le> ?n" using assms by (intro add_nonneg_nonneg mult_nonneg_nonneg) simp_all
  moreover have "?n < d_top"
  proof -
    have "(e - 1) * 2 ^ 52 \<le> 2045 * 2 ^ 52" using assms by (intro mult_right_mono) simp_all
    then show ?thesis using assms by simp
  qed
  ultimately have "0 \<le> ?n" "?n < d_top" .
  then have "?n < 2 ^ 63" by simp
  define x where "x = d_pack s ?n"
  have bits: "d_mag_bits x = ?n" and sg: "d_sign x = s"
    unfolding x_def using \<open>0 \<le> ?n\<close> \<open>?n < 2 ^ 63\<close> by (rule d_pack_fields)+
  have n: "?n = (m - 2 ^ 52) + e * 2 ^ 52" by (simp add: algebra_simps)
  have low: "0 \<le> m - 2 ^ 52" "m - 2 ^ 52 < 2 ^ 52" using assms by simp_all
  have "d_exp x = e" unfolding d_exp_def bits n
    by (subst div_mult_self1) (simp_all only: div_pos_pos_trivial [OF low], simp_all)
  moreover have "d_frac x = m - 2 ^ 52" unfolding d_frac_def bits n
    by (subst mod_mult_self1) (rule mod_pos_pos_trivial [OF low])
  ultimately have "d_mag x = of_int m * 2 powi (e - 1075)"
    using assms by (simp add: d_mag_eq d_mant_def d_place_def)
  then show "d_mag (d_pack s ?n) = of_int m * 2 powi (e - 1075)" unfolding x_def .
  show "d_finite (d_pack s ?n)"
    using \<open>?n < d_top\<close> unfolding d_finite_def x_def [symmetric] bits .
  show "d_sign (d_pack s ?n) = s" using sg unfolding x_def .
qed

lemma d_round_dyadic:
  assumes "0 < n" "n < 2 ^ 53" "- 1022 \<le> nbits n - 1 + j" "nbits n - 1 + j \<le> 1023"
  shows "d_mag (d_round s (of_int n * 2 powi j)) = of_int n * 2 powi j"
    and "d_finite (d_round s (of_int n * 2 powi j))"
    and "d_sign (d_round s (of_int n * 2 powi j)) = s"
proof -
  define k where "k = nbits n - 1"
  define m where "m = n * 2 ^ nat (52 - k)"
  define e where "e = k + j + 1023"
  note b = nbits_bounds [OF assms(1)]
  have "(2::int) ^ nat k < 2 ^ 53" using b assms(2) by (simp add: k_def)
  then have "nat k < 53" by (rule power_less_imp_less_exp [rotated]) simp
  then have k: "0 \<le> k" "k \<le> 52" using b by (simp_all add: k_def)
  have m: "2 ^ 52 \<le> m" "m < 2 ^ 53"
  proof -
    have "(2::int) ^ nat k * 2 ^ nat (52 - k) \<le> m" unfolding m_def
      using b by (intro mult_right_mono) (simp_all add: k_def)
    then show "2 ^ 52 \<le> m" using k by (simp flip: power_add nat_add_distrib)
    have "nat (nbits n) = nat k + 1" using b unfolding k_def by linarith
    then have "m < (2::int) ^ (nat k + 1) * 2 ^ nat (52 - k)" unfolding m_def
      using b by (intro mult_strict_right_mono) simp_all
    moreover have "nat k + 1 + nat (52 - k) = 53" using k by simp
    ultimately show "m < 2 ^ 53" by (metis power_add)
  qed
  have e: "1 \<le> e" "e \<le> 2046" using assms(3,4) by (simp_all add: e_def k_def)
  have val: "of_int m * 2 powi (e - 1075) = (of_int n * 2 powi j :: rat)"
  proof -
    have "(of_int m :: rat) = of_int n * 2 powi (52 - k)"
      using k by (simp add: m_def power_int_def)
    then show ?thesis by (simp add: e_def mult.assoc flip: power_int_add)
  qed
  define x where "x = d_pack s (m + (e - 1) * 2 ^ 52)"
  note x = d_pack_normal [OF m e, of s, folded x_def, unfolded val]
  then have "d_round s (of_int n * 2 powi j) = x" using d_round_exact [of x] by simp
  then show "d_mag (d_round s (of_int n * 2 powi j)) = of_int n * 2 powi j"
    "d_finite (d_round s (of_int n * 2 powi j))"
    "d_sign (d_round s (of_int n * 2 powi j)) = s" using x by simp_all
qed

lemma nbits_le:
  assumes "0 < n" "n < 2 ^ k"
  shows "nbits n \<le> int k"
proof -
  have "(2::int) ^ nat (nbits n - 1) < 2 ^ k" using nbits_bounds [OF assms(1)] assms(2) by linarith
  then have "nat (nbits n - 1) < k" by (rule power_less_imp_less_exp [rotated]) simp
  then show ?thesis by simp
qed

lemma d_of_int_exact:
  assumes "\<bar>i\<bar> < 2 ^ 53"
  shows "d_val (d_of_int i) = of_int i" and "d_finite (d_of_int i)"
proof -
  have "d_val (d_of_int i) = of_int i \<and> d_finite (d_of_int i)"
  proof (cases "i = 0")
    case True
    then show ?thesis
      by (simp add: d_of_int_def d_of_rat_def d_round_def d_round_bits_def d_pack_def d_finite_def
          d_mag_bits_def)
  next
    case False
    then have n: "0 < \<bar>i\<bar>" by simp
    have "1 \<le> nbits \<bar>i\<bar>" "nbits \<bar>i\<bar> \<le> 53"
      using nbits_bounds [OF n] nbits_le [OF n, of 53] assms by simp_all
    then show ?thesis
      using d_round_dyadic [OF n assms, of 0 "i < 0"]
      by (auto simp: d_of_int_def d_of_rat_def d_val_def)
  qed
  then show "d_val (d_of_int i) = of_int i" "d_finite (d_of_int i)" by simp_all
qed

lemma f_to_double_exact:
  assumes "f_exp x \<noteq> 255"
  shows "d_val (f_to_double x) = (if f_sign x then - f_mag x else f_mag x)"
    and "d_finite (f_to_double x)"
proof -
  have fr: "0 \<le> f_frac x" "f_frac x < 2 ^ 23" by (simp_all add: f_frac_def)
  have ex: "0 \<le> f_exp x" "f_exp x < 256"
    unfolding f_exp_def by (simp_all add: pos_imp_zdiv_nonneg_iff div_less_iff_less_mult)
  define n j where "n = (if f_exp x = 0 then f_frac x else f_frac x + 2 ^ 23)"
    and "j = (if f_exp x = 0 then - 149 else f_exp x - 150)"
  have mag: "f_mag x = of_int n * 2 powi j"
    by (simp add: f_mag_def n_def j_def scale2_def)
  have "d_mag (d_round s (f_mag x)) = f_mag x \<and> d_finite (d_round s (f_mag x))
      \<and> d_sign (d_round s (f_mag x)) = s" for s
  proof (cases "n = 0")
    case True
    then have "f_mag x = 0" by (simp add: mag)
    then show ?thesis
      by (simp add: d_round_def d_round_bits_def d_zero_mag d_zero_def d_finite_def)
  next
    case False
    then have n: "0 < n" "n < 2 ^ 24" using fr by (auto simp: n_def)
    have "1 \<le> nbits n" "nbits n \<le> 24" using nbits_bounds [OF n(1)] nbits_le [OF n] by simp_all
    moreover have "- 149 \<le> j" "j \<le> 104" using assms ex by (simp_all add: j_def)
    ultimately show ?thesis using d_round_dyadic [of n j s] n by (simp add: mag)
  qed
  then have "d_val (f_to_double x) = (if f_sign x then - f_mag x else f_mag x)
      \<and> d_finite (f_to_double x)"
    using assms by (auto simp: f_to_double_def d_val_def)
  then show "d_val (f_to_double x) = (if f_sign x then - f_mag x else f_mag x)"
    "d_finite (f_to_double x)" by simp_all
qed

end
