(* ===== verification/Printf.thy ===== *)
theory Printf
  imports Text Ieee754
begin

text \<open>\<open>snprintf\<close> with \<open>"%.2f"\<close>: the exact value of the double, rounded half to even as glibc does
  in the default rounding mode, and cut to the buffer.\<close>

definition fixed2 :: "rat \<Rightarrow> string" where
  "fixed2 r = (let n = nat (round_half_even (100 * r))
     in dec_nat (n div 100) @ ''.'' @ pad0 2 (dec_nat (n mod 100)))"

definition fmt_f2 :: "double \<Rightarrow> string" where
  "fmt_f2 x = (if d_sign x then ''-'' else []) @
     (if d_nan x then ''nan'' else if d_inf x then ''inf'' else fixed2 (d_mag x))"

definition snprintf :: "nat \<Rightarrow> string \<Rightarrow> string" where
  "snprintf n s = take (n - 1) s"

end
