(* ===== verification/Decimal.thy ===== *)
theory Decimal
  imports Printf
begin

text \<open>
  Stream output of a \<open>double\<close> with a given precision (the format \<open>%.<p>g\<close>): \<open>p\<close> significant digits of
  the exact value, rounded half to even, in fixed or scientific notation, without trailing zeros. With
  17 digits the text determines the value: reading it back and rounding to nearest gives the same bits.
\<close>

section \<open>Significant digits\<close>

definition pow10 :: "int \<Rightarrow> rat" where "pow10 k = 10 powi k"

lemma pow10_code [code]: "pow10 k = (if 0 \<le> k then of_int (10 ^ nat k) else 1 / of_int (10 ^ nat (- k)))"
  by (simp add: pow10_def power_int_def field_simps)

text \<open>The exponent of the first significant digit.\<close>

definition exp10 :: "rat \<Rightarrow> int" where
  "exp10 r = (if 1 \<le> r then int (length (dec_nat (nat \<lfloor>r\<rfloor>))) - 1
     else - int (length (dec_nat (nat (\<lceil>1 / r\<rceil> - 1)))))"

definition sig_digits :: "nat \<Rightarrow> rat \<Rightarrow> int \<times> nat" where
  "sig_digits p r =
     (let x = exp10 r; n = nat (round_half_even (r * pow10 (int p - 1 - x)))
      in if n = 10 ^ p then (x + 1, 10 ^ (p - 1)) else (x, n))"

section \<open>Text\<close>

definition drop_zeros :: "string \<Rightarrow> string" where
  "drop_zeros s = rev (dropWhile (\<lambda>ch. ch = CHR ''0'') (rev s))"

definition point_text :: "string \<Rightarrow> string \<Rightarrow> string" where
  "point_text ip fp = (if drop_zeros fp = [] then ip else ip @ ''.'' @ drop_zeros fp)"

definition exp_text :: "int \<Rightarrow> string" where
  "exp_text x = ''e'' @ (if x < 0 then ''-'' else ''+'') @ pad0 2 (dec_nat (nat \<bar>x\<bar>))"

definition fmt_g_mag :: "nat \<Rightarrow> rat \<Rightarrow> string" where
  "fmt_g_mag p r =
     (if r = 0 then ''0''
      else let (x, n) = sig_digits p r; ds = dec_nat n
       in if x < -4 \<or> int p \<le> x then point_text (take 1 ds) (drop 1 ds) @ exp_text x
          else if 0 \<le> x then point_text (take (nat x + 1) ds) (drop (nat x + 1) ds)
          else point_text ''0'' (replicate (nat (- x - 1)) CHR ''0'' @ ds))"

definition fmt_g :: "nat \<Rightarrow> double \<Rightarrow> string" where
  "fmt_g p v = (if d_sign v then ''-'' else []) @
     (if d_nan v then ''nan'' else if d_inf v then ''inf'' else fmt_g_mag p (d_mag v))"

section \<open>Reading the text\<close>

definition exp_value :: "string \<Rightarrow> int" where
  "exp_value s = (if hd s = CHR ''-'' then - int (dec_val (tl s)) else int (dec_val (tl s)))"

definition point_value :: "string \<Rightarrow> rat" where
  "point_value s = (case find_sub ''.'' s of None \<Rightarrow> of_nat (dec_val s)
     | Some n \<Rightarrow> of_nat (dec_val (take n s @ drop (Suc n) s)) / 10 ^ length (drop (Suc n) s))"

definition mag_value :: "string \<Rightarrow> rat" where
  "mag_value s = (case find_sub ''e'' s of None \<Rightarrow> point_value s
     | Some n \<Rightarrow> point_value (take n s) * pow10 (exp_value (drop (Suc n) s)))"

definition read_double :: "string \<Rightarrow> double" where
  "read_double s = (let neg = (s \<noteq> [] \<and> hd s = CHR ''-'')
     in d_round neg (mag_value (if neg then tl s else s)))"

section \<open>The exponent\<close>

lemma dec_nat_length: "0 < n \<Longrightarrow> 10 ^ (length (dec_nat n) - 1) \<le> n \<and> n < 10 ^ length (dec_nat n) \<and> 0 < length (dec_nat n)"
proof (induction n rule: dec_nat.induct)
  case (1 n)
  show ?case
  proof (cases "n < 10")
    case True
    with 1 show ?thesis by (subst (1 2 3) dec_nat.simps) simp
  next
    case False
    define k where "k = length (dec_nat (n div 10))"
    have "10 ^ (k - 1) \<le> n div 10" "n div 10 < 10 ^ k" "0 < k"
      using 1(1) False by (auto simp: k_def)
    moreover have "length (dec_nat n) = Suc k"
      using False by (subst dec_nat.simps) (simp add: k_def)
    moreover have "(10 :: nat) ^ k = 10 * 10 ^ (k - 1)" using \<open>0 < k\<close> by (cases k) simp_all
    ultimately show ?thesis by auto
  qed
qed

lemma exp10_bounds:
  assumes "0 < r"
  shows "pow10 (exp10 r) \<le> r \<and> r < pow10 (exp10 r + 1)"
proof (cases "1 \<le> r")
  case True
  define n where "n = nat \<lfloor>r\<rfloor>"
  define k where "k = length (dec_nat n)"
  have n: "0 < n" using True by (simp add: n_def)
  from dec_nat_length [OF n] have k: "10 ^ (k - 1) \<le> n" "n < 10 ^ k" "0 < k" by (simp_all add: k_def)
  have fl: "of_nat n \<le> r" "r < of_nat n + 1" using True by (simp_all add: n_def of_nat_nat) linarith+
  have "(10 :: rat) ^ (k - 1) \<le> of_nat n" using k(1) by (metis of_nat_le_iff of_nat_numeral of_nat_power)
  then have "(10 :: rat) ^ (k - 1) \<le> r" using fl(1) by linarith
  moreover have "of_nat n + 1 \<le> (10 :: rat) ^ k"
    using k(2) by (metis Suc_leI of_nat_Suc of_nat_le_iff of_nat_numeral of_nat_power add.commute)
  moreover have "exp10 r = int k - 1" using True by (simp add: exp10_def n_def k_def)
  ultimately show ?thesis using fl k(3) by (auto simp: pow10_def power_int_def nat_diff_distrib)
next
  case False
  define n where "n = nat (\<lceil>1 / r\<rceil> - 1)"
  define k where "k = length (dec_nat n)"
  have big: "1 < 1 / r" using False assms by (simp add: field_simps)
  then have "1 < \<lceil>1 / r\<rceil>" by (simp only: less_ceiling_iff of_int_1)
  then have c: "0 < \<lceil>1 / r\<rceil> - 1" by linarith
  then have n: "0 < n" unfolding n_def by (simp only: zero_less_nat_eq)
  from dec_nat_length [OF n] have k: "10 ^ (k - 1) \<le> n" "n < 10 ^ k" "0 < k" by (simp_all add: k_def)
  have "(of_nat n :: rat) = of_int (\<lceil>1 / r\<rceil> - 1)" unfolding n_def by (rule of_nat_nat [OF less_imp_le [OF c]])
  then have up: "1 / r \<le> of_nat n + 1" "of_nat n < 1 / r" using ceiling_correct [of "1 / r"] by simp_all
  have "(10 :: rat) ^ (k - 1) \<le> of_nat n" using k(1) by (metis of_nat_le_iff of_nat_numeral of_nat_power)
  then have lo: "10 ^ (k - 1) < 1 / r" using up(2) by linarith
  have "of_nat n + 1 \<le> (10 :: rat) ^ k"
    using k(2) by (metis Suc_leI of_nat_Suc of_nat_le_iff of_nat_numeral of_nat_power add.commute)
  then have hi: "1 / r \<le> 10 ^ k" using up(1) by linarith
  have x: "exp10 r = - int k" using False by (simp add: exp10_def n_def k_def)
  have "pow10 (exp10 r) = 1 / 10 ^ k" by (simp add: x pow10_def power_int_minus inverse_eq_divide)
  moreover have "exp10 r + 1 = - int (k - 1)" using x k(3) by simp
  then have "pow10 (exp10 r + 1) = 1 / 10 ^ (k - 1)" by (simp add: pow10_def power_int_minus inverse_eq_divide)
  moreover have "1 / 10 ^ k \<le> r" "r < 1 / 10 ^ (k - 1)" using lo hi assms by (simp_all add: field_simps)
  ultimately show ?thesis by simp
qed


lemma pow10_add: "pow10 (a + b) = pow10 a * pow10 b"
  by (simp add: pow10_def power_int_add)

lemma pow10_pos [simp]: "0 < pow10 k" "pow10 k \<noteq> 0"
  by (simp_all add: pow10_def)

lemma pow10_nat: "pow10 (int k) = 10 ^ k"
  by (simp add: pow10_def)

lemma pow10_minus: "pow10 (- k) = 1 / pow10 k"
  by (simp add: pow10_def power_int_minus inverse_eq_divide)

lemma round_half_even_error: "\<bar>of_int (round_half_even r) - r\<bar> \<le> 1 / 2"
proof -
  have b: "of_int \<lfloor>r\<rfloor> \<le> r" "r < of_int \<lfloor>r\<rfloor> + 1" using floor_correct [of r] by auto
  consider "r - of_int \<lfloor>r\<rfloor> < 1 / 2" | "r - of_int \<lfloor>r\<rfloor> = 1 / 2" | "1 / 2 < r - of_int \<lfloor>r\<rfloor>" by linarith
  then show ?thesis
    by cases (simp add: round_half_even_def Let_def abs_le_iff,
      use b in \<open>auto simp: round_half_even_def Let_def abs_le_iff\<close>)
qed

lemma round_half_even_near: "\<bar>r - of_int n\<bar> < 1 / 2 \<Longrightarrow> round_half_even r = n"
proof -
  assume near: "\<bar>r - of_int n\<bar> < 1 / 2"
  have "\<bar>of_int (round_half_even r) - (of_int n :: rat)\<bar> < 1"
    using round_half_even_error [of r] near by linarith
  then have "\<bar>of_int (round_half_even r - n) :: rat\<bar> < of_int 1" by simp
  then have "\<bar>round_half_even r - n\<bar> < 1" by (simp only: of_int_abs [symmetric] of_int_less_iff)
  then show ?thesis by simp
qed

lemma sig_digits_value:
  assumes "0 < r" and "0 < p" and sig: "sig_digits p r = (x, n)"
  shows "10 ^ (p - 1) \<le> n" and "n < 10 ^ p"
    and "\<bar>of_nat n * pow10 (x + 1 - int p) - r\<bar> \<le> r * pow10 (1 - int p) / 2"
proof -
  define x0 where "x0 = exp10 r"
  define t where "t = r * pow10 (int p - 1 - x0)"
  define m where "m = round_half_even t"
  have e: "pow10 x0 \<le> r" "r < pow10 (x0 + 1)" using exp10_bounds [OF assms(1)] by (simp_all add: x0_def)
  have "pow10 x0 * pow10 (int p - 1 - x0) = 10 ^ (p - 1)"
    using assms(2) by (simp flip: pow10_add pow10_nat add: of_nat_diff)
  moreover have "pow10 (x0 + 1) * pow10 (int p - 1 - x0) = 10 ^ p" by (simp flip: pow10_add pow10_nat)
  ultimately have t: "10 ^ (p - 1) \<le> t" "t < 10 ^ p"
    using e mult_right_mono [OF e(1), of "pow10 (int p - 1 - x0)"]
      mult_strict_right_mono [OF e(2), of "pow10 (int p - 1 - x0)"] by (simp_all add: t_def less_imp_le)
  have m: "10 ^ (p - 1) \<le> m" "m \<le> 10 ^ p"
    unfolding m_def using t by (intro round_half_even_ge round_half_even_le; simp)+
  then have m0: "0 \<le> m" by (meson order_trans zero_le_numeral zero_le_power)
  have sig': "(x, n) = (if nat m = 10 ^ p then (x0 + 1, 10 ^ (p - 1)) else (x0, nat m))"
    using sig unfolding sig_digits_def Let_def x0_def t_def m_def by (rule sym)
  have "nat m \<le> 10 ^ p" "10 ^ (p - 1) \<le> nat m" using m by (simp_all add: nat_le_iff le_nat_iff m0)
  with sig' show "10 ^ (p - 1) \<le> n" "n < 10 ^ p"
    using assms(2) by (auto split: if_splits simp: power_strict_increasing)
  have val: "of_nat n * pow10 (x + 1 - int p) = of_int m * pow10 (x0 + 1 - int p)"
  proof (cases "nat m = 10 ^ p")
    case True
    then have "m = 10 ^ p" using m0 by (metis int_nat_eq of_nat_numeral of_nat_power)
    moreover have "of_nat (10 ^ (p - 1)) * pow10 (x0 + 2 - int p) = pow10 (x0 + 1)"
      using assms(2) by (simp flip: pow10_add pow10_nat add: of_nat_diff add.commute)
    moreover have "of_int (10 ^ p) * pow10 (x0 + 1 - int p) = pow10 (x0 + 1)"
      by (simp flip: pow10_add pow10_nat)
    ultimately show ?thesis using sig' True by (simp add: algebra_simps)
  next
    case False
    then show ?thesis using sig' m0 by (simp add: of_nat_nat)
  qed
  have scaled: "t * pow10 (x0 + 1 - int p) = r"
    by (simp add: t_def mult.assoc flip: pow10_add) (simp add: pow10_def)
  have "\<bar>of_int m * pow10 (x0 + 1 - int p) - r\<bar> = \<bar>of_int m - t\<bar> * pow10 (x0 + 1 - int p)"
    by (simp add: abs_mult abs_of_pos flip: scaled left_diff_distrib)
  also have "\<dots> \<le> 1 / 2 * pow10 (x0 + 1 - int p)"
    using round_half_even_error [of t] unfolding m_def by (intro mult_right_mono) (simp_all add: less_imp_le)
  also have "\<dots> = pow10 x0 * pow10 (1 - int p) / 2" by (simp flip: pow10_add add: add_diff_eq)
  also have "\<dots> \<le> r * pow10 (1 - int p) / 2" using e(1) by (simp add: mult_right_mono less_imp_le)
  finally show "\<bar>of_nat n * pow10 (x + 1 - int p) - r\<bar> \<le> r * pow10 (1 - int p) / 2" by (simp add: val)
qed

section \<open>Close enough rounds back\<close>

lemma d_round_near:
  assumes fin: "d_finite v" and r: "0 < d_mag v" and near: "\<bar>q - d_mag v\<bar> \<le> d_mag v / (2 * 10 ^ 16)"
  shows "d_round_bits q = d_mag_bits v"
proof -
  define P where "P = d_place v" define m where "m = d_mant v"
  define u :: rat where "u = 2 powi (P - 1075)" define t where "t = q / u"
  note mp = d_mant_place [of v, folded P_def m_def]
  have u: "0 < u" by (simp add: u_def)
  have mag: "d_mag v = of_int m * u" by (simp add: d_mag_eq m_def u_def P_def)
  have m: "0 < m" using r u mp(2) by (cases "m = 0") (simp_all add: mag)
  have q: "q = t * u" using u by (simp add: t_def)
  have "\<bar>t - of_int m\<bar> * u \<le> of_int m / (2 * 10 ^ 16) * u"
    using near u unfolding q mag by (simp add: left_diff_distrib [symmetric] abs_mult)
  then have dist: "\<bar>t - of_int m\<bar> \<le> of_int m / (2 * 10 ^ 16)" using u by (rule mult_right_le_imp_le)
  have "(of_int m :: rat) \<le> of_int (2 ^ 53 - 1)" using mp(3) by (simp only: of_int_le_iff)
  then have mb: "(of_int m :: rat) \<le> 9007199254740991" by simp
  then have half: "\<bar>t - of_int m\<bar> < 1 / 2" using dist by (simp add: field_simps)
  have m1: "(1 :: rat) \<le> of_int m" using m by simp
  then have t0: "0 < t" using half by linarith
  have q0: "q \<noteq> 0" "0 < q" using t0 u by (simp_all add: q)
  have bits: "d_mag_bits v = m + (P - 1) * 2 ^ 52" "m + (P - 1) * 2 ^ 52 \<le> d_top"
    using mp(1) fin by (simp_all add: d_finite_def)
  have log: "2 powi (rat_log2 q) \<le> q" "q < 2 powi (rat_log2 q + 1)" using rat_log2_bounds [OF q0(2)] by auto
  have q53: "q < 2 powi (P - 1022)"
  proof -
    have "t < 9007199254740992" using half mb by linarith
    then have "t < 2 ^ 53" by simp
    then have "q < 2 ^ 53 * u" using u by (simp add: q)
    also have "\<dots> = 2 powi (P - 1022)" by (simp add: u_def flip: power_int_numeral power_int_add)
    finally show ?thesis .
  qed
  then have le: "rat_log2 q + 1023 \<le> P" using log(1) powi_less_imp_less [of "rat_log2 q" "P - 1022"] by simp
  have u52: "2 ^ 52 * u = 2 powi (P - 1023)" by (simp add: u_def flip: power_int_numeral power_int_add)
  show ?thesis
  proof (cases "P = 1 \<or> 2 ^ 52 \<le> t")
    case True
    have "max 1 (rat_log2 q + 1023) = P"
    proof (cases "P = 1")
      case False
      with True u have "2 powi (P - 1023) \<le> q" by (simp add: q flip: u52)
      then have "P - 1023 < rat_log2 q + 1" using log(2) powi_less_imp_less by (meson le_less_trans)
      with le mp(4) show ?thesis by simp
    qed (use le in simp)
    moreover have "scale2 (1075 - P) q = t"
      by (simp add: scale2_def q u_def mult.assoc flip: power_int_add)
    moreover have "round_half_even t = m" using half by (rule round_half_even_near)
    ultimately show ?thesis using bits q0(1) by (simp add: d_round_bits_def Let_def)
  next
    case False
    then have P: "P \<noteq> 1" and low: "t < 2 ^ 52" by simp_all
    with mp(5) have "2 ^ 52 \<le> m" by simp
    moreover have "m < 2 ^ 52 + 1"
    proof -
      have "t < 4503599627370496" using low by simp
      then have "(of_int m :: rat) < 4503599627370497" using half by linarith
      then have "(of_int m :: rat) < of_int (2 ^ 52 + 1)" by simp
      then show ?thesis by (simp only: of_int_less_iff)
    qed
    ultimately have m52: "m = 2 ^ 52" by simp
    have "\<bar>t - 4503599627370496\<bar> \<le> 4503599627370496 / 20000000000000000" using dist by (simp add: m52)
    then have "\<bar>2 * t - 9007199254740992\<bar> < 1 / 2" "2251799813685248 \<le> t" by linarith+
    then have t2: "\<bar>2 * t - of_int (2 ^ 53)\<bar> < 1 / 2" and "2 ^ 51 \<le> t" by simp_all
    then have "2 ^ 51 * u \<le> q" using u by (simp add: q)
    moreover have "2 ^ 51 * u = 2 powi (P - 1024)" by (simp add: u_def flip: power_int_numeral power_int_add)
    moreover have "q < 2 powi (P - 1023)" using low u by (simp add: q flip: u52)
    ultimately have "rat_log2 q = P - 1024" by (intro rat_log2_unique) simp_all
    then have "max 1 (rat_log2 q + 1023) = P - 1" using P mp(4) by simp
    moreover have "scale2 (1075 - (P - 1)) q = 2 * t"
      by (simp add: scale2_def q u_def flip: power_int_add)
    moreover have "round_half_even (2 * t) = 2 ^ 53" using round_half_even_near [OF t2] by simp
    ultimately show ?thesis using bits q0(1) m52 by (simp add: d_round_bits_def Let_def)
  qed
qed

section \<open>The text says what the digits say\<close>

lemma dec_val_append: "dec_val (s @ t) = dec_val s * 10 ^ length t + dec_val t"
proof (induction t rule: rev_induct)
  case (snoc c t)
  have "dec_val (s @ t @ [c]) = 10 * dec_val (s @ t) + (of_char c - 48)"
    using dec_val_snoc [of "s @ t" c] by simp
  with snoc show ?case by (simp add: dec_val_snoc algebra_simps)
qed (simp add: dec_val_def)

lemma dec_val_zeros [simp]: "dec_val (replicate k CHR ''0'') = 0"
proof (induction k)
  case (Suc k)
  then show ?case using dec_val_append [of "''0''" "replicate k CHR ''0''"] by (simp add: dec_val_def)
qed (simp add: dec_val_def)

lemma drop_zeros_split: "\<exists>k. s = drop_zeros s @ replicate k CHR ''0''"
proof -
  have "\<exists>k. xs = replicate k CHR ''0'' @ dropWhile (\<lambda>ch. ch = CHR ''0'') xs" for xs
  proof (induction xs)
    case (Cons x xs)
    then obtain k where "xs = replicate k CHR ''0'' @ dropWhile (\<lambda>ch. ch = CHR ''0'') xs" by blast
    then show ?case by (cases "x = CHR ''0''") (auto intro: exI [of _ "Suc k"])
  qed simp
  then obtain k where "rev s = replicate k CHR ''0'' @ dropWhile (\<lambda>ch. ch = CHR ''0'') (rev s)" by blast
  then have "s = rev (replicate k CHR ''0'' @ dropWhile (\<lambda>ch. ch = CHR ''0'') (rev s))" by (metis rev_rev_ident)
  then show ?thesis unfolding drop_zeros_def by auto
qed

lemma set_drop_zeros: "set (drop_zeros s) \<subseteq> set s"
  by (metis drop_zeros_split set_append Un_upper1)

lemma point_value_text:
  assumes "CHR ''.'' \<notin> set ip" and "CHR ''.'' \<notin> set fp"
  shows "point_value (point_text ip fp) = of_nat (dec_val (ip @ fp)) / 10 ^ length fp"
proof -
  obtain k where k: "fp = drop_zeros fp @ replicate k CHR ''0''" using drop_zeros_split by blast
  let ?z = "drop_zeros fp"
  have len: "length fp = length ?z + k" by (subst k) simp
  have "ip @ fp = (ip @ ?z) @ replicate k CHR ''0''" using k by simp
  then have "dec_val (ip @ fp) = dec_val (ip @ ?z) * 10 ^ k"
    by (metis dec_val_append dec_val_zeros length_replicate add_0_right)
  then have "of_nat (dec_val (ip @ fp)) / 10 ^ length fp = (of_nat (dec_val (ip @ ?z)) / 10 ^ length ?z :: rat)"
    by (simp add: len power_add)
  moreover have "point_value (point_text ip fp) = of_nat (dec_val (ip @ ?z)) / 10 ^ length ?z"
  proof (cases "?z = []")
    case True
    with assms(1) show ?thesis by (simp add: point_text_def point_value_def find_sub_single del: find_char_None)
  qed (use assms(1) in \<open>simp add: point_text_def point_value_def\<close>)
  ultimately show ?thesis by simp
qed

lemma exp_value_text: "exp_value (tl (exp_text x)) = x"
  by (simp add: exp_value_def exp_text_def)

lemma dec_nat_plain [simp]: "CHR ''.'' \<notin> set (dec_nat n)" "CHR ''e'' \<notin> set (dec_nat n)"
  using dec_nat_digits [of _ n] by fastforce+

lemma length_dec_nat: "10 ^ (p - 1) \<le> n \<Longrightarrow> n < 10 ^ p \<Longrightarrow> 0 < p \<Longrightarrow> length (dec_nat n) = p"
proof -
  assume n: "10 ^ (p - 1) \<le> n" "n < 10 ^ p" "0 < p"
  moreover from n(1) have "0 < n" by (meson less_le_trans zero_less_numeral zero_less_power)
  note l = dec_nat_length [OF this]
  ultimately have "(10 :: nat) ^ (p - 1) < 10 ^ length (dec_nat n)" "(10 :: nat) ^ (length (dec_nat n) - 1) < 10 ^ p"
    by linarith+
  then have "p - 1 < length (dec_nat n)" "length (dec_nat n) - 1 < p"
    by simp_all
  with n(3) l show ?thesis by linarith
qed

lemma point_text_no_e: "CHR ''e'' \<notin> set ip \<Longrightarrow> CHR ''e'' \<notin> set fp \<Longrightarrow> CHR ''e'' \<notin> set (point_text ip fp)"
  using set_drop_zeros [of fp] by (auto simp: point_text_def)

lemma in_taken: "c \<notin> set s \<Longrightarrow> c \<notin> set (take n s)" "c \<notin> set s \<Longrightarrow> c \<notin> set (drop n s)"
  using in_set_takeD in_set_dropD by fast+

lemma mag_value_text:
  assumes "0 < r" and p: "0 < p" and sig: "sig_digits p r = (x, n)"
  shows "mag_value (fmt_g_mag p r) = of_nat n * pow10 (x + 1 - int p)"
proof -
  let ?ds = "dec_nat n"
  have len: "length ?ds = p" using sig_digits_value(1,2) [OF assms] p by (rule length_dec_nat)
  note pv = point_value_text [of "take k ?ds" "drop k ?ds" for k, OF in_taken(1) in_taken(2), simplified]
  consider "x < -4 \<or> int p \<le> x" | "0 \<le> x" "x < int p" | "-4 \<le> x" "x < 0" by linarith
  then show ?thesis
  proof cases
    case 1
    let ?m = "point_text (take 1 ?ds) (drop 1 ?ds)"
    have "CHR ''e'' \<notin> set ?m" by (intro point_text_no_e in_taken) simp_all
    then have "find_sub ''e'' (?m @ exp_text x) = Some (length ?m)" by (simp add: exp_text_def)
    moreover have "drop (Suc (length ?m)) (?m @ exp_text x) = tl (exp_text x)" by (simp add: drop_Suc)
    ultimately have "mag_value (?m @ exp_text x) = of_nat n / 10 ^ (p - 1) * pow10 x"
      using pv [of 1] by (simp add: mag_value_def exp_value_text len)
    also have "\<dots> = of_nat n * pow10 (x + 1 - int p)"
    proof -
      have "pow10 x = pow10 (int (p - 1)) * pow10 (x + 1 - int p)" using p by (simp flip: pow10_add add: of_nat_diff)
      then show ?thesis by (simp add: pow10_nat)
    qed
    finally show ?thesis using 1 assms by (simp add: fmt_g_mag_def Let_def)
  next
    case 2
    let ?k = "nat x + 1"
    let ?m = "point_text (take ?k ?ds) (drop ?k ?ds)"
    have "CHR ''e'' \<notin> set ?m" by (intro point_text_no_e in_taken) simp_all
    then have "mag_value ?m = of_nat n / 10 ^ (p - ?k)"
      using pv [of ?k] unfolding mag_value_def by (simp add: find_sub_single len)
    also have "\<dots> = of_nat n * pow10 (x + 1 - int p)"
    proof -
      have "x + 1 - int p = - int (p - ?k)" using 2 by simp
      then have "pow10 (x + 1 - int p) = 1 / 10 ^ (p - ?k)" by (simp only: pow10_minus pow10_nat)
      then show ?thesis by simp
    qed
    finally show ?thesis using 2 assms by (simp add: fmt_g_mag_def Let_def)
  next
    case 3
    let ?z = "replicate (nat (- x - 1)) CHR ''0''"
    let ?m = "point_text ''0'' (?z @ ?ds)"
    have "CHR ''e'' \<notin> set ?m" by (intro point_text_no_e) auto
    moreover have "point_value ?m = of_nat (dec_val (''0'' @ ?z @ ?ds)) / 10 ^ length (?z @ ?ds)"
      by (rule point_value_text) auto
    moreover have "dec_val (''0'' @ ?z @ ?ds) = n"
      using dec_val_append [of "''0''" "?z @ ?ds"] dec_val_append [of ?z ?ds] by (simp add: dec_val_def [of "''0''"])
    ultimately have "mag_value ?m = of_nat n / 10 ^ (nat (- x - 1) + p)"
      unfolding mag_value_def by (simp add: find_sub_single len)
    also have "\<dots> = of_nat n * pow10 (x + 1 - int p)"
    proof -
      have "x + 1 - int p = - int (nat (- x - 1) + p)" using 3 by simp
      then have "pow10 (x + 1 - int p) = 1 / 10 ^ (nat (- x - 1) + p)" by (simp only: pow10_minus pow10_nat)
      then show ?thesis by simp
    qed
    finally show ?thesis using 3 assms by (simp add: fmt_g_mag_def Let_def)
  qed
qed

section \<open>Seventeen digits are enough\<close>

lemma hd_point_text: "ip \<noteq> [] \<Longrightarrow> point_text ip fp \<noteq> [] \<and> hd (point_text ip fp) = hd ip"
  by (simp add: point_text_def)

lemma hd_dec_nat: "dec_nat n \<noteq> []" "hd (dec_nat n) \<noteq> CHR ''-''"
proof -
  show "dec_nat n \<noteq> []" by (subst dec_nat.simps) simp
  then have "hd (dec_nat n) \<in> set (dec_nat n)" by simp
  then show "hd (dec_nat n) \<noteq> CHR ''-''" using dec_nat_digits [of "hd (dec_nat n)" n] by fastforce
qed

lemma fmt_g_mag_first: "fmt_g_mag p r \<noteq> [] \<and> hd (fmt_g_mag p r) \<noteq> CHR ''-''"
proof -
  have "take (Suc k) (dec_nat n) \<noteq> []" "hd (take (Suc k) (dec_nat n)) \<noteq> CHR ''-''" for k n
    using hd_dec_nat by simp_all
  then show ?thesis
    by (auto simp: fmt_g_mag_def Let_def hd_point_text hd_append split: prod.split)
qed

lemma read_double_17:
  assumes "d_finite v"
  shows "read_double (fmt_g 17 v) = v"
proof -
  have "d_round_bits (mag_value (fmt_g_mag 17 (d_mag v))) = d_mag_bits v"
  proof (cases "d_mag v = 0")
    case True
    then have "mag_value (fmt_g_mag 17 (d_mag v)) = 0"
      by (simp add: fmt_g_mag_def mag_value_def point_value_def find_sub_single dec_val_def)
    with True show ?thesis by (simp add: d_round_bits_def d_zero_mag d_zero_def)
  next
    case False
    then have pos: "0 < d_mag v" using d_mag_nonneg(1) [of v] by linarith
    obtain x n where sig: "sig_digits 17 (d_mag v) = (x, n)" by fastforce
    have "1 - int 17 = - int 16" by simp
    then have "pow10 (1 - int 17) = 1 / 10 ^ 16" by (simp only: pow10_minus pow10_nat)
    then have half: "d_mag v * pow10 (1 - int 17) / 2 = d_mag v / (2 * 10 ^ 16)" by (simp only:) simp
    have "0 < (17 :: nat)" by simp
    note val = mag_value_text [OF pos this sig] and near = sig_digits_value(3) [OF pos this sig]
    show ?thesis unfolding val by (rule d_round_near [OF assms pos]) (use near in \<open>simp only: half\<close>)
  qed
  then have "d_round (d_sign v) (mag_value (fmt_g_mag 17 (d_mag v))) = v" by (simp add: d_round_def d_pack_self)
  moreover have "\<not> d_nan v" "\<not> d_inf v" using assms by (auto simp: d_finite_def d_nan_def d_inf_def)
  ultimately show ?thesis
    using fmt_g_mag_first [of 17 "d_mag v"] by (cases "d_sign v") (simp_all add: read_double_def fmt_g_def)
qed

end
