(* ===== verification/Metrics.thy ===== *)
theory Metrics
  imports OrderedMap Decimal
begin

text \<open>
  \<open>src/core/metrics.cpp\<close>: counters and gauges and their text in the Prometheus exposition format. The
  mutex makes every operation one step.
\<close>

section \<open>The registry\<close>

type_synonym Labels = "(string \<times> string) list"

datatype MetricType = MT_counter | MT_gauge

record Family =
  fam_type :: MetricType
  fam_help :: string
  fam_described :: bool
  fam_series :: "(string \<times> double) list" \<comment> \<open>rendered label set to value\<close>

type_synonym Metrics = "(string \<times> Family) list"

definition empty_family :: Family where
  "empty_family = \<lparr>fam_type = MT_gauge, fam_help = [], fam_described = False, fam_series = []\<rparr>"

definition escape_char :: "char \<Rightarrow> string" where
  "escape_char c = (if c = CHR 0x5C then [CHR 0x5C, CHR 0x5C]
     else if c = CHR 0x22 then [CHR 0x5C, CHR 0x22]
     else if c = CHR 0x0A then [CHR 0x5C, CHR ''n''] else [c])"

definition escape_label_value :: "string \<Rightarrow> string" where
  "escape_label_value s = concat (map escape_char s)"

fun render_pairs :: "bool \<Rightarrow> Labels \<Rightarrow> string" where
  "render_pairs comma [] = []"
| "render_pairs comma ((k, v) # ls) =
     (if comma then '','' else []) @ k @ CHR ''='' # CHR 0x22 # escape_label_value v @ CHR 0x22 # render_pairs True ls"

definition render_labels :: "Labels \<Rightarrow> string" where
  "render_labels ls = (if ls = [] then [] else ''{'' @ render_pairs False ls @ ''}'')"

definition describe_metric :: "string \<Rightarrow> MetricType \<Rightarrow> string \<Rightarrow> Metrics \<Rightarrow> Metrics" where
  "describe_metric name ty help m =
     omap_alter empty_family (\<lambda>fam. fam\<lparr>fam_type := ty, fam_help := help, fam_described := True\<rparr>) name m"

definition increment :: "string \<Rightarrow> Labels \<Rightarrow> double \<Rightarrow> Metrics \<Rightarrow> Metrics" where
  "increment name ls delta m =
     omap_alter empty_family
       (\<lambda>fam. fam\<lparr>fam_series := omap_alter 0 (\<lambda>v. d_add v delta) (render_labels ls) (fam_series fam)\<rparr>) name m"

definition set_metric :: "string \<Rightarrow> Labels \<Rightarrow> double \<Rightarrow> Metrics \<Rightarrow> Metrics" where
  "set_metric name ls v m =
     omap_alter empty_family
       (\<lambda>fam. fam\<lparr>fam_series := omap_alter 0 (\<lambda>_. v) (render_labels ls) (fam_series fam)\<rparr>) name m"

definition metric_value :: "string \<Rightarrow> Labels \<Rightarrow> Metrics \<Rightarrow> double" where
  "metric_value name ls m =
     (case map_of m name of None \<Rightarrow> 0
      | Some fam \<Rightarrow> (case map_of (fam_series fam) (render_labels ls) of None \<Rightarrow> 0 | Some v \<Rightarrow> v))"

section \<open>The text\<close>

definition eol :: string where "eol = [CHR 0x0A]"

definition value_text :: "double \<Rightarrow> string" where
  "value_text v = (if d_nan v then ''NaN'' else if d_inf v then (if d_lt 0 v then ''+Inf'' else ''-Inf'')
     else fmt_g 17 v)"

definition series_line :: "string \<Rightarrow> string \<times> double \<Rightarrow> string" where
  "series_line name s = name @ fst s @ '' '' @ value_text (snd s)"

definition render_family :: "string \<times> Family \<Rightarrow> string" where
  "render_family = (\<lambda>(name, fam).
     if fam_series fam = [] then []
     else (if fam_described fam
           then ''# HELP '' @ name @ '' '' @ fam_help fam @ eol @
                ''# TYPE '' @ name @ '' '' @ (if fam_type fam = MT_counter then ''counter'' else ''gauge'') @ eol
           else []) @
          concat (map (\<lambda>s. series_line name s @ eol) (fam_series fam)))"

definition render :: "Metrics \<Rightarrow> string" where
  "render m = concat (map render_family m)"

section \<open>Label sets are kept apart\<close>

fun unescape :: "string \<Rightarrow> (string \<times> string) option" where
  "unescape [] = None"
| "unescape (c # s) =
     (if c = CHR 0x22 then Some ([], s)
      else if c = CHR 0x5C then
        (case s of [] \<Rightarrow> None
         | d # s' \<Rightarrow> map_option (\<lambda>(v, r). ((if d = CHR ''n'' then CHR 0x0A else d) # v, r)) (unescape s'))
      else map_option (\<lambda>(v, r). (c # v, r)) (unescape s))"

lemma unescape_escape: "unescape (escape_label_value v @ CHR 0x22 # r) = Some (v, r)"
  by (induction v) (auto simp: escape_label_value_def escape_char_def)

lemma escape_no_newline: "CHR 0x0A \<notin> set (escape_label_value v)"
  by (auto simp: escape_label_value_def escape_char_def split: if_splits)

definition label_names_ok :: "Labels \<Rightarrow> bool" where
  "label_names_ok ls \<longleftrightarrow> list_all (\<lambda>(k, v). CHR ''='' \<notin> set k \<and> CHR 0x0A \<notin> set k) ls"

lemma split_at_eq:
  assumes "CHR ''='' \<notin> set k" and "CHR ''='' \<notin> set k'" and "k @ CHR ''='' # s = k' @ CHR ''='' # s'"
  shows "k = k' \<and> s = s'"
proof -
  have "find_sub ''='' (k @ CHR ''='' # s) = Some (length k)" "find_sub ''='' (k' @ CHR ''='' # s') = Some (length k')"
    using assms(1,2) by simp_all
  with assms(3) have "length k = length k'" by simp
  with assms(3) show ?thesis by simp
qed

lemma render_pairs_inject:
  "label_names_ok ls \<Longrightarrow> label_names_ok ls' \<Longrightarrow> render_pairs b ls @ t = render_pairs b ls' @ t \<Longrightarrow> ls = ls'"
proof (induction ls arbitrary: ls' b)
  case Nil
  then show ?case by (cases ls') (auto simp: append_eq_append_conv2 Cons_eq_append_conv)
next
  case (Cons p ls)
  obtain k v where p: "p = (k, v)" by (cases p)
  show ?case
  proof (cases ls')
    case Nil
    with Cons.prems p show ?thesis by simp
  next
    case (Cons p' ls2)
    obtain k' v' where p': "p' = (k', v')" by (cases p')
    define r where "r = render_pairs True ls @ t" define r' where "r' = render_pairs True ls2 @ t"
    have names: "CHR ''='' \<notin> set k" "CHR ''='' \<notin> set k'" "label_names_ok ls" "label_names_ok ls2"
      using Cons.prems(1,2) p p' Cons by (simp_all add: label_names_ok_def)
    have "k @ CHR ''='' # CHR 0x22 # escape_label_value v @ CHR 0x22 # r =
        k' @ CHR ''='' # CHR 0x22 # escape_label_value v' @ CHR 0x22 # r'"
      using Cons.prems(3) by (simp add: p p' Cons r_def r'_def split: if_splits)
    from split_at_eq [OF names(1,2) this] have k: "k = k'"
      and e: "escape_label_value v @ CHR 0x22 # r = escape_label_value v' @ CHR 0x22 # r'" by simp_all
    from arg_cong [OF e, of unescape] have "v = v'" "r = r'" unfolding unescape_escape by simp_all
    with Cons.IH [OF names(3,4), of True] k show ?thesis by (simp add: p p' Cons r_def r'_def)
  qed
qed

lemma render_labels_inject:
  "label_names_ok ls \<Longrightarrow> label_names_ok ls' \<Longrightarrow> render_labels ls = render_labels ls' \<longleftrightarrow> ls = ls'"
  using render_pairs_inject [of ls ls' False "''}''"] by (auto simp: render_labels_def split: if_splits)

section \<open>Runs\<close>

datatype MetricOp = M_describe string MetricType string | M_increment string Labels double | M_set string Labels double

fun metric_do :: "Metrics \<Rightarrow> MetricOp \<Rightarrow> Metrics" where
  "metric_do m (M_describe name ty help) = describe_metric name ty help m"
| "metric_do m (M_increment name ls delta) = increment name ls delta m"
| "metric_do m (M_set name ls v) = set_metric name ls v m"

definition metric_run :: "MetricOp list \<Rightarrow> Metrics" where
  "metric_run ops = foldl metric_do [] ops"

text \<open>What a caller may pass: names on one line that do not look like a comment, label names without an
  equals sign. Label values are arbitrary.\<close>

definition metric_name_ok :: "string \<Rightarrow> bool" where
  "metric_name_ok name \<longleftrightarrow> name \<noteq> [] \<and> hd name \<noteq> CHR ''#'' \<and> CHR 0x0A \<notin> set name"

fun metric_op_ok :: "MetricOp \<Rightarrow> bool" where
  "metric_op_ok (M_describe name ty help) = (metric_name_ok name \<and> CHR 0x0A \<notin> set help)"
| "metric_op_ok (M_increment name ls delta) = (metric_name_ok name \<and> label_names_ok ls)"
| "metric_op_ok (M_set name ls v) = (metric_name_ok name \<and> label_names_ok ls)"

text \<open>The abstract registry: one number per metric and label set, changed by the operations on exactly that
  metric and label set.\<close>

fun spec_do :: "string \<Rightarrow> Labels \<Rightarrow> double \<Rightarrow> MetricOp \<Rightarrow> double" where
  "spec_do name ls v (M_describe name' ty help) = v"
| "spec_do name ls v (M_increment name' ls' delta) = (if name' = name \<and> ls' = ls then d_add v delta else v)"
| "spec_do name ls v (M_set name' ls' w) = (if name' = name \<and> ls' = ls then w else v)"

definition metrics_ok :: "Metrics \<Rightarrow> bool" where
  "metrics_ok m \<longleftrightarrow> omap_ok m \<and>
     list_all (\<lambda>(name, fam). metric_name_ok name \<and> CHR 0x0A \<notin> set (fam_help fam) \<and> omap_ok (fam_series fam) \<and>
       list_all (\<lambda>(key, v). CHR 0x0A \<notin> set key) (fam_series fam)) m"

lemma render_labels_no_newline: "label_names_ok ls \<Longrightarrow> CHR 0x0A \<notin> set (render_labels ls)"
proof -
  have "CHR 0x0A \<notin> set (render_pairs b ls)" if "label_names_ok ls" for b
    using that by (induction ls arbitrary: b) (auto simp: label_names_ok_def escape_no_newline)
  then show "label_names_ok ls \<Longrightarrow> CHR 0x0A \<notin> set (render_labels ls)" by (simp add: render_labels_def)
qed

lemma metrics_ok_alter:
  assumes "metrics_ok m" and "metric_name_ok name"
    and "\<And>fam. CHR 0x0A \<notin> set (fam_help fam) \<Longrightarrow> omap_ok (fam_series fam) \<Longrightarrow>
      list_all (\<lambda>(key, v). CHR 0x0A \<notin> set key) (fam_series fam) \<Longrightarrow>
      CHR 0x0A \<notin> set (fam_help (f fam)) \<and> omap_ok (fam_series (f fam)) \<and>
      list_all (\<lambda>(key, v). CHR 0x0A \<notin> set key) (fam_series (f fam))"
  shows "metrics_ok (omap_alter empty_family f name m)"
proof -
  let ?P = "\<lambda>(name, fam). metric_name_ok name \<and> CHR 0x0A \<notin> set (fam_help fam) \<and> omap_ok (fam_series fam) \<and>
       list_all (\<lambda>(key, v). CHR 0x0A \<notin> set key) (fam_series fam)"
  have m: "omap_ok m" "list_all ?P m" using assms(1) by (simp_all add: metrics_ok_def)
  have "list_all ?P (omap_alter empty_family f name m)"
  proof (rule omap_alter_all [OF m(2)])
    fix fam assume "(name, fam) \<in> set m \<or> fam = empty_family"
    then have "CHR 0x0A \<notin> set (fam_help fam) \<and> omap_ok (fam_series fam) \<and>
       list_all (\<lambda>(key, v). CHR 0x0A \<notin> set key) (fam_series fam)"
      using m(2) by (auto simp: empty_family_def list_all_iff)
    with assms(2,3) show "?P (name, f fam)" by simp
  qed
  with m(1) show ?thesis by (simp add: metrics_ok_def)
qed

lemma series_no_newline:
  "list_all (\<lambda>(key, v). CHR 0x0A \<notin> set key) kvs \<Longrightarrow> label_names_ok ls \<Longrightarrow>
   list_all (\<lambda>(key, v). CHR 0x0A \<notin> set key) (omap_alter d g (render_labels ls) kvs)"
  by (rule omap_alter_all) (simp_all add: render_labels_no_newline)

lemma metric_do_ok: "metrics_ok m \<Longrightarrow> metric_op_ok op \<Longrightarrow> metrics_ok (metric_do m op)"
  by (cases op)
    (auto simp: describe_metric_def increment_def set_metric_def series_no_newline intro!: metrics_ok_alter)

lemma metric_value_do:
  assumes "metrics_ok m" and "metric_op_ok op" and "label_names_ok ls"
  shows "metric_value name ls (metric_do m op) = spec_do name ls (metric_value name ls m) op"
proof -
  have m: "omap_ok m" using assms(1) by (simp add: metrics_ok_def)
  have fam: "omap_ok (fam_series fam)" if "map_of m n = Some fam" for n fam
    using assms(1) map_of_SomeD [OF that] by (auto simp: metrics_ok_def list_all_iff)
  show ?thesis
    using assms(2,3) m fam
    by (cases op) (auto simp: metric_value_def describe_metric_def increment_def set_metric_def
        map_of_omap_alter empty_family_def render_labels_inject split: option.splits)
qed

lemma metric_run_ok: "list_all metric_op_ok ops \<Longrightarrow> metrics_ok (metric_run ops)"
proof (induction ops rule: rev_induct)
  case (snoc op ops)
  then show ?case by (simp add: metric_run_def metric_do_ok)
qed (simp add: metric_run_def metrics_ok_def)

lemma metric_value_run:
  "list_all metric_op_ok ops \<Longrightarrow> label_names_ok ls \<Longrightarrow>
   metric_value name ls (metric_run ops) = foldl (spec_do name ls) 0 ops"
proof (induction ops rule: rev_induct)
  case (snoc op ops)
  then show ?case using metric_value_do [OF metric_run_ok, of ops op ls name] by (simp add: metric_run_def)
qed (simp add: metric_run_def metric_value_def)

section \<open>A scrape\<close>

text \<open>How a scraper reads the text: line by line, comments skipped.\<close>

function text_lines :: "string \<Rightarrow> string list" where
  "text_lines s = (case find_sub eol s of None \<Rightarrow> [] | Some n \<Rightarrow> take n s # text_lines (drop (Suc n) s))"
  by auto
termination text_lines
  by (relation "measure length") (auto simp: eol_def dest!: find_sub_less)

declare text_lines.simps [simp del]

definition sample_lines :: "string \<Rightarrow> string list" where
  "sample_lines s = filter (\<lambda>l. hd l \<noteq> CHR ''#'') (text_lines s)"

lemma text_lines_line: "CHR 0x0A \<notin> set l \<Longrightarrow> text_lines (l @ eol @ s) = l # text_lines s"
  by (subst text_lines.simps) (simp add: eol_def)

lemma text_lines_Nil [simp]: "text_lines [] = []"
  by (subst text_lines.simps) (simp add: eol_def)

lemma digit_not_newline: "CHR 0x0A \<notin> set (dec_nat n)"
  using dec_nat_digits [of "CHR 0x0A" n] by auto

lemma fmt_g_mag_no_newline: "CHR 0x0A \<notin> set (fmt_g_mag p r)"
proof -
  have "CHR 0x0A \<notin> set (point_text ip fp)" if "CHR 0x0A \<notin> set ip" "CHR 0x0A \<notin> set fp" for ip fp
    using that set_drop_zeros [of fp] by (auto simp: point_text_def)
  moreover have "CHR 0x0A \<notin> set (exp_text x)" for x by (simp add: exp_text_def pad0_def digit_not_newline)
  ultimately show ?thesis
    by (auto simp: fmt_g_mag_def Let_def digit_not_newline in_taken split: prod.split)
qed

lemma value_text_no_newline: "CHR 0x0A \<notin> set (value_text v)"
  by (simp add: value_text_def fmt_g_def fmt_g_mag_no_newline)

lemma sample_lines_series:
  assumes "metric_name_ok name" and "list_all (\<lambda>(key, v). CHR 0x0A \<notin> set key) kvs"
  shows "sample_lines (concat (map (\<lambda>s. series_line name s @ eol) kvs) @ t) = map (series_line name) kvs @ sample_lines t"
  using assms(2)
proof (induction kvs)
  case (Cons s kvs)
  have "CHR 0x0A \<notin> set (series_line name s)" "hd (series_line name s) \<noteq> CHR ''#''"
    using assms(1) Cons.prems value_text_no_newline [of "snd s"]
    by (auto simp: series_line_def metric_name_ok_def)
  with Cons show ?case by (simp add: sample_lines_def text_lines_line)
qed simp

lemma sample_lines_comment: "CHR 0x0A \<notin> set l \<Longrightarrow> sample_lines (CHR ''#'' # l @ eol @ s) = sample_lines s"
  using text_lines_line [of "CHR ''#'' # l" s] by (simp add: sample_lines_def)

lemma sample_lines_family:
  assumes "metric_name_ok name" and "CHR 0x0A \<notin> set (fam_help fam)"
    and "list_all (\<lambda>(key, v). CHR 0x0A \<notin> set key) (fam_series fam)"
  shows "sample_lines (render_family (name, fam) @ t) = map (series_line name) (fam_series fam) @ sample_lines t"
proof -
  let ?body = "concat (map (\<lambda>s. series_line name s @ eol) (fam_series fam))"
  have n: "CHR 0x0A \<notin> set name" using assms(1) by (simp add: metric_name_ok_def)
  have "sample_lines (''# HELP '' @ name @ '' '' @ fam_help fam @ eol @ u) = sample_lines u" for u
    using sample_lines_comment [of "'' HELP '' @ name @ '' '' @ fam_help fam" u] n assms(2) by simp
  moreover have "sample_lines (''# TYPE '' @ name @ '' '' @ ty @ eol @ u) = sample_lines u"
    if "CHR 0x0A \<notin> set ty" for u ty
    using sample_lines_comment [of "'' TYPE '' @ name @ '' '' @ ty" u] n that by simp
  ultimately have "sample_lines (render_family (name, fam) @ t) = sample_lines (?body @ t)"
    by (simp add: render_family_def)
  with sample_lines_series [OF assms(1,3)] show ?thesis by simp
qed

lemma sample_lines_render:
  "metrics_ok m \<Longrightarrow> sample_lines (render m) = concat (map (\<lambda>(name, fam). map (series_line name) (fam_series fam)) m)"
proof (induction m)
  case (Cons p m)
  obtain name fam where p: "p = (name, fam)" by (cases p)
  with Cons.prems have "metric_name_ok name" "CHR 0x0A \<notin> set (fam_help fam)"
    "list_all (\<lambda>(key, v). CHR 0x0A \<notin> set key) (fam_series fam)" "metrics_ok m"
    by (auto simp: metrics_ok_def)
  with Cons.IH p sample_lines_family [of name fam "render m"] show ?case by (simp add: render_def)
qed (simp add: render_def sample_lines_def)

section \<open>Properties\<close>

text \<open>C37. Counters and gauges are kept apart: after any operations the value of a metric for a label set is
  what the operations on exactly that metric and exactly that label set make it, whatever characters
  the label values contain.\<close>

theorem metrics_kept_apart:
  assumes "list_all metric_op_ok ops" and "label_names_ok ls"
  shows "metric_value name ls (metric_run ops) = foldl (spec_do name ls) 0 ops"
  using assms by (rule metric_value_run)

theorem metrics_kept_apart_witness:
  "metric_value ''m'' [(''k'', [CHR 0x22, CHR 0x2C])]
     (metric_run [M_increment ''m'' [(''k'', [])] 7, M_set ''m'' [(''k'', [CHR 0x22, CHR 0x2C])] 5]) = 5"
  using metrics_kept_apart [of "[M_increment ''m'' [(''k'', [])] 7, M_set ''m'' [(''k'', [CHR 0x22, CHR 0x2C])] 5]"
      "[(''k'', [CHR 0x22, CHR 0x2C])]" "''m''"]
  by (simp add: metric_name_ok_def label_names_ok_def)

text \<open>C38. A scrape loses nothing: the sample lines of the rendered text are exactly the stored series, each
  on one line and once, in the order of the maps; and the number on a line, read as a double, is the
  stored value bit for bit, for every finite value.\<close>

theorem scrape_loses_nothing:
  assumes "list_all metric_op_ok ops" and "d_finite v"
  shows "sample_lines (render (metric_run ops)) =
      concat (map (\<lambda>(name, fam). map (series_line name) (fam_series fam)) (metric_run ops)) \<and>
    series_line name (key, v) = name @ key @ '' '' @ value_text v \<and> read_double (value_text v) = v"
proof -
  have "\<not> d_nan v" "\<not> d_inf v" using assms(2) by (auto simp: d_finite_def d_nan_def d_inf_def)
  then show ?thesis
    using sample_lines_render [OF metric_run_ok [OF assms(1)]] read_double_17 [OF assms(2)]
    by (simp add: series_line_def value_text_def)
qed

theorem scrape_loses_nothing_witness:
  "sample_lines (render (metric_run [M_set ''up'' [] 1])) = [''up '' @ value_text 1] \<and> read_double (value_text 1) = 1"
proof -
  have "d_finite 1" by (simp add: d_finite_def d_mag_bits_def)
  moreover have "metric_run [M_set ''up'' [] 1] =
      [(''up'', \<lparr>fam_type = MT_gauge, fam_help = [], fam_described = False, fam_series = [([], 1)]\<rparr>)]"
    by (simp add: metric_run_def set_metric_def empty_family_def render_labels_def)
  ultimately show ?thesis
    using scrape_loses_nothing [of "[M_set ''up'' [] 1]" 1 "''up''" "[]"]
    by (simp add: metric_name_ok_def label_names_ok_def)
qed

end
