(* ===== verification/CoreTypes.thy ===== *)
theory CoreTypes
  imports Prelude Ieee754
begin

text \<open>
  The data every layer shares: \<open>core/config.hpp\<close> (the configuration and its default values) and
  \<open>core/events.hpp\<close> (the events on the bus). Field names carry a short prefix where the code
  reuses a name in several structs. \<open>std::size_t\<close> and the unsigned fields keep their width; a
  \<open>system_clock\<close> time point is its \<open>int\<close> count of nanoseconds since the epoch.
\<close>

section \<open>Configuration\<close>

datatype RegisterType = RT_holding | RT_input
datatype DataType = DT_uint16 | DT_int16 | DT_uint32 | DT_int32 | DT_float32
datatype WordOrder = WO_big | WO_little

definition register_count :: "DataType \<Rightarrow> u16" where
  "register_count t = (if t = DT_uint16 \<or> t = DT_int16 then 1 else 2)"

record DetectorConfig =
  det_type :: string
  window :: u64
  alpha :: double
  threshold :: double
  mean :: double
  stddev :: double
  slack :: double

text \<open>The decimal literals \<open>0.2\<close>, \<open>3.0\<close>, \<open>0.0\<close>, \<open>1.0\<close>, \<open>0.5\<close> of the member initialisers.\<close>

definition default_DetectorConfig :: DetectorConfig where
  "default_DetectorConfig = \<lparr>det_type = [], window = 60, alpha = d_of_rat (1 / 5),
     threshold = d_of_rat 3, mean = d_of_rat 0, stddev = d_of_rat 1, slack = d_of_rat (1 / 2)\<rparr>"

record DetectionConfig =
  detectors :: "DetectorConfig list"
  votes_required :: u64
  cooldown_seconds :: u32

definition default_DetectionConfig :: DetectionConfig where
  "default_DetectionConfig = \<lparr>detectors = [], votes_required = 1, cooldown_seconds = 30\<rparr>"

record Limits =
  low :: "double option"
  high :: "double option"

record SensorConfig =
  sensor_id :: string
  sensor_name :: string
  sensor_unit :: string
  register_type :: RegisterType
  address :: u16
  data_type :: DataType
  word_order :: WordOrder
  scale :: double
  offset :: double
  limits :: Limits
  detection :: DetectionConfig

definition default_SensorConfig :: SensorConfig where
  "default_SensorConfig = \<lparr>sensor_id = [], sensor_name = [], sensor_unit = [],
     register_type = RT_holding, address = 0, data_type = DT_uint16, word_order = WO_big,
     scale = d_of_rat 1, offset = d_of_rat 0, limits = \<lparr>low = None, high = None\<rparr>,
     detection = default_DetectionConfig\<rparr>"

record ModbusDeviceConfig =
  device_id :: string
  host :: string
  port :: u16
  device_unit_id :: u8
  poll_interval_ms :: u32
  timeout_ms :: u32
  sensors :: "SensorConfig list"

definition default_ModbusDeviceConfig :: ModbusDeviceConfig where
  "default_ModbusDeviceConfig = \<lparr>device_id = [], host = [], port = 502, device_unit_id = 1,
     poll_interval_ms = 1000, timeout_ms = 3000, sensors = []\<rparr>"

section \<open>Events\<close>

type_synonym time_point = int \<comment> \<open>nanoseconds since the epoch\<close>

datatype Severity = Sev_warning | Sev_critical
datatype AlertKind = AK_statistical | AK_limit

text \<open>The order of the enumerators: \<open>alert.severity < config_.min_severity\<close> compares them.\<close>

instantiation Severity :: linorder
begin
definition less_eq_Severity :: "Severity \<Rightarrow> Severity \<Rightarrow> bool" where
  "less_eq_Severity a b \<longleftrightarrow> a = Sev_warning \<or> b = Sev_critical"
definition less_Severity :: "Severity \<Rightarrow> Severity \<Rightarrow> bool" where
  "less_Severity a b \<longleftrightarrow> a = Sev_warning \<and> b = Sev_critical"
instance by standard (auto simp: less_eq_Severity_def less_Severity_def intro: Severity.exhaust)
end

definition severity_to_string :: "Severity \<Rightarrow> string" where
  "severity_to_string s = (if s = Sev_critical then ''critical'' else ''warning'')"

definition kind_to_string :: "AlertKind \<Rightarrow> string" where
  "kind_to_string k = (if k = AK_limit then ''limit'' else ''statistical'')"

record SensorReadingEvent =
  r_sensor_id :: string
  r_value :: double
  r_timestamp :: time_point

record AnomalyEvent =
  a_sensor_id :: string
  a_detector_name :: string
  a_message :: string
  a_score :: double
  a_confidence :: double
  a_timestamp :: time_point
  a_votes :: nat
  a_detectors_total :: nat
  a_kind :: AlertKind
  a_severity :: Severity
  a_value :: double
  a_limit :: "double option"
  a_above_limit :: bool

record PollErrorEvent =
  e_device_id :: string
  e_message :: string

record DeviceStatusEvent =
  s_device_id :: string
  s_online :: bool
  s_timestamp :: time_point

text \<open>\<open>duration_cast<milliseconds>\<close> of a nanosecond count truncates towards zero.\<close>

definition to_ms :: "time_point \<Rightarrow> int" where
  "to_ms t = sgn t * (\<bar>t\<bar> div 1000000)"

lemma to_ms_mono: "s \<le> t \<Longrightarrow> to_ms s \<le> to_ms t"
proof -
  assume "s \<le> t"
  then show ?thesis
    by (cases "0 < s"; cases "0 < t")
      (auto simp: to_ms_def sgn_if abs_if not_less div_le_mono zdiv_mono1
        intro: order_trans [of _ 0] simp: neg_le_0_iff_le pos_imp_zdiv_nonneg_iff)
qed

end
