(* ===== verification/SlidingWindow.thy ===== *)
theory SlidingWindow
  imports Prelude
begin

text \<open>
  A history that keeps the most recent entries. Three components have one: the alert log of
  \<open>core/alert_log.hpp\<close>, the sample buffers of \<open>storage/ring_buffer.hpp\<close> and the window of
  \<open>ZScoreDetector\<close>. The contract is what one push does to the contents, oldest first; everything about
  long histories follows from it once, here.
\<close>

locale sliding_window =
  fixes push :: "'s \<Rightarrow> 'a \<Rightarrow> 's" and contents :: "'s \<Rightarrow> 'a list"
    and cap :: "'s \<Rightarrow> nat" and inv :: "'s \<Rightarrow> bool"
  assumes inv_push: "inv s \<Longrightarrow> inv (push s x)"
    and cap_push: "inv s \<Longrightarrow> cap (push s x) = cap s"
    and inv_length: "inv s \<Longrightarrow> length (contents s) \<le> cap s"
    and contents_push: "inv s \<Longrightarrow> contents (push s x) = last_n (cap s) (contents s @ [x])"
begin

lemma history:
  assumes "inv s"
  shows "inv (foldl push s xs) \<and> cap (foldl push s xs) = cap s \<and>
    contents (foldl push s xs) = last_n (cap s) (contents s @ xs)"
  using assms
proof (induction xs rule: rev_induct)
  case Nil
  then show ?case by (simp add: inv_length)
next
  case (snoc x xs)
  let ?s = "foldl push s xs"
  have s: "inv ?s" "cap ?s = cap s" "contents ?s = last_n (cap s) (contents s @ xs)"
    using snoc by auto
  have "contents (push ?s x) = last_n (cap s) (last_n (cap s) (contents s @ xs) @ [x])"
    using contents_push [OF s(1)] s(2,3) by simp
  also have "\<dots> = last_n (cap s) ((contents s @ xs) @ [x])" by (rule last_n_append_last_n)
  finally show ?case using s inv_push cap_push by simp
qed

lemma history_length: "inv s \<Longrightarrow> length (contents (foldl push s xs)) = min (cap s) (length (contents s) + length xs)"
  by (simp add: history)

lemma history_from_empty: "inv s \<Longrightarrow> contents s = [] \<Longrightarrow> contents (foldl push s xs) = last_n (cap s) xs"
  by (simp add: history)

end

end
