(* ===== verification/AlertLog.thy ===== *)
theory AlertLog
  imports CoreTypes SlidingWindow
begin

text \<open>\<open>core/alert_log.hpp\<close>: the bounded history behind \<open>GET /api/v1/alerts\<close>, and
  \<open>core/device_registry.hpp\<close>: the last reported status of every device.\<close>

section \<open>The alert log\<close>

record AlertLog =
  log_capacity :: nat
  log_events :: "AnomalyEvent list" \<comment> \<open>oldest first\<close>

definition AlertLog_make :: "nat \<Rightarrow> AlertLog" where
  "AlertLog_make c = \<lparr>log_capacity = c, log_events = []\<rparr>"

text \<open>\<open>while (events_.size() > capacity_) events_.pop_front();\<close>\<close>

fun pop_excess :: "nat \<Rightarrow> 'a list \<Rightarrow> 'a list" where
  "pop_excess c [] = []"
| "pop_excess c (e # es) = (if c < length (e # es) then pop_excess c es else e # es)"

definition log_push :: "AlertLog \<Rightarrow> AnomalyEvent \<Rightarrow> AlertLog" where
  "log_push l event = l\<lparr>log_events := pop_excess (log_capacity l) (log_events l @ [event])\<rparr>"

definition log_recent :: "nat \<Rightarrow> AlertLog \<Rightarrow> AnomalyEvent list" where
  "log_recent n l = take (min n (length (log_events l))) (rev (log_events l))"

lemma pop_excess_last_n: "pop_excess c es = last_n c es"
  by (induction es) (auto simp: last_n_def Suc_diff_le not_less)

interpretation alerts: sliding_window log_push log_events log_capacity
  "\<lambda>l. length (log_events l) \<le> log_capacity l"
  by unfold_locales (auto simp: log_push_def pop_excess_last_n)

text \<open>Whatever alerts were raised, the log answers with the most recent ones, newest first, at
  most as many as asked for and as its capacity, and never one that was not raised.\<close>

theorem alert_log_recent:
  "log_recent n (foldl log_push (AlertLog_make c) es) = rev (last_n (min n c) es)"
proof -
  have "log_events (foldl log_push (AlertLog_make c) es) = last_n c es"
    using alerts.history_from_empty [of "AlertLog_make c" es] by (simp add: AlertLog_make_def)
  moreover have "take k (rev xs) = rev (last_n k xs)" for k and xs :: "AnomalyEvent list"
    by (simp add: last_n_def take_rev)
  moreover have "last_n (min (min n (min c (length es))) c) es = last_n (min n c) es"
    using last_n_min_length [of "min n c" es] by (simp add: min.commute min.left_commute)
  ultimately show ?thesis by (simp add: log_recent_def)
qed

section \<open>The device registry\<close>

text \<open>\<open>iterate\<close> is the unspecified iteration order of the \<open>std::unordered_map\<close>.\<close>

type_synonym DeviceRegistry = "string \<Rightarrow> bool option"

record DeviceStatus =
  ds_device_id :: string
  ds_online :: bool

definition set_status :: "DeviceRegistry \<Rightarrow> string \<Rightarrow> bool \<Rightarrow> DeviceRegistry" where
  "set_status r dev online = r(dev \<mapsto> online)"

definition status :: "DeviceRegistry \<Rightarrow> string \<Rightarrow> bool option" where
  "status r dev = r dev"

definition all_devices :: "(DeviceRegistry \<Rightarrow> string list) \<Rightarrow> DeviceRegistry \<Rightarrow> DeviceStatus list" where
  "all_devices iterate r = map (\<lambda>dev. \<lparr>ds_device_id = dev, ds_online = r dev = Some True\<rparr>) (iterate r)"

lemma set_status_run:
  "status (foldl (\<lambda>r (dev, b). set_status r dev b) r es) dev =
     (case map_of (rev es) dev of None \<Rightarrow> status r dev | Some b \<Rightarrow> Some b)"
  by (induction es arbitrary: r) (auto simp: set_status_def status_def map_add_def split: option.splits)

end
