(* ===== verification/SampleBuffer.thy ===== *)
theory SampleBuffer
  imports CoreTypes SlidingWindow
begin

text \<open>
  \<open>storage/ring_buffer.hpp\<close>: the fixed array of a series' most recent samples, written in a circle.
  Every index is computed with \<open>% capacity_\<close>, which is undefined for a capacity of zero; that
  case is \<open>None\<close>. The sizes stay far below \<open>2 ^ 63\<close> (they index an allocated vector), so the sums of
  two of them do not wrap.
\<close>

record 'a Sample =
  smp_timestamp :: time_point
  smp_value :: 'a

text \<open>\<open>blank\<close> is the value-initialised element the vector is built with.\<close>

record 'a RingBuffer =
  rb_capacity :: nat
  rb_data :: "'a Sample list"
  rb_write_index :: nat
  rb_size :: nat

definition RingBuffer_make :: "'a Sample \<Rightarrow> nat \<Rightarrow> 'a RingBuffer" where
  "RingBuffer_make blank c = \<lparr>rb_capacity = c, rb_data = replicate c blank, rb_write_index = 0, rb_size = 0\<rparr>"

definition rb_push :: "'a \<Rightarrow> time_point \<Rightarrow> 'a RingBuffer \<Rightarrow> 'a RingBuffer ub" where
  "rb_push v t b =
     (if rb_write_index b < length (rb_data b) \<and> rb_capacity b \<noteq> 0
      then Some (b\<lparr>rb_data := (rb_data b)[rb_write_index b := \<lparr>smp_timestamp = t, smp_value = v\<rparr>],
                   rb_write_index := (rb_write_index b + 1) mod rb_capacity b,
                   rb_size := (if rb_size b < rb_capacity b then rb_size b + 1 else rb_size b)\<rparr>)
      else None)"

definition rb_latest :: "'a RingBuffer \<Rightarrow> 'a Sample option ub" where
  "rb_latest b =
     (if rb_size b = 0 then Some None
      else if rb_capacity b = 0 then None
      else map_option Some (vec_at (rb_data b) ((rb_write_index b + rb_capacity b - 1) mod rb_capacity b)))"

text \<open>The copying loop of \<open>recent\<close>, from turn \<open>i\<close> on.\<close>

function rb_copy :: "'a RingBuffer \<Rightarrow> nat \<Rightarrow> nat \<Rightarrow> 'a Sample list ub" where
  "rb_copy b n i =
     (if i < n
      then if rb_capacity b = 0 then None
           else do {
             x \<leftarrow> vec_at (rb_data b) ((rb_write_index b + rb_capacity b - n + i) mod rb_capacity b);
             rest \<leftarrow> rb_copy b n (i + 1);
             Some (x # rest)
           }
      else Some [])"
  by pat_completeness auto
termination by (relation "measure (\<lambda>(b, n, i). n - i)") auto

declare rb_copy.simps [simp del]

definition rb_recent :: "nat \<Rightarrow> 'a RingBuffer \<Rightarrow> 'a Sample list ub" where
  "rb_recent n b = rb_copy b (min n (rb_size b)) 0"

section \<open>The contents\<close>

text \<open>Representation: the write index and size are the position and length of the last \<open>capacity\<close>
  samples of what was pushed.\<close>

definition rb_ok :: "'a RingBuffer \<Rightarrow> bool" where
  "rb_ok b \<longleftrightarrow> 0 < rb_capacity b \<and> length (rb_data b) = rb_capacity b \<and>
     rb_write_index b < rb_capacity b \<and> rb_size b \<le> rb_capacity b"

definition rb_contents :: "'a RingBuffer \<Rightarrow> 'a Sample list" where
  "rb_contents b = map (\<lambda>i. rb_data b ! ((rb_write_index b + rb_capacity b - rb_size b + i) mod rb_capacity b))
     [0..<rb_size b]"

lemma nth_rb_contents: "i < rb_size b \<Longrightarrow> rb_contents b ! i =
    rb_data b ! ((rb_write_index b + rb_capacity b - rb_size b + i) mod rb_capacity b)"
  by (simp add: rb_contents_def)

lemma length_rb_contents [simp]: "length (rb_contents b) = rb_size b"
  by (simp add: rb_contents_def)

lemma rb_copy_eq:
  assumes "rb_ok b"
  shows "rb_copy b n i = Some (map (\<lambda>i. rb_data b ! ((rb_write_index b + rb_capacity b - n + i) mod rb_capacity b)) [i..<n])"
  using assms
proof (induction b n i rule: rb_copy.induct)
  case (1 b n i)
  show ?case
  proof (cases "i < n")
    case True
    with 1 have "rb_copy b n (i + 1) =
        Some (map (\<lambda>i. rb_data b ! ((rb_write_index b + rb_capacity b - n + i) mod rb_capacity b)) [i + 1..<n])"
      by (auto simp: rb_ok_def)
    moreover have "[i..<n] = i # [i + 1..<n]" using True by (simp add: upt_conv_Cons)
    ultimately show ?thesis
      using True 1(2) by (subst rb_copy.simps) (simp add: rb_ok_def)
  qed (subst rb_copy.simps, simp)
qed

lemma rb_recent_contents:
  assumes "rb_ok b"
  shows "rb_recent n b = Some (last_n n (rb_contents b))"
proof -
  let ?m = "min n (rb_size b)" let ?c = "rb_capacity b" let ?w = "rb_write_index b"
  have le: "rb_size b \<le> ?w + ?c" using assms by (simp add: rb_ok_def)
  have "map (\<lambda>i. rb_data b ! ((?w + ?c - ?m + i) mod ?c)) [0..<?m] = last_n n (rb_contents b)"
  proof (rule nth_equalityI)
    fix i assume "i < length (map (\<lambda>i. rb_data b ! ((?w + ?c - ?m + i) mod ?c)) [0..<?m])"
    then have i: "i < ?m" by simp
    then have "?w + ?c - rb_size b + (rb_size b - ?m + i) = ?w + ?c - ?m + i" using le by linarith
    then have "rb_contents b ! (rb_size b - ?m + i) = rb_data b ! ((?w + ?c - ?m + i) mod ?c)"
    proof (subst nth_rb_contents)
      show "rb_size b - ?m + i < rb_size b" using i by linarith
    qed (simp only:)
    moreover have "last_n n (rb_contents b) ! i = rb_contents b ! (rb_size b - ?m + i)"
      using i by (subst nth_last_n) simp_all
    ultimately show "map (\<lambda>i. rb_data b ! ((?w + ?c - ?m + i) mod ?c)) [0..<?m] ! i = last_n n (rb_contents b) ! i"
      using i by simp
  qed simp
  then show ?thesis by (simp add: rb_recent_def rb_copy_eq [OF assms])
qed

lemma rb_push_Some: "rb_ok b \<Longrightarrow> \<exists>b'. rb_push v t b = Some b'"
  by (simp add: rb_push_def rb_ok_def)

lemma mod_window:
  fixes w c s i :: nat
  assumes "w < c" "s \<le> c" "i < s"
  shows "(w + c - s + i) mod c = (if s - i \<le> w then w - (s - i) else w + c - (s - i))"
proof (cases "s - i \<le> w")
  case True
  then have eq: "w + c - s + i = c + (w - (s - i))" using assms by linarith
  have "w - (s - i) < c" using assms by linarith
  then have "(c + (w - (s - i))) mod c = w - (s - i)" by (simp only: mod_add_self1 mod_less)
  then show ?thesis unfolding eq using True by simp
next
  case False
  then have eq: "w + c - s + i = w + c - (s - i)" and "w + c - (s - i) < c" using assms by linarith+
  then show ?thesis unfolding eq using False by simp
qed

lemma rb_push_contents:
  assumes ok: "rb_ok b" and p: "rb_push v t b = Some b'"
  shows "rb_ok b'" and "rb_capacity b' = rb_capacity b"
    and "rb_contents b' = last_n (rb_capacity b) (rb_contents b @ [\<lparr>smp_timestamp = t, smp_value = v\<rparr>])"
proof -
  let ?c = "rb_capacity b" let ?w = "rb_write_index b" let ?s = "rb_size b"
  let ?x = "\<lparr>smp_timestamp = t, smp_value = v\<rparr>"
  have b': "rb_data b' = (rb_data b)[?w := ?x]" "rb_write_index b' = (?w + 1) mod ?c" "rb_capacity b' = ?c"
    "rb_size b' = min ?c (?s + 1)"
    using ok p by (auto simp: rb_push_def rb_ok_def split: if_splits)
  show "rb_ok b'" "rb_capacity b' = ?c" using ok b' by (simp_all add: rb_ok_def)
  have w': "rb_write_index b' = (if ?w + 1 = ?c then 0 else ?w + 1)" using ok b'(2) by (auto simp: rb_ok_def)
  show "rb_contents b' = last_n ?c (rb_contents b @ [?x])"
  proof (rule nth_equalityI)
    show "length (rb_contents b') = length (last_n ?c (rb_contents b @ [?x]))"
      by (simp add: b')
    fix i assume "i < length (rb_contents b')"
    then have i: "i < min ?c (?s + 1)" by (simp add: b')
    let ?s' = "min ?c (?s + 1)"
    have idx: "rb_contents b' ! i = (rb_data b)[?w := ?x] ! ((rb_write_index b' + ?c - ?s' + i) mod ?c)"
      using i nth_rb_contents [of i b'] by (simp add: b')
    have r: "last_n ?c (rb_contents b @ [?x]) ! i = (rb_contents b @ [?x]) ! (?s + 1 - ?s' + i)"
      using i by (subst nth_last_n) (simp_all add: min.commute)
    have lt: "rb_write_index b' < ?c" "?s' \<le> ?c" using ok w' by (auto simp: rb_ok_def)
    show "rb_contents b' ! i = last_n ?c (rb_contents b @ [?x]) ! i"
    proof (cases "i = ?s' - 1")
      case True
      then have "(rb_write_index b' + ?c - ?s' + i) mod ?c = ?w"
        unfolding mod_window [OF lt i] using i ok w' by (auto simp: rb_ok_def)
      moreover have "?s + 1 - ?s' + i = ?s" using True i by (auto simp: min_def)
      ultimately show ?thesis using ok unfolding idx r by (simp add: nth_append rb_ok_def)
    next
      case False
      let ?j = "?s + 1 - ?s' + i"
      have j: "?j < ?s" using False i by (auto simp: min_def)
      have ws: "?w < ?c" "?s \<le> ?c" using ok by (simp_all add: rb_ok_def)
      have same: "(rb_write_index b' + ?c - ?s' + i) mod ?c = (?w + ?c - ?s + ?j) mod ?c"
        unfolding mod_window [OF lt i] mod_window [OF ws j] using False i ok w'
        by (auto simp: rb_ok_def min_def split: if_splits)
      have "(?w + ?c - ?s + ?j) mod ?c \<noteq> ?w"
        unfolding mod_window [OF ws j] using j ws by auto
      then show ?thesis using j unfolding idx r same by (simp add: nth_append nth_rb_contents)
    qed
  qed
qed

text \<open>The buffer as a sliding window; a push that is undefined leaves it.\<close>

definition rb_put :: "'a RingBuffer \<Rightarrow> 'a Sample \<Rightarrow> 'a RingBuffer" where
  "rb_put b x = (case rb_push (smp_value x) (smp_timestamp x) b of None \<Rightarrow> b | Some b' \<Rightarrow> b')"

lemma rb_put_push: "rb_ok b \<Longrightarrow> rb_push (smp_value x) (smp_timestamp x) b = Some (rb_put b x)"
  using rb_push_Some [of b "smp_value x" "smp_timestamp x"] by (auto simp: rb_put_def)

interpretation samples: sliding_window rb_put rb_contents rb_capacity rb_ok
proof (unfold_locales, goal_cases)
  case (1 s x)
  show ?case by (rule rb_push_contents(1) [OF 1 rb_put_push [OF 1]])
next
  case (2 s x)
  show ?case by (rule rb_push_contents(2) [OF 2 rb_put_push [OF 2]])
next
  case (3 s)
  then show ?case by (simp add: rb_contents_def rb_ok_def)
next
  case (4 s x)
  have "\<lparr>smp_timestamp = smp_timestamp x, smp_value = smp_value x\<rparr> = x" by simp
  with rb_push_contents(3) [OF 4 rb_put_push [OF 4, of x]] show ?case by (simp only:)
qed

definition rb_put_all :: "'a RingBuffer \<Rightarrow> 'a Sample list \<Rightarrow> 'a RingBuffer ub" where
  "rb_put_all b xs = foldl (\<lambda>b x. Option.bind b (rb_push (smp_value x) (smp_timestamp x))) (Some b) xs"

lemma rb_put_all_eq: "rb_ok b \<Longrightarrow> rb_put_all b xs = Some (foldl rb_put b xs)"
proof (induction xs arbitrary: b)
  case (Cons x xs)
  with rb_put_push [of b x] rb_push_contents(1) [of b "smp_value x" "smp_timestamp x" "rb_put b x"]
  show ?case by (simp add: rb_put_all_def)
qed (simp add: rb_put_all_def)

lemma rb_make_ok: "0 < c \<Longrightarrow> rb_ok (RingBuffer_make blank c) \<and> rb_contents (RingBuffer_make blank c) = []"
  by (simp add: rb_ok_def rb_contents_def RingBuffer_make_def)

lemma rb_latest_contents:
  assumes "rb_ok b"
  shows "rb_latest b = Some (if rb_contents b = [] then None else Some (last (rb_contents b)))"
proof (cases "rb_size b = 0")
  case True
  then show ?thesis by (simp add: rb_latest_def rb_contents_def)
next
  case False
  then obtain k where k: "rb_size b = Suc k" by (cases "rb_size b") auto
  have "rb_write_index b + rb_capacity b - Suc k + k = rb_write_index b + rb_capacity b - 1"
    using assms k by (simp add: rb_ok_def)
  with assms k show ?thesis by (simp add: rb_latest_def rb_contents_def rb_ok_def)
qed

text \<open>For a buffer of any positive capacity and any history of samples, no operation touches a
  slot outside the array; \<open>recent\<close> returns exactly the last samples pushed, oldest first, as many as
  asked for, held and kept; \<open>latest\<close> the last one, if there is one.\<close>

theorem ring_buffer_recent:
  assumes "0 < c"
  shows "\<exists>b. rb_put_all (RingBuffer_make blank c) xs = Some b \<and>
    rb_recent n b = Some (last_n (min n c) xs) \<and> rb_size b = min c (length xs) \<and>
    rb_latest b = Some (if xs = [] then None else Some (last xs))"
proof -
  note ok = rb_make_ok [OF assms, of blank]
  let ?b = "foldl rb_put (RingBuffer_make blank c) xs"
  have b: "rb_ok ?b" "rb_contents ?b = last_n c xs"
    using samples.history [of "RingBuffer_make blank c" xs] ok by (simp_all add: RingBuffer_make_def)
  have "rb_latest ?b = Some (if xs = [] then None else Some (last xs))"
  proof (cases "xs = []")
    case True
    then show ?thesis by (simp add: rb_latest_def RingBuffer_make_def)
  next
    case False
    then have "length xs - c < length xs" using assms by simp
    then show ?thesis using False by (simp add: rb_latest_contents [OF b(1)] b(2) last_n_def)
  qed
  moreover have "rb_size ?b = min c (length xs)"
    using arg_cong [OF b(2), of length] by (simp add: rb_contents_def)
  ultimately show ?thesis
    using ok by (intro exI [of _ ?b]) (simp add: rb_put_all_eq rb_recent_contents [OF b(1)] b(2))
qed

theorem ring_buffer_recent_witness:
  "\<exists>b. rb_put_all (RingBuffer_make \<lparr>smp_timestamp = 0, smp_value = 0\<rparr> 2)
      (map (\<lambda>i. \<lparr>smp_timestamp = 10, smp_value = i\<rparr>) [1, 2, 3 :: nat]) = Some b \<and>
    rb_recent 5 b = Some (map (\<lambda>i. \<lparr>smp_timestamp = 10, smp_value = i\<rparr>) [2, 3])"
proof -
  have "0 < (2 :: nat)" by simp
  from ring_buffer_recent [OF this, of "\<lparr>smp_timestamp = 0, smp_value = 0\<rparr>"
      "map (\<lambda>i. \<lparr>smp_timestamp = 10, smp_value = i\<rparr>) [1, 2, 3 :: nat]" 5]
  show ?thesis by (auto simp: last_n_def)
qed

end
