(* ===== verification/Wal.thy ===== *)
theory Wal
  imports SampleBuffer Text "HOL-Library.AList"
begin

text \<open>
  \<open>storage/wal_writer.hpp\<close> and \<open>retention_policy.hpp\<close>: the per-sensor write-ahead log. The directory
  is an association list from file names to contents, \<open>pending\<close> one from sensor ids to the records
  not yet written, both in an iteration order of their own. What reaches the disk is decided by the
  operating system: \<open>out\<close> maps the bytes of a write to the bytes that get into the file, \<open>None\<close> when
  the file cannot be opened; the code looks at neither. Millisecond counts are \<open>int64_t\<close>, read with
  \<open>sint\<close>; turning one into a time point overflows outside \<open>ms_to_tp\<close>'s range, which is undefined.
\<close>

section \<open>Records\<close>

record WalRecord =
  timestamp_ms :: u64
  w_value :: double

definition record_image :: "WalRecord \<Rightarrow> u8 list" where
  "record_image r = le_bytes 8 (timestamp_ms r) @ le_bytes 8 (w_value r)"

definition record_of :: "u8 list \<Rightarrow> WalRecord" where
  "record_of bs = \<lparr>timestamp_ms = of_le (take 8 bs), w_value = of_le (take 8 (drop 8 bs))\<rparr>"

definition images :: "WalRecord list \<Rightarrow> u8 list" where
  "images rs = concat (map record_image rs)"

definition ms_to_tp :: "int \<Rightarrow> time_point ub" where
  "ms_to_tp ms = (if - (2 ^ 63) \<le> ms * 1000000 \<and> ms * 1000000 < 2 ^ 63 then Some (ms * 1000000) else None)"

definition ns_since :: "time_point \<Rightarrow> time_point \<Rightarrow> int ub" where
  "ns_since now t = (if - (2 ^ 63) \<le> now - t \<and> now - t < 2 ^ 63 then Some (now - t) else None)"

text \<open>\<open>while (in.read(&record, sizeof(WalRecord)))\<close>: a partial record at the end is dropped.\<close>

fun records_in :: "nat \<Rightarrow> u8 list \<Rightarrow> WalRecord list" where
  "records_in 0 bs = []"
| "records_in (Suc fuel) bs =
     (if 16 \<le> length bs then record_of (take 16 bs) # records_in fuel (drop 16 bs) else [])"

definition read_all :: "u8 list option \<Rightarrow> WalRecord list" where
  "read_all file = (case file of None \<Rightarrow> [] | Some bs \<Rightarrow> records_in (length bs) bs)"

section \<open>The writer\<close>

type_synonym dir = "(string \<times> u8 list) list"

record WalWriter =
  flush_batch_size :: nat
  pending :: "(string \<times> WalRecord list) list"
  wal_files :: dir

definition WalWriter_make :: "nat \<Rightarrow> dir \<Rightarrow> WalWriter" where
  "WalWriter_make n d = \<lparr>flush_batch_size = n, pending = [], wal_files = d\<rparr>"

definition file_for :: "string \<Rightarrow> string" where
  "file_for sid = sid @ ''.wal''"

definition pending_of :: "WalWriter \<Rightarrow> string \<Rightarrow> WalRecord list" where
  "pending_of w sid = (case map_of (pending w) sid of None \<Rightarrow> [] | Some rs \<Rightarrow> rs)"

definition contents_of :: "dir \<Rightarrow> string \<Rightarrow> u8 list" where
  "contents_of d name = (case map_of d name of None \<Rightarrow> [] | Some bs \<Rightarrow> bs)"

type_synonym os_write = "u8 list \<Rightarrow> u8 list option"

definition flush_locked :: "os_write \<Rightarrow> string \<Rightarrow> WalRecord list \<Rightarrow> WalWriter \<Rightarrow> WalWriter" where
  "flush_locked out sid buffer w =
     w\<lparr>wal_files := (case out (images buffer) of None \<Rightarrow> wal_files w
          | Some bs \<Rightarrow> AList.update (file_for sid) (contents_of (wal_files w) (file_for sid) @ bs) (wal_files w)),
       pending := AList.update sid [] (pending w)\<rparr>"

definition append_record :: "os_write \<Rightarrow> string \<Rightarrow> double \<Rightarrow> time_point \<Rightarrow> WalWriter \<Rightarrow> WalWriter" where
  "append_record out sid v t w =
     (let buffer = pending_of w sid @ [\<lparr>timestamp_ms = of_int (to_ms t), w_value = v\<rparr>];
          w = w\<lparr>pending := AList.update sid buffer (pending w)\<rparr>
      in if flush_batch_size w \<le> length buffer then flush_locked out sid buffer w else w)"

definition flush_one :: "os_write \<Rightarrow> WalWriter \<Rightarrow> string \<Rightarrow> WalWriter" where
  "flush_one out w sid = (if pending_of w sid \<noteq> [] then flush_locked out sid (pending_of w sid) w else w)"

definition flush_all :: "os_write \<Rightarrow> WalWriter \<Rightarrow> WalWriter" where
  "flush_all out w = foldl (flush_one out) w (map fst (pending w))"

definition read_since :: "os_write \<Rightarrow> string \<Rightarrow> time_point \<Rightarrow> WalWriter \<Rightarrow> WalWriter \<times> double Sample list ub" where
  "read_since out sid since w =
     (let w = flush_one out w sid;
          rs = filter (\<lambda>r. to_ms since \<le> sint (timestamp_ms r)) (read_all (map_of (wal_files w) (file_for sid)))
      in (w, those (map (\<lambda>r. map_option (\<lambda>t. \<lparr>smp_timestamp = t, smp_value = w_value r\<rparr>)
                 (ms_to_tp (sint (timestamp_ms r)))) rs)))"

section \<open>Pruning\<close>

text \<open>Outcomes of rewriting a file: whether the temporary file is written and whether the rename
  works. \<open>path::extension()\<close> of a name that is only \<open>.wal\<close> is empty.\<close>

record Prune =
  tmp_ok :: "string \<Rightarrow> bool"
  rename_ok :: "string \<Rightarrow> bool"

definition good_prune :: Prune where
  "good_prune = \<lparr>tmp_ok = \<lambda>_. True, rename_ok = \<lambda>_. True\<rparr>"

definition is_wal_name :: "string \<Rightarrow> bool" where
  "is_wal_name name \<longleftrightarrow> ends_with name ''.wal'' \<and> name \<noteq> ''.wal''"

definition prune_file :: "Prune \<Rightarrow> int \<Rightarrow> nat \<times> dir \<Rightarrow> string \<Rightarrow> nat \<times> dir" where
  "prune_file io cutoff_ms = (\<lambda>(removed, d) name.
     if \<not> is_wal_name name then (removed, d)
     else let rs = read_all (map_of d name); kept = filter (\<lambda>r. cutoff_ms \<le> sint (timestamp_ms r)) rs
       in if length kept = length rs then (removed, d)
          else if \<not> tmp_ok io name then (removed, AList.delete (name @ ''.tmp'') d)
          else if rename_ok io name
          then (removed + (length rs - length kept), AList.update name (images kept) (AList.delete (name @ ''.tmp'') d))
          else (removed, AList.update (name @ ''.tmp'') (images kept) d))"

definition prune_older_than ::
  "os_write \<Rightarrow> Prune \<Rightarrow> time_point \<Rightarrow> int \<Rightarrow> WalWriter \<Rightarrow> (nat \<times> WalWriter) ub" where
  "prune_older_than out io now max_age_ms w =
     (let w = flush_all out w in
      case ms_to_tp max_age_ms of None \<Rightarrow> None
      | Some age \<Rightarrow>
        let (removed, d) = foldl (prune_file io (to_ms (now - age))) (0, wal_files w) (map fst (wal_files w))
        in Some (removed, w\<lparr>wal_files := d\<rparr>))"

text \<open>\<open>RetentionPolicy::prune\<close> on one file, when the file system does as asked: the number kept and the
  directory left. \<open>is_old\<close> is the test \<open>now - ts > max_age\<close>.\<close>

definition is_old :: "time_point \<Rightarrow> int \<Rightarrow> WalRecord \<Rightarrow> bool ub" where
  "is_old now max_age_ms r = do {
     t \<leftarrow> ms_to_tp (sint (timestamp_ms r));
     d \<leftarrow> ns_since now t;
     age \<leftarrow> ms_to_tp max_age_ms;
     Some (age < d)
   }"

fun keep_recent :: "time_point \<Rightarrow> int \<Rightarrow> WalRecord list \<Rightarrow> WalRecord list ub" where
  "keep_recent now max_age_ms [] = Some []"
| "keep_recent now max_age_ms (r # rs) = do {
     old \<leftarrow> is_old now max_age_ms r;
     kept \<leftarrow> keep_recent now max_age_ms rs;
     Some (if old then kept else r # kept)
   }"

definition retention_prune :: "time_point \<Rightarrow> int \<Rightarrow> string \<Rightarrow> dir \<Rightarrow> (nat \<times> dir) ub" where
  "retention_prune now max_age_ms name d =
     (let rs = read_all (map_of d name) in
      map_option (\<lambda>kept. (length kept, if length kept = length rs then d
           else AList.update name (images kept) (AList.delete (name @ ''.tmp'') d)))
        (keep_recent now max_age_ms rs))"

section \<open>Replay\<close>

definition replay_one :: "time_point \<Rightarrow> int option \<Rightarrow> WalRecord \<Rightarrow> double RingBuffer \<Rightarrow> double RingBuffer ub" where
  "replay_one now max_age_ms r b = do {
     t \<leftarrow> ms_to_tp (sint (timestamp_ms r));
     skip \<leftarrow> (case max_age_ms of None \<Rightarrow> Some False | Some age \<Rightarrow> is_old now age r);
     if skip then Some b else rb_push (w_value r) t b
   }"

definition replay_into ::
  "time_point \<Rightarrow> int option \<Rightarrow> u8 list option \<Rightarrow> double RingBuffer \<Rightarrow> double RingBuffer ub" where
  "replay_into now max_age_ms file b =
     foldl (\<lambda>b r. Option.bind b (replay_one now max_age_ms r)) (Some b) (read_all file)"

section \<open>Reading back what was written\<close>

lemma length_record_image [simp]: "length (record_image r) = 16"
  by (simp add: record_image_def)

lemma record_of_image: "record_of (record_image r) = r"
  by (simp add: record_of_def record_image_def of_le_le_bytes)

lemma record_image_of:
  assumes "length g = 16"
  shows "record_image (record_of g) = g"
proof -
  have "le_bytes (length bs) (of_le bs :: u64) = bs" if "length bs = 8" for bs
    using that by (intro le_bytes_of_le) simp
  from this [of "take 8 g"] this [of "drop 8 g"] assms
  have "le_bytes 8 (of_le (take 8 g) :: u64) @ le_bytes 8 (of_le (drop 8 g) :: u64) = g" by simp
  moreover have "take 8 (drop 8 g) = drop 8 g" using assms by simp
  ultimately show ?thesis by (simp only: record_image_def record_of_def WalRecord.select_convs)
qed

lemma records_in_append: "length rs \<le> fuel \<Longrightarrow> length frag < 16 \<Longrightarrow> records_in fuel (images rs @ frag) = rs"
proof (induction rs arbitrary: fuel)
  case Nil
  then show ?case by (cases fuel) (auto simp: images_def)
next
  case (Cons r rs)
  then obtain k where "fuel = Suc k" by (cases fuel) auto
  with Cons show ?case by (simp add: images_def record_of_image)
qed

lemma length_images: "length (images rs) = 16 * length rs"
  unfolding images_def by (rule length_concat_map_const) simp

lemma read_all_images: "length frag < 16 \<Longrightarrow> read_all (Some (images rs @ frag)) = rs"
  by (simp add: read_all_def records_in_append length_images)

lemma images_append [simp]: "images (xs @ ys) = images xs @ images ys"
  by (simp add: images_def)

lemma images_Nil [simp]: "images [] = []" by (simp add: images_def)

lemma file_for_inject [simp]: "file_for a = file_for b \<longleftrightarrow> a = b"
  by (simp add: file_for_def)

section \<open>The log of a sensor\<close>

text \<open>What is logged for a sensor: the records of its file, then the pending ones. Files are whole
  records (\<open>aligned\<close>) as long as every write got through.\<close>

definition aligned :: "WalWriter \<Rightarrow> bool" where
  "aligned w \<longleftrightarrow> (\<forall>sid. \<exists>rs. contents_of (wal_files w) (file_for sid) = images rs)"

definition log_of :: "WalWriter \<Rightarrow> string \<Rightarrow> WalRecord list" where
  "log_of w sid = read_all (Some (contents_of (wal_files w) (file_for sid))) @ pending_of w sid"

lemma read_all_contents: "read_all (map_of d name) = read_all (Some (contents_of d name))"
  by (simp add: read_all_def contents_of_def split: option.splits)

lemma read_all_images' [simp]: "read_all (Some (images rs)) = rs"
  using read_all_images [of "[]" rs] by simp

lemma flush_locked_log:
  assumes "aligned w"
  shows "aligned (flush_locked Some sid rs w)" and
    "log_of (flush_locked Some sid rs w) sid' =
      (if sid' = sid then read_all (Some (contents_of (wal_files w) (file_for sid))) @ rs else log_of w sid')"
    and "pending_of (flush_locked Some sid rs w) sid' = (if sid' = sid then [] else pending_of w sid')"
    and "map fst (pending (flush_locked Some sid rs w)) =
      map fst (pending w) @ (if sid \<in> fst ` set (pending w) then [] else [sid])"
proof -
  let ?w = "flush_locked Some sid rs w"
  have c: "contents_of (wal_files ?w) (file_for a) =
      contents_of (wal_files w) (file_for a) @ (if a = sid then images rs else [])" for a
    by (simp add: flush_locked_def contents_of_def update_conv')
  obtain old where old: "\<And>a. contents_of (wal_files w) (file_for a) = images (old a)"
    using assms unfolding aligned_def by metis
  show "aligned ?w" unfolding aligned_def c old by (metis images_append images_Nil append_Nil2)
  show p: "pending_of ?w sid' = (if sid' = sid then [] else pending_of w sid')" for sid'
    by (simp add: flush_locked_def pending_of_def update_conv')
  show "log_of ?w sid' =
      (if sid' = sid then read_all (Some (contents_of (wal_files w) (file_for sid))) @ rs else log_of w sid')"
    by (simp add: log_of_def p c old flip: images_append)
  show "map fst (pending ?w) = map fst (pending w) @ (if sid \<in> fst ` set (pending w) then [] else [sid])"
    by (simp add: flush_locked_def update_keys)
qed

lemma append_record_log:
  assumes "aligned w"
  shows "aligned (append_record Some sid v t w)" and
    "log_of (append_record Some sid v t w) sid' =
      log_of w sid' @ (if sid' = sid then [\<lparr>timestamp_ms = of_int (to_ms t), w_value = v\<rparr>] else [])"
proof -
  define r where "r = \<lparr>timestamp_ms = of_int (to_ms t), w_value = v\<rparr>"
  define w' where "w' = w\<lparr>pending := AList.update sid (pending_of w sid @ [r]) (pending w)\<rparr>"
  have a: "aligned w'" using assms by (simp add: aligned_def w'_def)
  have p: "pending_of w' s = (if s = sid then pending_of w s @ [r] else pending_of w s)" for s
    by (simp add: pending_of_def w'_def update_conv')
  then have l: "log_of w' s = log_of w s @ (if s = sid then [r] else [])" for s
    by (simp add: log_of_def) (simp add: w'_def)
  have "append_record Some sid v t w =
      (if flush_batch_size w \<le> length (pending_of w' sid) then flush_locked Some sid (pending_of w' sid) w' else w')"
  proof -
    have "pending_of w' sid = pending_of w sid @ [r]" "flush_batch_size w' = flush_batch_size w"
      by (simp add: p) (simp add: w'_def)
    then show ?thesis
      unfolding append_record_def Let_def r_def [symmetric] w'_def [symmetric] by (simp only:)
  qed
  moreover have "log_of (flush_locked Some sid (pending_of w' sid) w') sid' = log_of w' sid'"
    using flush_locked_log(2) [OF a] by (simp add: log_of_def)
  ultimately have "aligned (append_record Some sid v t w)"
    "log_of (append_record Some sid v t w) sid' = log_of w' sid'"
    using a flush_locked_log(1) [OF a] by simp_all
  then show "aligned (append_record Some sid v t w)"
    "log_of (append_record Some sid v t w) sid' =
      log_of w sid' @ (if sid' = sid then [\<lparr>timestamp_ms = of_int (to_ms t), w_value = v\<rparr>] else [])"
    by (simp_all only: l r_def)
qed

lemma flush_one_log:
  assumes "aligned w"
  shows "aligned (flush_one Some w sid) \<and> log_of (flush_one Some w sid) sid' = log_of w sid' \<and>
    pending_of (flush_one Some w sid) sid' = (if sid' = sid then [] else pending_of w sid')"
  using flush_locked_log [OF assms, of sid "pending_of w sid"] assms
  by (auto simp: flush_one_def log_of_def)

lemma flush_all_log:
  assumes "aligned w"
  shows "aligned (flush_all Some w) \<and> log_of (flush_all Some w) sid = log_of w sid \<and>
    pending_of (flush_all Some w) sid = []"
proof -
  have "aligned (foldl (flush_one Some) w ids) \<and> log_of (foldl (flush_one Some) w ids) sid = log_of w sid \<and>
    pending_of (foldl (flush_one Some) w ids) sid = (if sid \<in> set ids then [] else pending_of w sid)"
    if "aligned w" for ids and w
    using that
  proof (induction ids arbitrary: w)
    case (Cons i ids)
    have "aligned (flush_one Some w i)" "log_of (flush_one Some w i) sid = log_of w sid"
      "pending_of (flush_one Some w i) sid = (if sid = i then [] else pending_of w sid)"
      using flush_one_log [OF Cons.prems, of i sid] by blast+
    with Cons.IH [of "flush_one Some w i"] show ?case by (cases "sid = i") simp_all
  qed simp
  moreover have "pending_of w sid = []" if "sid \<notin> set (map fst (pending w))"
    using that by (simp add: pending_of_def flip: map_of_eq_None_iff)
  ultimately show ?thesis using assms by (auto simp: flush_all_def)
qed

lemma read_since_log:
  assumes "aligned w"
  shows "aligned (fst (read_since Some sid since w)) \<and> log_of (fst (read_since Some sid since w)) sid' = log_of w sid'"
    and "snd (read_since Some sid since w) =
      those (map (\<lambda>r. map_option (\<lambda>t. \<lparr>smp_timestamp = t, smp_value = w_value r\<rparr>) (ms_to_tp (sint (timestamp_ms r))))
        (filter (\<lambda>r. to_ms since \<le> sint (timestamp_ms r)) (log_of w sid)))"
proof -
  note f = flush_one_log [OF assms, of sid]
  show "aligned (fst (read_since Some sid since w)) \<and> log_of (fst (read_since Some sid since w)) sid' = log_of w sid'"
    using f by (simp add: read_since_def Let_def)
  have "read_all (Some (contents_of (wal_files (flush_one Some w sid)) (file_for sid))) = log_of w sid"
    using f [of sid] by (clarsimp simp: log_of_def)
  then show "snd (read_since Some sid since w) =
      those (map (\<lambda>r. map_option (\<lambda>t. \<lparr>smp_timestamp = t, smp_value = w_value r\<rparr>) (ms_to_tp (sint (timestamp_ms r))))
        (filter (\<lambda>r. to_ms since \<le> sint (timestamp_ms r)) (log_of w sid)))"
    by (simp add: read_since_def Let_def read_all_contents)
qed

section \<open>Histories\<close>

datatype wal_op = Append string double time_point | FlushAll | ReadSince string time_point

fun wal_do :: "WalWriter \<Rightarrow> wal_op \<Rightarrow> WalWriter" where
  "wal_do w (Append sid v t) = append_record Some sid v t w"
| "wal_do w FlushAll = flush_all Some w"
| "wal_do w (ReadSince sid since) = fst (read_since Some sid since w)"

fun appended :: "string \<Rightarrow> wal_op list \<Rightarrow> WalRecord list" where
  "appended sid [] = []"
| "appended sid (Append sid' v t # ops) =
     (if sid' = sid then [\<lparr>timestamp_ms = of_int (to_ms t), w_value = v\<rparr>] else []) @ appended sid ops"
| "appended sid (_ # ops) = appended sid ops"

lemma wal_run_log:
  "aligned w \<Longrightarrow> aligned (foldl wal_do w ops) \<and> log_of (foldl wal_do w ops) sid = log_of w sid @ appended sid ops"
proof (induction ops arbitrary: w)
  case (Cons op ops)
  have "aligned (wal_do w op) \<and> log_of (wal_do w op) sid = log_of w sid @ appended sid [op]"
    using Cons.prems append_record_log [OF Cons.prems] flush_all_log [OF Cons.prems, of sid] read_since_log(1) [OF Cons.prems]
    by (cases op) auto
  moreover have "appended sid (op # ops) = appended sid [op] @ appended sid ops" by (cases op) auto
  ultimately show ?case using Cons.IH [of "wal_do w op"] by simp
qed simp

lemma sint_to_ms: "\<bar>t\<bar> < 2 ^ 63 \<Longrightarrow> sint (of_int (to_ms t) :: u64) = to_ms t \<and> ms_to_tp (to_ms t) = Some (to_ms t * 1000000)"
proof -
  assume t: "\<bar>t\<bar> < 2 ^ 63"
  have "\<bar>t\<bar> div 1000000 * 1000000 \<le> \<bar>t\<bar>" by simp
  then have b: "\<bar>to_ms t\<bar> * 1000000 \<le> \<bar>t\<bar>"
    by (auto simp: to_ms_def abs_mult sgn_if pos_imp_zdiv_nonneg_iff)
  then have "\<bar>to_ms t\<bar> < 2 ^ 63" "\<bar>to_ms t * 1000000\<bar> < 2 ^ 63" using t by (simp_all add: abs_mult)
  then show ?thesis
    by (auto simp: ms_to_tp_def signed_of_int signed_take_bit_int_eq_self abs_less_iff)
qed

text \<open>A restart: the files of one run, whole or cut by a crash, are what the next one starts from.\<close>

lemma make_log:
  assumes "\<And>sid. contents_of d (file_for sid) = images (old sid)"
  shows "aligned (WalWriter_make n d)" and "log_of (WalWriter_make n d) sid = old sid"
  using assms by (auto simp: aligned_def WalWriter_make_def log_of_def pending_of_def)

lemma those_map_Some: "(\<And>x. x \<in> set xs \<Longrightarrow> f x = Some (g x)) \<Longrightarrow> those (map f xs) = Some (map g xs)"
  by (induction xs) auto

definition sane :: "WalRecord \<Rightarrow> bool" where
  "sane r \<longleftrightarrow> ms_to_tp (sint (timestamp_ms r)) = Some (sint (timestamp_ms r) * 1000000)"

definition sample_of :: "WalRecord \<Rightarrow> double Sample" where
  "sample_of r = \<lparr>smp_timestamp = sint (timestamp_ms r) * 1000000, smp_value = w_value r\<rparr>"

fun op_sane :: "wal_op \<Rightarrow> bool" where
  "op_sane (Append _ _ t) \<longleftrightarrow> \<bar>t\<bar> < 2 ^ 63"
| "op_sane _ \<longleftrightarrow> True"

lemma appended_sane: "\<forall>op \<in> set ops. op_sane op \<Longrightarrow> \<forall>r \<in> set (appended sid ops). sane r"
proof (induction ops)
  case (Cons op ops)
  then show ?case by (cases op) (auto simp: sane_def sint_to_ms)
qed simp

section \<open>What pruning keeps\<close>

lemma length_filter_all: "length (filter P xs) = length xs \<Longrightarrow> filter P xs = xs"
  using length_filter_less [of _ xs P] by (intro filter_True) auto

lemma prune_file_reads:
  assumes "is_wal_name n"
  shows "read_all (map_of (snd (prune_file good_prune c kd name)) n) =
    (if n = name then filter (\<lambda>r. c \<le> sint (timestamp_ms r)) (read_all (map_of (snd kd) n)) else read_all (map_of (snd kd) n))"
proof -
  have tmp: "n \<noteq> name @ ''.tmp''" using assms by (auto simp: is_wal_name_def ends_with_iff)
  show ?thesis
    using assms tmp length_filter_all [of "\<lambda>r. c \<le> sint (timestamp_ms r)" "read_all (map_of (snd kd) n)"]
    by (auto simp: prune_file_def good_prune_def Let_def case_prod_beta update_conv' delete_conv')
qed

lemma prune_run_reads:
  assumes "is_wal_name n"
  shows "read_all (map_of (snd (foldl (prune_file good_prune c) kd names)) n) =
    (if n \<in> set names then filter (\<lambda>r. c \<le> sint (timestamp_ms r)) (read_all (map_of (snd kd) n))
     else read_all (map_of (snd kd) n))"
proof (induction names arbitrary: kd)
  case (Cons m names)
  show ?case using prune_file_reads [OF assms, of c kd m] Cons.IH [of "prune_file good_prune c kd m"]
    by (cases "n = m") simp_all
qed simp

lemma prune_file_aligned:
  "(\<exists>rs. contents_of (snd kd) (file_for sid) = images rs) \<Longrightarrow>
    \<exists>rs. contents_of (snd (prune_file good_prune c kd name)) (file_for sid) = images rs"
proof -
  assume a: "\<exists>rs. contents_of (snd kd) (file_for sid) = images rs"
  have "file_for sid \<noteq> name @ ''.tmp''" by (simp add: file_for_def append_eq_append_conv2 append_eq_Cons_conv)
  with a show ?thesis
    by (auto simp: prune_file_def good_prune_def Let_def case_prod_beta contents_of_def update_conv' delete_conv')
qed

lemma prune_run_aligned:
  "(\<exists>rs. contents_of (snd kd) (file_for sid) = images rs) \<Longrightarrow>
    \<exists>rs. contents_of (snd (foldl (prune_file good_prune c) kd names)) (file_for sid) = images rs"
proof (induction names arbitrary: kd)
  case (Cons m names)
  from Cons.IH [OF prune_file_aligned [OF Cons.prems]] show ?case by simp
qed simp

lemma prune_log:
  assumes "aligned w" "ms_to_tp age_ms = Some age"
  shows "\<exists>k w'. prune_older_than Some good_prune now age_ms w = Some (k, w') \<and> aligned w' \<and>
    (\<forall>sid. sid \<noteq> [] \<longrightarrow> log_of w' sid = filter (\<lambda>r. to_ms (now - age) \<le> sint (timestamp_ms r)) (log_of w sid))"
proof -
  let ?f = "flush_all Some w" let ?c = "to_ms (now - age)"
  let ?kd = "foldl (prune_file good_prune ?c) (0, wal_files ?f) (map fst (wal_files ?f))"
  let ?w = "?f\<lparr>wal_files := snd ?kd\<rparr>"
  have f: "aligned ?f" "log_of ?f sid = log_of w sid" "pending_of ?f sid = []" for sid
    using flush_all_log [OF assms(1)] by blast+
  have "aligned ?w" using f(1) prune_run_aligned [of "(0, wal_files ?f)"] by (simp add: aligned_def)
  moreover have "log_of ?w sid = filter (\<lambda>r. ?c \<le> sint (timestamp_ms r)) (log_of w sid)" if "sid \<noteq> []" for sid
  proof -
    have n: "is_wal_name (file_for sid)" using that by (simp add: is_wal_name_def file_for_def ends_with_iff)
    have "read_all (map_of (wal_files ?f) (file_for sid)) = log_of w sid"
      using f(2,3) [of sid] by (simp add: log_of_def read_all_contents)
    moreover have "read_all (map_of (wal_files ?f) (file_for sid)) = []"
      if "file_for sid \<notin> set (map fst (wal_files ?f))"
      using that by (simp add: read_all_def flip: map_of_eq_None_iff)
    moreover have "log_of ?w sid = read_all (map_of (snd ?kd) (file_for sid))"
      using f(3) [of sid] by (simp add: log_of_def read_all_contents pending_of_def)
    ultimately show ?thesis using prune_run_reads [OF n, of ?c "(0, wal_files ?f)" "map fst (wal_files ?f)"]
      by (auto split: if_splits)
  qed
  moreover have "prune_older_than Some good_prune now age_ms w = Some (fst ?kd, ?w)"
    by (simp add: prune_older_than_def assms(2) Let_def case_prod_beta)
  ultimately show ?thesis by blast
qed

section \<open>Properties\<close>

text \<open>The log loses nothing that the disk took and mixes nothing up: after a restart on files of
  whole records, any sequence of appends, flushes and queries, with any batch size, a query returns
  for its sensor exactly the old records and the appended samples since the given time, oldest first,
  with times cut to milliseconds - pending ones included, other sensors' never.\<close>

theorem wal_read_since:
  assumes "\<And>sid. contents_of d (file_for sid) = images (old sid)"
    and "\<forall>r \<in> set (old sid). sane r" and "\<forall>op \<in> set ops. op_sane op"
  shows "snd (read_since Some sid since (foldl wal_do (WalWriter_make n d) ops)) =
    Some (map sample_of (filter (\<lambda>r. to_ms since \<le> sint (timestamp_ms r)) (old sid @ appended sid ops)))"
proof -
  have w: "aligned (foldl wal_do (WalWriter_make n d) ops)"
    "log_of (foldl wal_do (WalWriter_make n d) ops) sid = old sid @ appended sid ops"
    using wal_run_log [OF make_log(1) [of d old n], of ops sid] make_log(2) [of d old n sid] assms(1) by auto
  have "\<forall>r \<in> set (old sid @ appended sid ops). sane r"
    using appended_sane [OF assms(3), of sid] assms(2) by auto
  then show ?thesis
    unfolding read_since_log(2) [OF w(1)] w(2)
    by (intro those_map_Some) (auto simp: sane_def sample_of_def)
qed

definition demo_ops :: "wal_op list" where
  "demo_ops = [Append ''a'' 1 5000000, Append ''b'' 2 6000000, ReadSince ''a'' 0, Append ''a'' 3 7999999]"

theorem wal_read_since_witness:
  "snd (read_since Some ''a'' 6000000 (foldl wal_do (WalWriter_make 2 []) demo_ops)) =
     Some [\<lparr>smp_timestamp = 7000000, smp_value = 3\<rparr>]"
proof -
  have ops: "\<forall>op \<in> set demo_ops. op_sane op" by (simp add: demo_ops_def)
  have "snd (read_since Some ''a'' 6000000 (foldl wal_do (WalWriter_make 2 []) demo_ops)) =
      Some (map sample_of (filter (\<lambda>r. to_ms 6000000 \<le> sint (timestamp_ms r)) ([] @ appended ''a'' demo_ops)))"
    by (rule wal_read_since [where old = "\<lambda>_. []", OF _ _ ops]) (simp_all add: contents_of_def)
  then show ?thesis by (simp add: demo_ops_def sample_of_def to_ms_def)
qed

text \<open>C31. A torn record poisons what follows. If a crash left a fragment of a record at the end of a
  file, the first record written after the restart is not read back: the reader glues its beginning
  to the fragment and gets a record that was never written, with the fragment for its first bytes.\<close>

theorem wal_torn_tail_misread:
  assumes "contents_of d (file_for sid) = images old @ frag" "0 < length frag" "length frag < 16"
  shows "\<exists>r'. read_all (map_of (wal_files (flush_locked Some sid [r] (WalWriter_make n d))) (file_for sid)) = old @ [r'] \<and>
    record_image r' = frag @ take (16 - length frag) (record_image r)"
proof -
  let ?g = "frag @ take (16 - length frag) (record_image r)"
  have g: "length ?g = 16" using assms by simp
  define r' where "r' = record_of ?g"
  have im: "record_image r' = ?g" unfolding r'_def by (rule record_image_of [OF g])
  let ?rest = "drop (16 - length frag) (record_image r)"
  have "contents_of (wal_files (flush_locked Some sid [r] (WalWriter_make n d))) (file_for sid) =
      images old @ frag @ record_image r"
    using assms(1) by (simp add: flush_locked_def contents_of_def update_conv' WalWriter_make_def images_def)
  also have "\<dots> = images (old @ [r']) @ ?rest" by (simp add: images_def im)
  finally have "read_all (map_of (wal_files (flush_locked Some sid [r] (WalWriter_make n d))) (file_for sid)) = old @ [r']"
    using assms(2,3) by (simp only: read_all_contents read_all_images length_drop length_record_image)
  with im show ?thesis by blast
qed

theorem wal_torn_tail_misread_witness:
  "\<exists>r'. read_all (map_of (wal_files (flush_locked Some ''a'' [\<lparr>timestamp_ms = 7, w_value = 0\<rparr>]
       (WalWriter_make 1 [(''a.wal'', [9, 9, 9])]))) (file_for ''a'')) = [r'] \<and> timestamp_ms r' \<noteq> 7"
proof -
  have "contents_of [(''a.wal'', [9, 9, 9])] (file_for ''a'') = images [] @ [9, 9, 9]"
    "0 < length [9 :: u8, 9, 9]" "length [9 :: u8, 9, 9] < 16"
    by (simp_all add: contents_of_def file_for_def)
  from wal_torn_tail_misread [OF this, of "\<lparr>timestamp_ms = 7, w_value = 0\<rparr>" 1] obtain r' where
    r': "read_all (map_of (wal_files (flush_locked Some ''a'' [\<lparr>timestamp_ms = 7, w_value = 0\<rparr>]
       (WalWriter_make 1 [(''a.wal'', [9, 9, 9])]))) (file_for ''a'')) = [] @ [r']"
    "record_image r' = [9, 9, 9] @ take (16 - length [9 :: u8, 9, 9]) (record_image \<lparr>timestamp_ms = 7, w_value = 0\<rparr>)" by blast
  have "timestamp_ms r' \<noteq> 7"
  proof
    assume "timestamp_ms r' = 7"
    have eight: "(8 :: nat) = Suc 7" by simp
    have "hd (record_image r') = ucast (timestamp_ms r')"
      unfolding record_image_def eight le_bytes.simps(2) by simp
    with \<open>timestamp_ms r' = 7\<close> have "hd (record_image r') = 7" by simp
    with r'(2) show False by simp
  qed
  with r'(1) show ?thesis by simp
qed

text \<open>Pruning keeps, for every sensor, exactly the records (pending ones included) whose
  timestamp is within the given age, in order, and leaves files of whole records. It is undefined
  only for an age beyond the range of nanosecond time points.\<close>

theorem prune_keeps_recent:
  assumes "\<And>sid. contents_of d (file_for sid) = images (old sid)" "ms_to_tp age_ms = Some age" "sid \<noteq> []"
  shows "\<exists>k w'. prune_older_than Some good_prune now age_ms (foldl wal_do (WalWriter_make n d) ops) = Some (k, w') \<and>
    aligned w' \<and> log_of w' sid =
      filter (\<lambda>r. to_ms (now - age) \<le> sint (timestamp_ms r)) (old sid @ appended sid ops)"
proof -
  have w: "aligned (foldl wal_do (WalWriter_make n d) ops)"
    "log_of (foldl wal_do (WalWriter_make n d) ops) sid = old sid @ appended sid ops"
    using wal_run_log [OF make_log(1) [of d old n], of ops sid] make_log(2) [of d old n sid] assms(1) by auto
  from prune_log [OF w(1) assms(2), of now] assms(3) show ?thesis unfolding w(2) [symmetric] by blast
qed

theorem prune_keeps_recent_witness:
  "\<exists>k w'. prune_older_than Some good_prune 8000000 2 (foldl wal_do (WalWriter_make 2 []) demo_ops) = Some (k, w') \<and>
     log_of w' ''a'' = [\<lparr>timestamp_ms = 7, w_value = 3\<rparr>]"
proof -
  have "contents_of [] (file_for sid) = images ((\<lambda>_. []) sid)" for sid by (simp add: contents_of_def)
  moreover have "ms_to_tp 2 = Some 2000000" by (simp add: ms_to_tp_def)
  ultimately show ?thesis
    using prune_keeps_recent [of "[]" "\<lambda>_. []" 2 2000000 "''a''" 8000000 2 demo_ops]
    by (auto simp: demo_ops_def to_ms_def)
qed

end
