(* ===== verification/SeriesStore.thy ===== *)
theory SeriesStore
  imports Wal
begin

text \<open>
  \<open>storage/series_store.hpp\<close>: the registry of series buffers, with the write-ahead log behind it when
  the store was constructed with one. The clock is an argument of the operations that read it. A
  missing \<open>wal_\<close> is \<open>None\<close>; the writer is shared with the flush timer, whose \<open>flush_all\<close> and
  \<open>prune_older_than\<close> act on the same component of the state.
\<close>

record SeriesStore =
  default_capacity :: nat
  series :: "string \<Rightarrow> double RingBuffer option"
  wal :: "WalWriter option"
  replay_max_age :: "int option" \<comment> \<open>milliseconds\<close>

definition SeriesStore_make :: "nat \<Rightarrow> WalWriter option \<Rightarrow> int option \<Rightarrow> SeriesStore" where
  "SeriesStore_make c w age = \<lparr>default_capacity = c, series = Map.empty, wal = w, replay_max_age = age\<rparr>"

definition blank :: "double Sample" where
  "blank = \<lparr>smp_timestamp = 0, smp_value = 0\<rparr>"

definition get_or_create :: "time_point \<Rightarrow> string \<Rightarrow> SeriesStore \<Rightarrow> (double RingBuffer \<times> SeriesStore) ub" where
  "get_or_create now sid s =
     (case series s sid of Some b \<Rightarrow> Some (b, s)
      | None \<Rightarrow>
        let b = RingBuffer_make blank (default_capacity s) in
        case wal s of None \<Rightarrow> Some (b, s\<lparr>series := (series s)(sid \<mapsto> b)\<rparr>)
        | Some w \<Rightarrow> map_option (\<lambda>b. (b, s\<lparr>series := (series s)(sid \<mapsto> b)\<rparr>))
            (replay_into now (replay_max_age s) (map_of (wal_files w) (file_for sid)) b))"

definition record_sample :: "os_write \<Rightarrow> time_point \<Rightarrow> string \<Rightarrow> double \<Rightarrow> time_point \<Rightarrow> SeriesStore \<Rightarrow> SeriesStore ub" where
  "record_sample out now sid v t s = do {
     (b, s) \<leftarrow> get_or_create now sid s;
     b \<leftarrow> rb_push v t b;
     let s = s\<lparr>series := (series s)(sid \<mapsto> b)\<rparr>;
     Some (case wal s of None \<Rightarrow> s | Some w \<Rightarrow> s\<lparr>wal := Some (append_record out sid v t w)\<rparr>)
   }"

definition store_latest :: "string \<Rightarrow> SeriesStore \<Rightarrow> double Sample option ub" where
  "store_latest sid s = (case series s sid of None \<Rightarrow> Some None | Some b \<Rightarrow> rb_latest b)"

definition store_recent :: "string \<Rightarrow> nat \<Rightarrow> SeriesStore \<Rightarrow> double Sample list ub" where
  "store_recent sid n s = (case series s sid of None \<Rightarrow> Some [] | Some b \<Rightarrow> rb_recent n b)"

definition history :: "os_write \<Rightarrow> string \<Rightarrow> time_point \<Rightarrow> SeriesStore \<Rightarrow> SeriesStore \<times> double Sample list ub" where
  "history out sid since s =
     (case wal s of
        Some w \<Rightarrow> let (w, r) = read_since out sid since w in (s\<lparr>wal := Some w\<rparr>, r)
      | None \<Rightarrow> (s, map_option (filter (\<lambda>x. since \<le> smp_timestamp x)) (store_recent sid (default_capacity s) s)))"

definition persistent :: "SeriesStore \<Rightarrow> bool" where
  "persistent s \<longleftrightarrow> wal s \<noteq> None"

text \<open>\<open>iterate\<close> is the iteration order of the hash map.\<close>

definition sensor_ids :: "((string \<Rightarrow> double RingBuffer option) \<Rightarrow> string list) \<Rightarrow> SeriesStore \<Rightarrow> string list" where
  "sensor_ids iterate s = iterate (series s)"

section \<open>Replay\<close>

text \<open>Which old records a replay lets through.\<close>

definition fresh :: "time_point \<Rightarrow> int option \<Rightarrow> WalRecord \<Rightarrow> bool" where
  "fresh now age r \<longleftrightarrow> (case age of None \<Rightarrow> True
     | Some a \<Rightarrow> now - sint (timestamp_ms r) * 1000000 \<le> a * 1000000)"

definition replayable :: "time_point \<Rightarrow> int option \<Rightarrow> WalRecord \<Rightarrow> bool" where
  "replayable now age r \<longleftrightarrow> sane r \<and> (case age of None \<Rightarrow> True | Some a \<Rightarrow> is_old now a r \<noteq> None)"

lemma replay_one_fresh:
  assumes "replayable now age r"
  shows "replay_one now age r b = (if fresh now age r then rb_push (w_value r) (smp_timestamp (sample_of r)) b else Some b)"
  using assms
  by (auto simp: replay_one_def replayable_def sane_def fresh_def sample_of_def is_old_def ms_to_tp_def ns_since_def
      split: option.splits if_splits Option.bind_splits)

lemma replay_into_fresh:
  assumes "rb_ok b" "\<forall>r \<in> set rs. replayable now age r"
  shows "foldl (\<lambda>b r. Option.bind b (replay_one now age r)) (Some b) rs =
    Some (foldl rb_put b (map sample_of (filter (fresh now age) rs)))"
  using assms
proof (induction rs arbitrary: b)
  case (Cons r rs)
  have "replay_one now age r b = (if fresh now age r then Some (rb_put b (sample_of r)) else Some b)"
    using replay_one_fresh [of now age r b] rb_put_push [OF Cons.prems(1), of "sample_of r"] Cons.prems(2)
    by (simp add: sample_of_def)
  moreover have "rb_ok (rb_put b (sample_of r))"
    using samples.inv_push [OF Cons.prems(1)] .
  ultimately show ?case using Cons by simp
qed simp

section \<open>Histories\<close>

text \<open>The samples recorded for a sensor, with the clock's reading at each call.\<close>

type_synonym recording = "time_point \<times> string \<times> double \<times> time_point" \<comment> \<open>clock, sensor, value, timestamp\<close>

definition record_all :: "recording list \<Rightarrow> SeriesStore \<Rightarrow> SeriesStore ub" where
  "record_all rs s = foldl (\<lambda>s (now, sid, v, t). Option.bind s (record_sample Some now sid v t)) (Some s) rs"

definition recorded :: "string \<Rightarrow> recording list \<Rightarrow> double Sample list" where
  "recorded sid rs = map (\<lambda>(_, _, v, t). \<lparr>smp_timestamp = t, smp_value = v\<rparr>) (filter (\<lambda>(_, sid', _). sid' = sid) rs)"

definition first_clock :: "string \<Rightarrow> recording list \<Rightarrow> time_point" where
  "first_clock sid rs = fst (hd (filter (\<lambda>(_, sid', _). sid' = sid) rs))"

definition to_record :: "double Sample \<Rightarrow> WalRecord" where
  "to_record x = \<lparr>timestamp_ms = of_int (to_ms (smp_timestamp x)), w_value = smp_value x\<rparr>"

text \<open>What a store holds for a sensor once it has been touched: the end of the log as it was at the
  restart, without what was too old then, followed by the samples recorded since.\<close>

definition store_ok :: "(string \<Rightarrow> WalRecord list) \<Rightarrow> int option \<Rightarrow> nat \<Rightarrow> recording list \<Rightarrow> SeriesStore \<Rightarrow> bool" where
  "store_ok old age c done s \<longleftrightarrow> default_capacity s = c \<and> replay_max_age s = age \<and>
     (\<exists>w. wal s = Some w \<and> aligned w \<and> (\<forall>sid. log_of w sid = old sid @ map to_record (recorded sid done)) \<and>
        (\<forall>sid. recorded sid done = [] \<longrightarrow> pending_of w sid = [])) \<and>
     (\<forall>sid. case series s sid of None \<Rightarrow> recorded sid done = []
       | Some b \<Rightarrow> recorded sid done \<noteq> [] \<and> rb_ok b \<and> rb_capacity b = c \<and>
           rb_contents b = last_n c (map sample_of (filter (fresh (first_clock sid done) age) (old sid)) @ recorded sid done))"

lemma recorded_snoc: "recorded sid (done @ [(now, sid', v, t)]) =
    recorded sid done @ (if sid' = sid then [\<lparr>smp_timestamp = t, smp_value = v\<rparr>] else [])"
  by (simp add: recorded_def)

lemma first_clock_snoc: "first_clock sid (done @ [(now, sid', v, t)]) =
    (if recorded sid done = [] \<and> sid' = sid then now else first_clock sid done)"
  by (auto simp: first_clock_def recorded_def hd_append)

lemma append_record_pending:
  "sid' \<noteq> sid \<Longrightarrow> pending_of (append_record out sid' v t w) sid = pending_of w sid"
  by (simp add: append_record_def Let_def flush_locked_def pending_of_def update_conv')

lemma get_or_create_ok:
  assumes ok: "store_ok old age c done s" and c: "0 < c" and rp: "\<forall>r \<in> set (old sid). replayable now age r"
  shows "\<exists>b s'. get_or_create now sid s = Some (b, s') \<and> rb_ok b \<and> rb_capacity b = c \<and>
    rb_contents b = last_n c (map sample_of (filter (fresh (if recorded sid done = [] then now else first_clock sid done) age)
      (old sid)) @ recorded sid done) \<and> s' = s\<lparr>series := (series s)(sid \<mapsto> b)\<rparr>"
proof (cases "series s sid")
  case (Some b)
  have "recorded sid done \<noteq> [] \<and> rb_ok b \<and> rb_capacity b = c \<and>
      rb_contents b = last_n c (map sample_of (filter (fresh (first_clock sid done) age) (old sid)) @ recorded sid done)"
    using ok Some unfolding store_ok_def by (auto dest!: spec [of _ sid])
  moreover have "s\<lparr>series := (series s)(sid \<mapsto> b)\<rparr> = s" using Some by (simp add: map_upd_triv)
  ultimately show ?thesis using Some by (simp add: get_or_create_def)
next
  case None
  then have no: "recorded sid done = []" using ok unfolding store_ok_def by (auto dest!: spec [of _ sid])
  obtain w where w: "wal s = Some w" "log_of w sid = old sid" "pending_of w sid = []"
    using ok no unfolding store_ok_def by auto
  have st: "default_capacity s = c" "replay_max_age s = age" using ok by (simp_all add: store_ok_def)
  have old_file: "read_all (map_of (wal_files w) (file_for sid)) = old sid"
    using w(2,3) by (simp add: log_of_def read_all_contents)
  let ?start = "RingBuffer_make blank c" let ?xs = "map sample_of (filter (fresh now age) (old sid))"
  let ?b = "foldl rb_put ?start ?xs"
  note st0 = rb_make_ok [OF c, of blank]
  have "replay_into now age (map_of (wal_files w) (file_for sid)) ?start = Some ?b"
    unfolding replay_into_def old_file by (rule replay_into_fresh) (use st0 rp in simp_all)
  then have "get_or_create now sid s = Some (?b, s\<lparr>series := (series s)(sid \<mapsto> ?b)\<rparr>)"
    using None w(1) st by (simp add: get_or_create_def)
  moreover have "rb_ok ?b" "rb_capacity ?b = c" "rb_contents ?b = last_n c ?xs"
    using samples.history [of ?start ?xs] st0 by (simp_all add: RingBuffer_make_def)
  ultimately show ?thesis using no by simp
qed

lemma record_sample_ok:
  assumes ok: "store_ok old age c done s" and c: "0 < c" and rp: "\<forall>r \<in> set (old sid). replayable now age r"
  shows "\<exists>s'. record_sample Some now sid v t s = Some s' \<and> store_ok old age c (done @ [(now, sid, v, t)]) s'"
proof -
  let ?x = "\<lparr>smp_timestamp = t, smp_value = v\<rparr> :: double Sample"
  let ?clock = "if recorded sid done = [] then now else first_clock sid done"
  let ?h = "map sample_of (filter (fresh ?clock age) (old sid)) @ recorded sid done"
  from get_or_create_ok [of old age c "done" s sid now, OF ok c rp] obtain b where
    g: "get_or_create now sid s = Some (b, s\<lparr>series := (series s)(sid \<mapsto> b)\<rparr>)"
    and b: "rb_ok b" "rb_capacity b = c" "rb_contents b = last_n c ?h" by blast
  note p = rb_put_push [OF b(1), of ?x]
  have b': "rb_ok (rb_put b ?x)" "rb_capacity (rb_put b ?x) = c" "rb_contents (rb_put b ?x) = last_n c (?h @ [?x])"
    using rb_push_contents [OF b(1) p] b(2,3) by (simp_all add: last_n_append_last_n flip: append_assoc)
  obtain w where w: "wal s = Some w" "aligned w" "\<And>sid. log_of w sid = old sid @ map to_record (recorded sid done)"
    "\<And>sid. recorded sid done = [] \<Longrightarrow> pending_of w sid = []" "default_capacity s = c" "replay_max_age s = age"
    using ok unfolding store_ok_def by blast
  let ?w = "append_record Some sid v t w"
  let ?s = "s\<lparr>series := (series s)(sid \<mapsto> rb_put b ?x), wal := Some ?w\<rparr>"
  have "record_sample Some now sid v t s = Some ?s"
    using p w(1) by (simp add: record_sample_def g)
  moreover have "store_ok old age c (done @ [(now, sid, v, t)]) ?s"
    unfolding store_ok_def
  proof (intro conjI exI [of _ ?w] allI)
    show "log_of ?w a = old a @ map to_record (recorded a (done @ [(now, sid, v, t)]))" for a
      using append_record_log(2) [OF w(2), of sid v t a] w(3) by (simp add: recorded_snoc to_record_def)
    show "recorded a (done @ [(now, sid, v, t)]) = [] \<longrightarrow> pending_of ?w a = []" for a
      using append_record_pending [of sid a] w(4) by (auto simp: recorded_snoc)
    show "case series ?s a of None \<Rightarrow> recorded a (done @ [(now, sid, v, t)]) = []
       | Some b \<Rightarrow> recorded a (done @ [(now, sid, v, t)]) \<noteq> [] \<and> rb_ok b \<and> rb_capacity b = c \<and>
           rb_contents b = last_n c (map sample_of (filter (fresh (first_clock a (done @ [(now, sid, v, t)])) age) (old a)) @
             recorded a (done @ [(now, sid, v, t)]))" for a
    proof (cases "a = sid")
      case True
      with b' show ?thesis by (simp add: recorded_snoc first_clock_snoc)
    next
      case False
      have "case series s a of None \<Rightarrow> recorded a done = []
       | Some b \<Rightarrow> recorded a done \<noteq> [] \<and> rb_ok b \<and> rb_capacity b = c \<and>
           rb_contents b = last_n c (map sample_of (filter (fresh (first_clock a done) age) (old a)) @ recorded a done)"
        using ok unfolding store_ok_def by blast
      with False show ?thesis by (simp add: recorded_snoc first_clock_snoc split: option.splits)
    qed
  qed (use w append_record_log(1) [OF w(2)] in simp_all)
  ultimately show ?thesis by blast
qed

lemma record_all_ok:
  assumes "store_ok old age c done s" "0 < c"
    "\<forall>(now, sid, _) \<in> set rs. \<forall>r \<in> set (old sid). replayable now age r"
  shows "\<exists>s'. record_all rs s = Some s' \<and> store_ok old age c (done @ rs) s'"
  using assms
proof (induction rs arbitrary: s "done")
  case (Cons r rs)
  obtain now sid v t where r: "r = (now, sid, v, t)" by (cases r)
  from record_sample_ok [of old age c "done" s sid now v t] Cons.prems r obtain s1 where
    s1: "record_sample Some now sid v t s = Some s1" "store_ok old age c (done @ [r]) s1" by auto
  with Cons.IH [OF s1(2)] Cons.prems(2,3) show ?case by (simp add: record_all_def r)
qed (simp add: record_all_def)

section \<open>Properties\<close>

text \<open>C30. A restart is seamless: on top of the log files of an earlier run, a store that records any
  interleaved samples answers, for every sensor it has recorded, with the last samples of the old log
  (without those too old when the sensor was first touched) followed by the new ones, oldest first and
  never more than its capacity; nothing it does is undefined, and the log on disk and in memory holds
  the old records followed by all the new ones.\<close>

theorem store_survives_restart:
  assumes "0 < c" "\<And>sid. contents_of d (file_for sid) = images (old sid)"
    and "\<forall>(now, sid, _) \<in> set rs. \<forall>r \<in> set (old sid). replayable now age r"
    and "recorded sid rs \<noteq> []"
  shows "\<exists>s w. record_all rs (SeriesStore_make c (Some (WalWriter_make n d)) age) = Some s \<and>
    store_recent sid k s = Some (last_n (min k c)
      (map sample_of (filter (fresh (first_clock sid rs) age) (old sid)) @ recorded sid rs)) \<and>
    store_latest sid s = Some (Some (last (recorded sid rs))) \<and>
    wal s = Some w \<and> aligned w \<and> log_of w sid = old sid @ map to_record (recorded sid rs)"
proof -
  let ?s0 = "SeriesStore_make c (Some (WalWriter_make n d)) age"
  have "pending_of (WalWriter_make n d) a = []" for a by (simp add: pending_of_def WalWriter_make_def)
  then have "store_ok old age c [] ?s0"
    using make_log [of d old n] assms(2) by (simp add: store_ok_def SeriesStore_make_def recorded_def)
  from record_all_ok [OF this assms(1,3)] obtain s where
    s: "record_all rs ?s0 = Some s" "store_ok old age c rs s" by auto
  from s(2) assms(4) obtain b w where b: "series s sid = Some b" "rb_ok b"
      "rb_contents b = last_n c (map sample_of (filter (fresh (first_clock sid rs) age) (old sid)) @ recorded sid rs)"
    and w: "wal s = Some w" "aligned w" "log_of w sid = old sid @ map to_record (recorded sid rs)"
    unfolding store_ok_def by (force split: option.splits)
  have "last (last_n c (xs @ ys)) = last ys" "last_n c (xs @ ys) \<noteq> []" if "ys \<noteq> []" for xs ys :: "double Sample list"
  proof -
    have "length (xs @ ys) - c < length (xs @ ys)" using that assms(1) by (simp add: length_greater_0_conv)
    then show "last (last_n c (xs @ ys)) = last ys" "last_n c (xs @ ys) \<noteq> []"
      using that by (simp_all only: last_n_def last_drop drop_eq_Nil not_le last_appendR simp_thms)
  qed
  then have "store_latest sid s = Some (Some (last (recorded sid rs)))"
    using assms(4) by (simp add: store_latest_def b(1) rb_latest_contents [OF b(2)] b(3))
  moreover have "store_recent sid k s = Some (last_n (min k c)
      (map sample_of (filter (fresh (first_clock sid rs) age) (old sid)) @ recorded sid rs))"
    by (simp add: store_recent_def b(1) rb_recent_contents [OF b(2)] b(3))
  ultimately show ?thesis using s(1) w by blast
qed

theorem store_survives_restart_witness:
  "\<exists>s. record_all [(9000000, ''t'', 5, 8000000)] (SeriesStore_make 2 (Some (WalWriter_make 1
      [(''t.wal'', images [\<lparr>timestamp_ms = 1, w_value = 3\<rparr>, \<lparr>timestamp_ms = 2, w_value = 4\<rparr>])])) None) = Some s \<and>
    store_recent ''t'' 10 s = Some [\<lparr>smp_timestamp = 2000000, smp_value = 4\<rparr>, \<lparr>smp_timestamp = 8000000, smp_value = 5\<rparr>]"
proof -
  let ?old = "\<lambda>sid. if sid = ''t'' then [\<lparr>timestamp_ms = 1, w_value = 3\<rparr>, \<lparr>timestamp_ms = 2, w_value = 4\<rparr>] else []"
  let ?d = "[(''t.wal'', images [\<lparr>timestamp_ms = 1, w_value = 3\<rparr>, \<lparr>timestamp_ms = 2, w_value = 4\<rparr>])]"
  let ?rs = "[(9000000, ''t'', 5, 8000000)] :: recording list"
  have "file_for sid = ''t.wal'' \<longleftrightarrow> sid = ''t''" for sid
    using file_for_inject [of sid "''t''"] by (simp add: file_for_def)
  then have d: "contents_of ?d (file_for sid) = images (?old sid)" for sid
    by (simp add: contents_of_def)
  have rp: "\<forall>(now, sid, _) \<in> set ?rs. \<forall>r \<in> set (?old sid). replayable now None r"
    by (simp add: replayable_def sane_def ms_to_tp_def)
  have rec: "recorded ''t'' ?rs = [\<lparr>smp_timestamp = 8000000, smp_value = 5\<rparr>]" by (simp add: recorded_def)
  have "\<exists>s w. record_all ?rs (SeriesStore_make 2 (Some (WalWriter_make 1 ?d)) None) = Some s \<and>
    store_recent ''t'' 10 s = Some (last_n (min 10 2)
      (map sample_of (filter (fresh (first_clock ''t'' ?rs) None) (?old ''t'')) @ recorded ''t'' ?rs)) \<and>
    store_latest ''t'' s = Some (Some (last (recorded ''t'' ?rs))) \<and>
    wal s = Some w \<and> aligned w \<and> log_of w ''t'' = ?old ''t'' @ map to_record (recorded ''t'' ?rs)"
    by (rule store_survives_restart [OF _ d rp]) (simp_all add: rec)
  then show ?thesis by (auto simp: rec fresh_def sample_of_def last_n_def)
qed

end
