(* ===== verification/Json.thy ===== *)
theory Json
  imports Text "HOL-Library.Countable"
begin

text \<open>
  The JSON library (nlohmann/json, not part of this repository) as the code uses it: a record of its
  operations on an abstract type of documents. Operations that can throw return the message.
  \<open>json_documented\<close> collects what the code relies on when it writes documents and reads them back;
  everything that only reads documents holds for any implementation.
\<close>

record 'j Json =
  j_parse :: "string \<Rightarrow> string + 'j"
  j_dump :: "'j \<Rightarrow> string + string"
  j_is_object :: "'j \<Rightarrow> bool"
  j_is_array :: "'j \<Rightarrow> bool"
  j_is_string :: "'j \<Rightarrow> bool"
  j_is_boolean :: "'j \<Rightarrow> bool"
  j_is_number :: "'j \<Rightarrow> bool"
  j_is_number_integer :: "'j \<Rightarrow> bool"
  j_is_null :: "'j \<Rightarrow> bool"
  j_contains :: "'j \<Rightarrow> string \<Rightarrow> bool"
  j_at :: "'j \<Rightarrow> string \<Rightarrow> string + 'j"
  j_elems :: "'j \<Rightarrow> 'j list" \<comment> \<open>range-for over an array (or the values of an object)\<close>
  j_items :: "'j \<Rightarrow> (string \<times> 'j) list"
  j_get_int64 :: "'j \<Rightarrow> int"
  j_get_u32 :: "'j \<Rightarrow> string + u32"
  j_get_double :: "'j \<Rightarrow> u64"
  j_get_bool :: "'j \<Rightarrow> bool"
  j_get_string :: "'j \<Rightarrow> string + string"
  j_uint :: "u64 \<Rightarrow> 'j"
  j_int :: "int \<Rightarrow> 'j"
  j_double :: "u64 \<Rightarrow> 'j"
  j_bool :: "bool \<Rightarrow> 'j"
  j_string :: "string \<Rightarrow> 'j"
  j_null :: 'j
  j_array :: "'j list \<Rightarrow> 'j"
  j_object :: "(string \<times> 'j) list \<Rightarrow> 'j"

text \<open>\<open>value(key, default)\<close> on an object.\<close>

definition j_value :: "'j Json \<Rightarrow> 'j \<Rightarrow> string \<Rightarrow> string \<Rightarrow> string + string" where
  "j_value J v key dflt =
     (if j_contains J v key then (case j_at J v key of Inl e \<Rightarrow> Inl e | Inr x \<Rightarrow> j_get_string J x)
      else Inr dflt)"

definition json_documented :: "'j Json \<Rightarrow> bool" where
  "json_documented J \<longleftrightarrow>
     (\<forall>v s. j_dump J v = Inr s \<longrightarrow> j_parse J s = Inr v) \<and>
     (\<forall>kvs k v. distinct (map fst kvs) \<longrightarrow> map_of kvs k = Some v \<longrightarrow>
        j_contains J (j_object J kvs) k \<and> j_at J (j_object J kvs) k = Inr v) \<and>
     (\<forall>vs. j_elems J (j_array J vs) = vs) \<and>
     (\<forall>s. j_get_string J (j_string J s) = Inr s) \<and>
     (\<forall>n :: u32. j_get_u32 J (j_uint J (ucast n)) = Inr n)"

section \<open>An implementation for the witnesses\<close>

datatype jvalue = J_null | J_bool bool | J_int int | J_uint int | J_double int | J_string string
  | J_array "jvalue list" | J_object "(string \<times> jvalue) list"

instance jvalue :: countable
  by countable_datatype

fun jv_field :: "jvalue \<Rightarrow> string \<Rightarrow> jvalue option" where
  "jv_field (J_object kvs) k = map_of kvs k"
| "jv_field _ k = None"

text \<open>A text form that is injective and nothing more: the number of a value, in unary.\<close>

definition jv_lib :: "jvalue Json" where
  "jv_lib = \<lparr>
     j_parse = (\<lambda>s. Inr (from_nat (length s))),
     j_dump = (\<lambda>v. Inr (replicate (to_nat v) CHR ''x'')),
     j_is_object = (\<lambda>v. case v of J_object _ \<Rightarrow> True | _ \<Rightarrow> False),
     j_is_array = (\<lambda>v. case v of J_array _ \<Rightarrow> True | _ \<Rightarrow> False),
     j_is_string = (\<lambda>v. case v of J_string _ \<Rightarrow> True | _ \<Rightarrow> False),
     j_is_boolean = (\<lambda>v. case v of J_bool _ \<Rightarrow> True | _ \<Rightarrow> False),
     j_is_number = (\<lambda>v. case v of J_int _ \<Rightarrow> True | J_uint _ \<Rightarrow> True | J_double _ \<Rightarrow> True | _ \<Rightarrow> False),
     j_is_number_integer = (\<lambda>v. case v of J_int _ \<Rightarrow> True | J_uint _ \<Rightarrow> True | _ \<Rightarrow> False),
     j_is_null = (\<lambda>v. v = J_null),
     j_contains = (\<lambda>v k. jv_field v k \<noteq> None),
     j_at = (\<lambda>v k. case jv_field v k of None \<Rightarrow> Inl ''out_of_range'' | Some x \<Rightarrow> Inr x),
     j_elems = (\<lambda>v. case v of J_array vs \<Rightarrow> vs | J_object kvs \<Rightarrow> map snd kvs | _ \<Rightarrow> []),
     j_items = (\<lambda>v. case v of J_object kvs \<Rightarrow> kvs | _ \<Rightarrow> []),
     j_get_int64 = (\<lambda>v. case v of J_int i \<Rightarrow> i | J_uint i \<Rightarrow> i | _ \<Rightarrow> 0),
     j_get_u32 = (\<lambda>v. case v of J_uint i \<Rightarrow> Inr (of_int i) | J_int i \<Rightarrow> Inr (of_int i) | _ \<Rightarrow> Inl ''type_error''),
     j_get_double = (\<lambda>v. case v of J_double i \<Rightarrow> of_int i | _ \<Rightarrow> 0),
     j_get_bool = (\<lambda>v. v = J_bool True),
     j_get_string = (\<lambda>v. case v of J_string s \<Rightarrow> Inr s | _ \<Rightarrow> Inl ''type_error''),
     j_uint = (\<lambda>n. J_uint (uint n)),
     j_int = J_int,
     j_double = (\<lambda>d. J_double (uint d)),
     j_bool = J_bool,
     j_string = J_string,
     j_null = J_null,
     j_array = J_array,
     j_object = J_object\<rparr>"

lemma json_documented_jv_lib: "json_documented jv_lib"
proof -
  have "(of_int (uint (ucast n :: u64)) :: u32) = n" for n :: u32
  proof -
    have "take_bit 64 (uint n) = uint n"
      using uint_lt2p [of n] by (intro take_bit_int_eq_self) auto
    then show ?thesis by (simp add: unsigned_ucast_eq)
  qed
  then show ?thesis by (simp add: json_documented_def jv_lib_def)
qed

end
