(* ===== verification/Serialization.thy ===== *)
theory Serialization
  imports CoreTypes Json
begin

text \<open>
  \<open>api/serialization.hpp\<close> and the message builders of \<open>main.cpp\<close>: events as JSON fields. A document is
  the list of its fields, given to the JSON library; \<open>dump()\<close> may throw.
\<close>

definition to_epoch_ms :: "time_point \<Rightarrow> int" where
  "to_epoch_ms tp = to_ms tp"

definition alert_fields :: "'j Json \<Rightarrow> AnomalyEvent \<Rightarrow> (string \<times> 'j) list" where
  "alert_fields J event =
     [(''sensor_id'', j_string J (a_sensor_id event)),
      (''kind'', j_string J (kind_to_string (a_kind event))),
      (''severity'', j_string J (severity_to_string (a_severity event))),
      (''detector'', j_string J (a_detector_name event)),
      (''message'', j_string J (a_message event)),
      (''value'', j_double J (a_value event)),
      (''votes'', j_uint J (of_nat (a_votes event))),
      (''detectors_total'', j_uint J (of_nat (a_detectors_total event))),
      (''score'', j_double J (a_score event)),
      (''confidence'', j_double J (a_confidence event))] @
     (case a_limit event of None \<Rightarrow> []
      | Some l \<Rightarrow> [(''limit'', j_double J l),
          (''direction'', j_string J (if a_above_limit event then ''high'' else ''low''))])"

definition reading_to_json :: "'j Json \<Rightarrow> SensorReadingEvent \<Rightarrow> string + string" where
  "reading_to_json J reading = j_dump J (j_object J
     [(''type'', j_string J ''reading''), (''sensor_id'', j_string J (r_sensor_id reading)),
      (''value'', j_double J (r_value reading)),
      (''timestamp'', j_int J (to_epoch_ms (r_timestamp reading)))])"

definition anomaly_to_json :: "'j Json \<Rightarrow> AnomalyEvent \<Rightarrow> string + string" where
  "anomaly_to_json J anomaly = j_dump J (j_object J (alert_fields J anomaly @
     [(''type'', j_string J ''anomaly''), (''timestamp'', j_int J (to_epoch_ms (a_timestamp anomaly)))]))"

definition device_status_to_json :: "'j Json \<Rightarrow> DeviceStatusEvent \<Rightarrow> string + string" where
  "device_status_to_json J st = j_dump J (j_object J
     [(''type'', j_string J ''device_status''), (''device_id'', j_string J (s_device_id st)),
      (''online'', j_bool J (s_online st))])"

text \<open>Every field is a different key, so none is lost in the object.\<close>

lemma alert_keys:
  "map fst (alert_fields J event) =
     [''sensor_id'', ''kind'', ''severity'', ''detector'', ''message'', ''value'', ''votes'',
      ''detectors_total'', ''score'', ''confidence''] @
     (if a_limit event = None then [] else [''limit'', ''direction''])"
  by (simp add: alert_fields_def split: option.split)

lemma distinct_alert_keys: "distinct (map fst (alert_fields J event))"
  by (simp add: alert_keys)

text \<open>What a document written from fields gives back, for any field of it.\<close>

lemma object_field:
  assumes "json_documented J" and "distinct (map fst kvs)" and "map_of kvs k = Some v"
  shows "j_contains J (j_object J kvs) k" and "j_at J (j_object J kvs) k = Inr v"
  using assms by (auto simp: json_documented_def)

lemma dump_parse: "json_documented J \<Longrightarrow> j_dump J v = Inr s \<Longrightarrow> j_parse J s = Inr v"
  by (simp add: json_documented_def)

lemma get_string_string: "json_documented J \<Longrightarrow> j_get_string J (j_string J s) = Inr s"
  by (simp add: json_documented_def)

end
