(* ===== verification/Calendar.thy ===== *)
theory Calendar
  imports Text
begin

text \<open>
  \<open>gmtime_r\<close>, \<open>strftime\<close> and \<open>std::put_time\<close> as the program uses them: a count of nanoseconds since the
  epoch as UTC text. The civil date is found year by year and month by month, which is the definition
  of the Gregorian calendar; \<open>days_of_date\<close> is its inverse. Times before 1970, which
  \<open>system_clock::now()\<close> does not give, are taken as the epoch.
\<close>

definition leap :: "nat \<Rightarrow> bool" where
  "leap y \<longleftrightarrow> y mod 4 = 0 \<and> (y mod 100 \<noteq> 0 \<or> y mod 400 = 0)"

definition year_days :: "nat \<Rightarrow> nat" where "year_days y = (if leap y then 366 else 365)"

definition month_days :: "nat \<Rightarrow> nat \<Rightarrow> nat" where
  "month_days y m = (if m = 2 then (if leap y then 29 else 28)
     else if m = 4 \<or> m = 6 \<or> m = 9 \<or> m = 11 then 30 else 31)"

function year_of :: "nat \<Rightarrow> nat \<Rightarrow> nat \<times> nat" where
  "year_of y d = (if d < year_days y then (y, d) else year_of (Suc y) (d - year_days y))"
  by auto

lemma year_days_pos: "0 < year_days y"
  by (simp add: year_days_def)

termination year_of
  by (relation "measure snd") (use year_days_pos in \<open>auto simp: not_less\<close>, metis diff_less less_le_trans)

declare year_of.simps [simp del]

function month_of :: "nat \<Rightarrow> nat \<Rightarrow> nat \<Rightarrow> nat \<times> nat" where
  "month_of y m d = (if 12 \<le> m \<or> d < month_days y m then (m, d) else month_of y (Suc m) (d - month_days y m))"
  by auto
termination month_of
  by (relation "measure (\<lambda>(y, m, d). 12 - m)") auto

declare month_of.simps [simp del]

definition date_of_days :: "nat \<Rightarrow> nat \<times> nat \<times> nat" where
  "date_of_days n = (let (y, d) = year_of 1970 n; (m, d) = month_of y 1 d in (y, m, d + 1))"

definition days_of_date :: "nat \<times> nat \<times> nat \<Rightarrow> nat" where
  "days_of_date = (\<lambda>(y, m, d). (\<Sum>k\<leftarrow>[1970..<y]. year_days k) + (\<Sum>k\<leftarrow>[1..<m]. month_days y k) + (d - 1))"

text \<open>\<open>to_time_t\<close> and the milliseconds of a time point.\<close>

definition unix_seconds :: "int \<Rightarrow> nat" where "unix_seconds t = nat (t div 1000000000)"
definition millis_part :: "int \<Rightarrow> nat" where "millis_part t = nat (t div 1000000 mod 1000)"

definition date_text :: "int \<Rightarrow> string" where
  "date_text t = (let (y, m, d) = date_of_days (unix_seconds t div 86400)
     in dec_nat y @ ''-'' @ pad0 2 (dec_nat m) @ ''-'' @ pad0 2 (dec_nat d))"

definition clock_text :: "int \<Rightarrow> string" where
  "clock_text t = (let s = unix_seconds t mod 86400
     in pad0 2 (dec_nat (s div 3600)) @ '':'' @ pad0 2 (dec_nat (s div 60 mod 60)) @ '':'' @
        pad0 2 (dec_nat (s mod 60)))"

lemma year_of_sum: "year_of y d = (y', d') \<Longrightarrow>
    y \<le> y' \<and> d' < year_days y' \<and> (\<Sum>k\<leftarrow>[y..<y']. year_days k) + d' = d"
proof (induction y d rule: year_of.induct)
  case (1 y d)
  show ?case
  proof (cases "d < year_days y")
    case True
    with 1(2) show ?thesis by (simp add: year_of.simps)
  next
    case False
    with 1 have "Suc y \<le> y'" "d' < year_days y'"
      "(\<Sum>k\<leftarrow>[Suc y..<y']. year_days k) + d' = d - year_days y"
      by (simp_all add: year_of.simps [of y d])
    with False show ?thesis by (simp add: upt_rec [of y])
  qed
qed

lemma month_of_sum: "month_of y m d = (m', d') \<Longrightarrow>
    m \<le> m' \<and> (\<Sum>k\<leftarrow>[m..<m']. month_days y k) + d' = d"
proof (induction y m d rule: month_of.induct)
  case (1 y m d)
  show ?case
  proof (cases "12 \<le> m \<or> d < month_days y m")
    case True
    with 1(2) show ?thesis by (simp add: month_of.simps)
  next
    case False
    with 1 have "Suc m \<le> m'" "(\<Sum>k\<leftarrow>[Suc m..<m']. month_days y k) + d' = d - month_days y m"
      by (simp_all add: month_of.simps [of y m d])
    with False show ?thesis by (auto simp: upt_rec [of m])
  qed
qed

lemma date_roundtrip: "days_of_date (date_of_days n) = n"
proof -
  obtain y d m d' where y: "year_of 1970 n = (y, d)" and m: "month_of y 1 d = (m, d')" by force
  have "date_of_days n = (y, m, d' + 1)" unfolding date_of_days_def y Let_def prod.case m ..
  with year_of_sum [OF y] month_of_sum [OF m] show ?thesis by (simp add: days_of_date_def)
qed

lemma date_of_days_inject: "date_of_days a = date_of_days b \<longleftrightarrow> a = b"
  using date_roundtrip by metis

end
