(* ===== verification/Config.thy ===== *)
theory Config
  imports CoreTypes Json
begin

text \<open>
  \<open>core/config.cpp\<close> and the remaining structs of \<open>core/config.hpp\<close>: reading the JSON document field by
  field, environment overrides, validation. The JSON library is an argument (\<open>Json\<close>), and so is the
  environment (\<open>getenv\<close>, a partial map). A thrown \<open>std::runtime_error\<close> is \<open>Inl\<close> of its message.
  The result \<open>config_ok\<close> is what the rest of the program may rely on.
\<close>

section \<open>Data\<close>

record NotificationChannelConfig =
  ch_type :: string
  ch_url :: string
  ch_bot_token :: string
  ch_chat_id :: string
  ch_headers :: "(string \<times> string) list" \<comment> \<open>\<open>std::map\<close>, an association list\<close>

definition empty_channel :: NotificationChannelConfig where
  "empty_channel = \<lparr>ch_type = [], ch_url = [], ch_bot_token = [], ch_chat_id = [], ch_headers = []\<rparr>"

record NotificationsConfig =
  language :: string
  min_severity :: Severity
  dashboard_url :: string
  channels :: "NotificationChannelConfig list"

definition default_NotificationsConfig :: NotificationsConfig where
  "default_NotificationsConfig = \<lparr>language = ''ru'', min_severity = Sev_warning, dashboard_url = [],
     channels = []\<rparr>"

record ExportConfig =
  enabled :: bool
  directory :: string
  exp_queue_capacity :: u64
  exp_batch_size :: u64
  flush_interval_ms :: u32
  segment_max_mb :: u32
  max_total_mb :: u32

definition default_ExportConfig :: ExportConfig where
  "default_ExportConfig = \<lparr>enabled = False, directory = ''export'', exp_queue_capacity = 65536,
     exp_batch_size = 1000, flush_interval_ms = 1000, segment_max_mb = 64, max_total_mb = 1024\<rparr>"

record AppConfig =
  app_name :: string
  log_level :: string
  log_file :: string
  http_port :: u16
  ws_port :: u16
  worker_threads :: u64
  web_root :: string
  data_dir :: string
  persistence_enabled :: bool
  retention_hours :: u32
  api_token :: string
  devices :: "ModbusDeviceConfig list"
  notifications :: NotificationsConfig
  export_config :: ExportConfig
  warnings :: "string list"

definition default_AppConfig :: AppConfig where
  "default_AppConfig = \<lparr>app_name = ''ironpulse'', log_level = ''info'', log_file = [],
     http_port = 8080, ws_port = 8081, worker_threads = 4, web_root = ''web'', data_dir = ''data'',
     persistence_enabled = False, retention_hours = 168, api_token = [], devices = [],
     notifications = default_NotificationsConfig, export_config = default_ExportConfig, warnings = []\<rparr>"

section \<open>The result monad\<close>

type_synonym 'a result = "string + 'a"
type_synonym environment = "string \<rightharpoonup> string"

definition ebind :: "'a result \<Rightarrow> ('a \<Rightarrow> 'b result) \<Rightarrow> 'b result" where
  "ebind r f = (case r of Inl e \<Rightarrow> Inl e | Inr x \<Rightarrow> f x)"

definition check :: "bool \<Rightarrow> 'a result \<Rightarrow> unit result" where
  "check bad err = (if bad then (case err of Inl e \<Rightarrow> Inl e | Inr _ \<Rightarrow> Inr ()) else Inr ())"

text \<open>A loop that appends one parsed element after the other and stops at the first error.\<close>

fun emap :: "('a \<Rightarrow> 'b result) \<Rightarrow> 'a list \<Rightarrow> 'b list result" where
  "emap f [] = Inr []"
| "emap f (x # xs) = ebind (f x) (\<lambda>y. ebind (emap f xs) (\<lambda>ys. Inr (y # ys)))"

lemma ebind_Inr_iff: "ebind r f = Inr y \<longleftrightarrow> (\<exists>x. r = Inr x \<and> f x = Inr y)"
  by (cases r) (auto simp: ebind_def)

lemma check_Inr_iff: "check bad err = Inr u \<longleftrightarrow> \<not> bad \<or> (\<exists>x. err = Inr x)"
  by (cases err) (auto simp: check_def)

lemma emap_Inr:
  "emap f xs = Inr ys \<longleftrightarrow> length ys = length xs \<and> (\<forall>i < length xs. f (xs ! i) = Inr (ys ! i))"
proof (induction xs arbitrary: ys)
  case (Cons x xs)
  show ?case
    by (cases ys) (auto simp: ebind_Inr_iff Cons.IH nth_Cons' less_Suc_eq_0_disj)
qed auto

section \<open>Fields\<close>

definition fail :: "string \<Rightarrow> string \<Rightarrow> 'a result" where
  "fail path problem = Inl (''config: '' @ path @ '': '' @ problem)"

definition join_path :: "string \<Rightarrow> string \<Rightarrow> string" where
  "join_path base key = (if base = [] then key else base @ ''.'' @ key)"

definition quoted :: "string \<Rightarrow> string" where
  "quoted t = [char_of (39::nat)] @ t @ [char_of (39::nat)]"

text \<open>\<open>at\<close> after \<open>contains\<close>; an exception of the library passes through.\<close>

definition get_int :: "'j Json \<Rightarrow> 'j \<Rightarrow> string \<Rightarrow> 'w::len word \<Rightarrow> string \<Rightarrow> int \<Rightarrow> int \<Rightarrow> 'w word result" where
  "get_int J obj key fallback path lo hi =
     (if \<not> j_contains J obj key then Inr fallback
      else ebind (j_at J obj key) (\<lambda>v.
        let whr = join_path path key in
        if \<not> j_is_number_integer J v then fail whr ''expected an integer''
        else let raw = j_get_int64 J v in
          if raw < lo \<or> hi < raw
          then fail whr (''value '' @ dec_int raw @ '' is out of range ['' @ dec_int lo @ '', '' @ dec_int hi @ '']'')
          else Inr (of_int raw)))"

definition get_number :: "'j Json \<Rightarrow> 'j \<Rightarrow> string \<Rightarrow> double \<Rightarrow> string \<Rightarrow> double result" where
  "get_number J obj key fallback path =
     (if \<not> j_contains J obj key then Inr fallback
      else ebind (j_at J obj key) (\<lambda>v.
        if \<not> j_is_number J v then fail (join_path path key) ''expected a number''
        else let d = j_get_double J v in
          if \<not> d_finite d then fail (join_path path key) ''expected a finite number'' else Inr d))"

definition get_optional_number :: "'j Json \<Rightarrow> 'j \<Rightarrow> string \<Rightarrow> string \<Rightarrow> double option result" where
  "get_optional_number J obj key path =
     (if \<not> j_contains J obj key then Inr None
      else ebind (j_at J obj key) (\<lambda>v. if j_is_null J v then Inr None
        else ebind (get_number J obj key 0 path) (\<lambda>d. Inr (Some d))))"

definition get_string :: "'j Json \<Rightarrow> 'j \<Rightarrow> string \<Rightarrow> string \<Rightarrow> string \<Rightarrow> string result" where
  "get_string J obj key fallback path =
     (if \<not> j_contains J obj key then Inr fallback
      else ebind (j_at J obj key) (\<lambda>v.
        if \<not> j_is_string J v then fail (join_path path key) ''expected a string'' else j_get_string J v))"

definition get_bool :: "'j Json \<Rightarrow> 'j \<Rightarrow> string \<Rightarrow> bool \<Rightarrow> string \<Rightarrow> bool result" where
  "get_bool J obj key fallback path =
     (if \<not> j_contains J obj key then Inr fallback
      else ebind (j_at J obj key) (\<lambda>v.
        if \<not> j_is_boolean J v then fail (join_path path key) ''expected true or false''
        else Inr (j_get_bool J v)))"

fun join_names :: "string \<Rightarrow> string list \<Rightarrow> string" where
  "join_names acc [] = acc"
| "join_names acc (n # ns) = join_names (acc @ (if acc = [] then n else '', '' @ n)) ns"

definition get_enum :: "'j Json \<Rightarrow> 'j \<Rightarrow> string \<Rightarrow> 'e \<Rightarrow> string \<Rightarrow> (string \<times> 'e) list \<Rightarrow> 'e result" where
  "get_enum J obj key fallback path options =
     ebind (get_string J obj key [] path) (\<lambda>raw.
       if raw = [] then Inr fallback
       else case map_of options raw of Some v \<Rightarrow> Inr v
         | None \<Rightarrow> fail (join_path path key) (''unknown value '' @ quoted raw @
             '' (expected one of: '' @ join_names [] (map fst options) @ '')''))"

text \<open>\<open>expand_env\<close>: the loop on the text not yet copied.\<close>

function expand_env :: "environment \<Rightarrow> string \<Rightarrow> string" where
  "expand_env env text =
     (case find_sub ''${'' text of None \<Rightarrow> text
      | Some start \<Rightarrow> (case find_sub ''}'' (drop (start + 2) text) of None \<Rightarrow> text
      | Some len \<Rightarrow> take start text @ (case env (take len (drop (start + 2) text)) of None \<Rightarrow> [] | Some v \<Rightarrow> v) @
          (if drop (start + 2 + len + 1) text = [] then []
           else expand_env env (drop (start + 2 + len + 1) text))))"
  by pat_completeness auto
termination
  by (relation "measure (length \<circ> snd)") auto

declare expand_env.simps [simp del]

definition is_id_char :: "char \<Rightarrow> bool" where
  "is_id_char c \<longleftrightarrow> (CHR ''a'' \<le> c \<and> c \<le> CHR ''z'') \<or> (CHR ''A'' \<le> c \<and> c \<le> CHR ''Z'') \<or>
     (CHR ''0'' \<le> c \<and> c \<le> CHR ''9'') \<or> c = CHR ''_'' \<or> c = CHR ''-'' \<or> c = CHR ''.''"

definition is_valid_id :: "string \<Rightarrow> bool" where
  "is_valid_id i \<longleftrightarrow> \<not> (i = [] \<or> 64 < length i \<or> hd i = CHR ''.'') \<and> list_all is_id_char i"

definition is_supported_language :: "string \<Rightarrow> bool" where
  "is_supported_language code \<longleftrightarrow>
     code \<in> {''ru'', ''en'', ''zh'', ''hi'', ''es'', ''fr'', ''de'', ''it''}"

section \<open>Parsing\<close>

definition default_detection :: DetectionConfig where
  "default_detection = default_DetectionConfig\<lparr>detectors :=
     [default_DetectorConfig\<lparr>det_type := ''zscore''\<rparr>, default_DetectorConfig\<lparr>det_type := ''ewma''\<rparr>],
     votes_required := 1\<rparr>"

text \<open>The literals of the defaults: \<open>3.0\<close>, \<open>0.2\<close>, \<open>5.0\<close> and so on, rounded to double.\<close>

definition parse_detector :: "'j Json \<Rightarrow> 'j \<Rightarrow> string \<Rightarrow> DetectorConfig result" where
  "parse_detector J j path =
     (if \<not> j_is_object J j then fail path ''expected an object''
      else ebind (get_string J j ''type'' [] path) (\<lambda>ty.
        let d = default_DetectorConfig\<lparr>det_type := ty\<rparr> in
        ebind
          (if ty = ''zscore'' then
             ebind (get_int J j ''window'' 60 path 2 100000) (\<lambda>w.
             ebind (get_number J j ''threshold'' (d_of_rat 3) path) (\<lambda>t.
             Inr (d\<lparr>window := w, threshold := t\<rparr>)))
           else if ty = ''ewma'' then
             ebind (get_number J j ''alpha'' (d_of_rat (1 / 5)) path) (\<lambda>a.
             ebind (get_number J j ''threshold'' (d_of_rat 3) path) (\<lambda>t.
             if d_le a 0 \<or> d_lt (d_of_rat 1) a then fail (join_path path ''alpha'') ''must be in (0, 1]''
             else Inr (d\<lparr>alpha := a, threshold := t\<rparr>)))
           else if ty = ''cusum'' then
             if \<not> j_contains J j ''mean'' \<or> \<not> j_contains J j ''stddev''
             then fail path (''cusum needs the sensor'' @ [char_of (39::nat)] @ ''s normal '' @ quoted ''mean'' @
               '' and '' @ quoted ''stddev'')
             else ebind (get_number J j ''mean'' 0 path) (\<lambda>me.
               ebind (get_number J j ''stddev'' (d_of_rat 1) path) (\<lambda>sd.
               ebind (get_number J j ''slack'' (d_of_rat (1 / 2)) path) (\<lambda>sl.
               ebind (get_number J j ''threshold'' (d_of_rat 5) path) (\<lambda>t.
               if d_le sd 0 then fail (join_path path ''stddev'') ''must be greater than 0''
               else if d_lt sl 0 then fail (join_path path ''slack'') ''must not be negative''
               else Inr (d\<lparr>mean := me, stddev := sd, slack := sl, threshold := t\<rparr>)))))
           else fail (join_path path ''type'')
             (''unknown detector '' @ quoted ty @ '' (expected zscore, ewma or cusum)''))
        (\<lambda>d. if d_le (threshold d) 0 then fail (join_path path ''threshold'') ''must be greater than 0''
             else Inr d)))"

definition indexed :: "string \<Rightarrow> nat \<Rightarrow> string" where
  "indexed path i = path @ ''['' @ dec_nat i @ '']''"

text \<open>\<open>for (i = 0; i < list.size(); ++i) out.push_back(f(list[i], path + "[i]"))\<close>.\<close>

definition parse_list :: "'j Json \<Rightarrow> ('j \<Rightarrow> string \<Rightarrow> 'a result) \<Rightarrow> 'j \<Rightarrow> string \<Rightarrow> 'a list result" where
  "parse_list J f lst path = emap (\<lambda>(i, x). f x (indexed path i)) (enumerate 0 (j_elems J lst))"

definition parse_detection :: "'j Json \<Rightarrow> 'j \<Rightarrow> string \<Rightarrow> DetectionConfig result" where
  "parse_detection J j path =
     (let d = default_detection in
      if \<not> j_is_object J j then fail path ''expected an object''
      else ebind
        (if j_contains J j ''detectors'' then
           ebind (j_at J j ''detectors'') (\<lambda>lst.
             if \<not> j_is_array J lst then fail (join_path path ''detectors'') ''expected an array''
             else parse_list J (parse_detector J) lst (path @ ''.detectors''))
         else Inr (detectors d)) (\<lambda>ds.
      ebind (get_int J j ''cooldown_seconds'' (cooldown_seconds d) path 0 86400) (\<lambda>cool.
      let max_votes = max 1 (length ds) in
      ebind (get_int J j ''votes_required'' 1 path 1 (int max_votes)) (\<lambda>votes.
      Inr (d\<lparr>detectors := ds, cooldown_seconds := cool, votes_required := votes\<rparr>)))))"

definition id_problem :: "string \<Rightarrow> string" where
  "id_problem i = quoted i @ '' is not a valid id (1-64 characters: letters, digits, '' @ quoted ''_'' @ '', '' @
     quoted ''-'' @ '', '' @ quoted ''.'' @ '')''"

definition parse_limits :: "'j Json \<Rightarrow> 'j \<Rightarrow> string \<Rightarrow> Limits result" where
  "parse_limits J j path =
     (if j_contains J j ''limits'' then
        ebind (j_at J j ''limits'') (\<lambda>l.
        let lpath = join_path path ''limits'' in
        if \<not> j_is_object J l then fail lpath ''expected an object''
        else ebind (get_optional_number J l ''low'' lpath) (\<lambda>lo.
          ebind (get_optional_number J l ''high'' lpath) (\<lambda>hi.
          if lo \<noteq> None \<and> hi \<noteq> None \<and> d_le (the hi) (the lo)
          then fail lpath (quoted ''low'' @ '' must be less than '' @ quoted ''high'')
          else Inr \<lparr>low = lo, high = hi\<rparr>)))
      else Inr \<lparr>low = None, high = None\<rparr>)"

definition parse_sensor :: "'j Json \<Rightarrow> 'j \<Rightarrow> string \<Rightarrow> SensorConfig result" where
  "parse_sensor J j path =
     (if \<not> j_is_object J j then fail path ''expected an object''
      else ebind (get_string J j ''id'' [] path) (\<lambda>i.
      if \<not> is_valid_id i then fail (join_path path ''id'') (id_problem i)
      else ebind (get_string J j ''name'' i path) (\<lambda>nm.
      ebind (get_string J j ''unit'' [] path) (\<lambda>un.
      ebind (get_enum J j ''register_type'' RT_holding path
        [(''holding'', RT_holding), (''input'', RT_input)]) (\<lambda>rt.
      ebind (get_enum J j ''data_type'' DT_uint16 path
        [(''uint16'', DT_uint16), (''int16'', DT_int16), (''uint32'', DT_uint32), (''int32'', DT_int32),
         (''float32'', DT_float32)]) (\<lambda>dt.
      ebind (get_enum J j ''word_order'' WO_big path [(''big'', WO_big), (''little'', WO_little)]) (\<lambda>wo.
      ebind (get_int J j ''address'' 0 path 0 65535) (\<lambda>addr.
      if 65536 < unat addr + unat (register_count dt)
      then fail (join_path path ''address'') ''value does not fit below register 65535''
      else ebind (get_number J j ''scale'' (d_of_rat 1) path) (\<lambda>sc.
      ebind (get_number J j ''offset'' 0 path) (\<lambda>off.
      if d_eq sc 0 then fail (join_path path ''scale'') ''must not be 0''
      else ebind (parse_limits J j path) (\<lambda>lim.
      ebind (if j_contains J j ''detection''
             then ebind (j_at J j ''detection'') (\<lambda>d. parse_detection J d (join_path path ''detection''))
             else Inr default_detection) (\<lambda>det.
      Inr \<lparr>sensor_id = i, sensor_name = nm, sensor_unit = un, register_type = rt, address = addr,
           data_type = dt, word_order = wo, scale = sc, offset = off, limits = lim,
           detection = det\<rparr>))))))))))))"

definition parse_device :: "'j Json \<Rightarrow> environment \<Rightarrow> 'j \<Rightarrow> string \<Rightarrow> ModbusDeviceConfig result" where
  "parse_device J env d path =
     (if \<not> j_is_object J d then fail path ''expected an object''
      else ebind (get_string J d ''id'' [] path) (\<lambda>i.
      if \<not> is_valid_id i then fail (join_path path ''id'') (id_problem i)
      else ebind (get_string J d ''host'' [] path) (\<lambda>h.
      let hst = expand_env env h in
      if hst = [] then fail (join_path path ''host'') ''is required''
      else ebind (get_int J d ''port'' 502 path 1 65535) (\<lambda>prt.
      ebind (get_int J d ''unit_id'' 1 path 0 255) (\<lambda>uid.
      ebind (get_int J d ''poll_interval_ms'' 1000 path 50 86400000) (\<lambda>poll.
      ebind (get_int J d ''timeout_ms'' 3000 path 100 60000) (\<lambda>tmo.
      ebind (if j_contains J d ''sensors''
             then ebind (j_at J d ''sensors'') (\<lambda>lst.
               if \<not> j_is_array J lst \<or> j_elems J lst = []
               then fail (join_path path ''sensors'') ''expected a non-empty array''
               else parse_list J (parse_sensor J) lst (path @ ''.sensors''))
             else Inr [default_SensorConfig\<lparr>sensor_id := i, sensor_name := i,
                         detection := default_detection\<rparr>]) (\<lambda>ss.
      Inr \<lparr>device_id = i, host = hst, port = prt, device_unit_id = uid, poll_interval_ms = poll,
           timeout_ms = tmo, sensors = ss\<rparr>))))))))"

fun parse_headers :: "'j Json \<Rightarrow> environment \<Rightarrow> string \<Rightarrow> (string \<times> 'j) list \<Rightarrow> (string \<times> string) list \<Rightarrow>
    (string \<times> string) list result" where
  "parse_headers J env path [] hs = Inr hs"
| "parse_headers J env path ((name, v) # kvs) hs =
     (if \<not> j_is_string J v then fail (join_path path (''headers.'' @ name)) ''expected a string''
      else ebind (j_get_string J v) (\<lambda>t. parse_headers J env path kvs
        (filter (\<lambda>(k, _). k \<noteq> name) hs @ [(name, expand_env env t)])))"

definition parse_channel :: "'j Json \<Rightarrow> environment \<Rightarrow> 'j \<Rightarrow> string \<Rightarrow> NotificationChannelConfig result" where
  "parse_channel J env j path =
     (if \<not> j_is_object J j then fail path ''expected an object''
      else ebind (get_string J j ''type'' [] path) (\<lambda>ty.
      if ty \<noteq> ''telegram'' \<and> ty \<noteq> ''slack'' \<and> ty \<noteq> ''webhook''
      then fail (join_path path ''type'')
        (''unknown channel '' @ quoted ty @ '' (expected telegram, slack or webhook)'')
      else ebind (get_string J j ''url'' [] path) (\<lambda>u.
      ebind (get_string J j ''bot_token'' [] path) (\<lambda>b.
      ebind (get_string J j ''chat_id'' [] path) (\<lambda>c.
      ebind (if j_contains J j ''headers''
             then ebind (j_at J j ''headers'') (\<lambda>h.
               if \<not> j_is_object J h then fail (join_path path ''headers'') ''expected an object''
               else parse_headers J env path (j_items J h) [])
             else Inr []) (\<lambda>hs.
      Inr \<lparr>ch_type = ty, ch_url = expand_env env u, ch_bot_token = expand_env env b,
           ch_chat_id = expand_env env c, ch_headers = hs\<rparr>))))))"

definition channel_is_complete :: "NotificationChannelConfig \<Rightarrow> bool" where
  "channel_is_complete c = (if ch_type c = ''telegram'' then ch_bot_token c \<noteq> [] \<and> ch_chat_id c \<noteq> []
     else ch_url c \<noteq> [])"

definition parse_export :: "'j Json \<Rightarrow> 'j \<Rightarrow> ExportConfig result" where
  "parse_export J j =
     (let path = ''export''; e = default_ExportConfig in
      if \<not> j_is_object J j then fail path ''expected an object''
      else ebind (get_bool J j ''enabled'' (enabled e) path) (\<lambda>en.
      ebind (get_string J j ''directory'' (directory e) path) (\<lambda>dir.
      ebind (get_int J j ''queue_capacity'' (exp_queue_capacity e) path 16 (2 ^ 24)) (\<lambda>q.
      ebind (get_int J j ''batch_size'' (exp_batch_size e) path 1 (2 ^ 20)) (\<lambda>b.
      ebind (get_int J j ''flush_interval_ms'' (flush_interval_ms e) path 10 3600000) (\<lambda>f.
      ebind (get_int J j ''segment_max_mb'' (segment_max_mb e) path 1 65536) (\<lambda>sm.
      ebind (get_int J j ''max_total_mb'' (max_total_mb e) path 0 (2 ^ 24)) (\<lambda>mt.
      Inr \<lparr>enabled = en, directory = dir, exp_queue_capacity = q, exp_batch_size = b,
           flush_interval_ms = f, segment_max_mb = sm, max_total_mb = mt\<rparr>))))))))"

section \<open>Environment overrides\<close>

definition env_var :: "environment \<Rightarrow> string \<Rightarrow> string option" where
  "env_var env name = (case env name of None \<Rightarrow> None | Some v \<Rightarrow> if v = [] then None else Some v)"

definition is_space :: "char \<Rightarrow> bool" where
  "is_space c \<longleftrightarrow> c = CHR '' '' \<or> (of_char c \<ge> (9::nat) \<and> of_char c \<le> (13::nat))"

definition is_digit :: "char \<Rightarrow> bool" where
  "is_digit c \<longleftrightarrow> 48 \<le> (of_char c :: nat) \<and> (of_char c :: nat) \<le> 57"

text \<open>\<open>std::stoull\<close>: blanks, an optional sign, digits; what follows the digits is ignored, and a
  minus sign negates modulo \<open>2 ^ 64\<close>. \<open>None\<close> is an exception.\<close>

definition stoull :: "string \<Rightarrow> nat option" where
  "stoull s =
     (let s = dropWhile is_space s;
          neg = (s \<noteq> [] \<and> hd s = CHR ''-'');
          s = (if s \<noteq> [] \<and> (hd s = CHR ''-'' \<or> hd s = CHR ''+'') then tl s else s);
          ds = takeWhile is_digit s
      in if ds = [] \<or> 2 ^ 64 \<le> dec_val ds then None
         else Some (if neg then (2 ^ 64 - dec_val ds) mod 2 ^ 64 else dec_val ds))"

definition parse_or :: "string option \<Rightarrow> 'w::len word \<Rightarrow> 'w word" where
  "parse_or raw fallback =
     (case raw of None \<Rightarrow> fallback
      | Some s \<Rightarrow> (case stoull s of None \<Rightarrow> fallback
          | Some n \<Rightarrow> if unat (- 1 :: 'w word) < n then fallback else of_nat n))"

definition parse_or_bool :: "string option \<Rightarrow> bool \<Rightarrow> bool" where
  "parse_or_bool raw fallback =
     (case raw of None \<Rightarrow> fallback | Some s \<Rightarrow> s \<in> {''1'', ''true'', ''TRUE'', ''yes''})"

definition or_else :: "string option \<Rightarrow> string \<Rightarrow> string" where
  "or_else v fallback = (case v of None \<Rightarrow> fallback | Some s \<Rightarrow> s)"

definition env_channels :: "environment \<Rightarrow> NotificationChannelConfig list" where
  "env_channels env =
     (case env_var env ''IRONPULSE_TELEGRAM_BOT_TOKEN'' of None \<Rightarrow> []
      | Some token \<Rightarrow> [empty_channel\<lparr>ch_type := ''telegram'', ch_bot_token := token,
          ch_chat_id := or_else (env_var env ''IRONPULSE_TELEGRAM_CHAT_ID'') []\<rparr>]) @
     (case env_var env ''IRONPULSE_SLACK_WEBHOOK_URL'' of None \<Rightarrow> []
      | Some url \<Rightarrow> [empty_channel\<lparr>ch_type := ''slack'', ch_url := url\<rparr>]) @
     (case env_var env ''IRONPULSE_WEBHOOK_URL'' of None \<Rightarrow> []
      | Some url \<Rightarrow> [empty_channel\<lparr>ch_type := ''webhook'', ch_url := url\<rparr>])"

definition export_overrides :: "environment \<Rightarrow> ExportConfig \<Rightarrow> ExportConfig" where
  "export_overrides env e =
     e\<lparr>enabled := parse_or_bool (env_var env ''IRONPULSE_EXPORT_ENABLED'') (enabled e),
       directory := or_else (env_var env ''IRONPULSE_EXPORT_DIR'') (directory e),
       max_total_mb := parse_or (env_var env ''IRONPULSE_EXPORT_MAX_MB'') (max_total_mb e),
       segment_max_mb := parse_or (env_var env ''IRONPULSE_EXPORT_SEGMENT_MB'') (segment_max_mb e)\<rparr>"

definition apply_env_overrides :: "environment \<Rightarrow> AppConfig \<Rightarrow> AppConfig" where
  "apply_env_overrides env cfg =
     (let n = notifications cfg in
      cfg\<lparr>http_port := parse_or (env_var env ''IRONPULSE_HTTP_PORT'') (http_port cfg),
       ws_port := parse_or (env_var env ''IRONPULSE_WS_PORT'') (ws_port cfg),
       log_level := or_else (env_var env ''IRONPULSE_LOG_LEVEL'') (log_level cfg),
       log_file := or_else (env_var env ''IRONPULSE_LOG_FILE'') (log_file cfg),
       web_root := or_else (env_var env ''IRONPULSE_WEB_ROOT'') (web_root cfg),
       data_dir := or_else (env_var env ''IRONPULSE_DATA_DIR'') (data_dir cfg),
       worker_threads := parse_or (env_var env ''IRONPULSE_WORKER_THREADS'') (worker_threads cfg),
       persistence_enabled := parse_or_bool (env_var env ''IRONPULSE_PERSISTENCE_ENABLED'')
         (persistence_enabled cfg),
       retention_hours := parse_or (env_var env ''IRONPULSE_RETENTION_HOURS'') (retention_hours cfg),
       api_token := or_else (env_var env ''IRONPULSE_API_TOKEN'') (api_token cfg),
       notifications := n\<lparr>
         language := or_else (env_var env ''IRONPULSE_NOTIFY_LANGUAGE'') (language n),
         dashboard_url := or_else (env_var env ''IRONPULSE_PUBLIC_URL'') (dashboard_url n),
         channels := channels n @ env_channels env\<rparr>,
       export_config := export_overrides env (export_config cfg)\<rparr>)"

section \<open>Validation\<close>

text \<open>The loop over devices and sensors with its two sets; \<open>None\<close> when all ids are new.\<close>

fun check_sensor_ids :: "nat \<Rightarrow> string set \<Rightarrow> SensorConfig list \<Rightarrow> (string set) result" where
  "check_sensor_ids i seen [] = Inr seen"
| "check_sensor_ids i seen (s # ss) =
     (if sensor_id s \<in> seen
      then fail (indexed ''devices'' i) (''duplicate sensor id '' @ quoted (sensor_id s))
      else check_sensor_ids i (insert (sensor_id s) seen) ss)"

fun check_ids :: "nat \<Rightarrow> string set \<Rightarrow> string set \<Rightarrow> ModbusDeviceConfig list \<Rightarrow> unit result" where
  "check_ids i dids sids [] = Inr ()"
| "check_ids i dids sids (d # ds) =
     (if device_id d \<in> dids
      then fail (indexed ''devices'' i @ ''.id'') (''duplicate device id '' @ quoted (device_id d))
      else ebind (check_sensor_ids i sids (sensors d)) (\<lambda>sids.
        check_ids (i + 1) (insert (device_id d) dids) sids ds))"

definition channel_warning :: "NotificationChannelConfig \<Rightarrow> string" where
  "channel_warning c = ''notification channel '' @ quoted (ch_type c) @
     '' is missing its URL or credentials and was disabled''"

definition drop_incomplete_channels :: "AppConfig \<Rightarrow> AppConfig" where
  "drop_incomplete_channels cfg =
     (let n = notifications cfg in
      cfg\<lparr>notifications := n\<lparr>channels := filter channel_is_complete (channels n)\<rparr>,
          warnings := warnings cfg @ map channel_warning (filter (\<lambda>c. \<not> channel_is_complete c) (channels n))\<rparr>)"

definition validate :: "AppConfig \<Rightarrow> AppConfig result" where
  "validate cfg =
     (let e = export_config cfg; n = notifications cfg in
      if log_level cfg \<notin> {''trace'', ''debug'', ''info'', ''warn'', ''error'', ''critical''}
      then fail ''log_level'' (''unknown value '' @ quoted (log_level cfg) @
        '' (expected trace, debug, info, warn, error or critical)'')
      else if http_port cfg = 0 \<or> ws_port cfg = 0
      then fail ''http_port/ws_port'' ''ports must be between 1 and 65535''
      else if http_port cfg = ws_port cfg then fail ''ws_port'' ''must differ from http_port''
      else if worker_threads cfg = 0 \<or> 256 < worker_threads cfg
      then fail ''worker_threads'' ''must be between 1 and 256''
      else if retention_hours cfg = 0 then fail ''retention_hours'' ''must be at least 1''
      else ebind (check_ids 0 {} {} (devices cfg)) (\<lambda>_.
      if \<not> is_supported_language (language n)
      then fail ''notifications.language'' (''unsupported language '' @ quoted (language n) @
        '' (expected ru, en, zh, hi, es, fr, de or it)'')
      else if exp_queue_capacity e AND (exp_queue_capacity e - 1) \<noteq> 0
      then fail ''export.queue_capacity'' ''must be a power of two (e.g. 4096, 65536)''
      else if exp_queue_capacity e < exp_batch_size e
      then fail ''export.batch_size'' ''must not exceed export.queue_capacity''
      else if enabled e \<and> directory e = []
      then fail ''export.directory'' ''must not be empty when export is enabled''
      else if segment_max_mb e = 0 then fail ''export.segment_max_mb'' ''must be at least 1''
      else if max_total_mb e \<noteq> 0 \<and> unat (max_total_mb e) < 2 * unat (segment_max_mb e)
      then fail ''export.max_total_mb'' (''must be 0 (no limit) or at least twice export.segment_max_mb ('' @
        dec_nat (2 * unat (segment_max_mb e)) @ '')'')
      else Inr (drop_incomplete_channels cfg)))"

definition parse_notifications :: "'j Json \<Rightarrow> environment \<Rightarrow> 'j \<Rightarrow> NotificationsConfig result" where
  "parse_notifications J env n =
     (let path = ''notifications''; dflt = default_NotificationsConfig in
      if \<not> j_is_object J n then fail path ''expected an object''
      else ebind (get_string J n ''language'' (language dflt) path) (\<lambda>lang.
      ebind (get_string J n ''dashboard_url'' [] path) (\<lambda>url.
      ebind (get_enum J n ''min_severity'' Sev_warning path
        [(''warning'', Sev_warning), (''critical'', Sev_critical)]) (\<lambda>sev.
      ebind (if j_contains J n ''channels''
             then ebind (j_at J n ''channels'') (\<lambda>lst.
               if \<not> j_is_array J lst then fail ''notifications.channels'' ''expected an array''
               else parse_list J (parse_channel J env) lst ''notifications.channels'')
             else Inr []) (\<lambda>chs.
      Inr \<lparr>language = lang, min_severity = sev, dashboard_url = expand_env env url, channels = chs\<rparr>)))))"

definition parse :: "'j Json \<Rightarrow> environment \<Rightarrow> 'j \<Rightarrow> AppConfig result" where
  "parse J env j =
     (let cfg = default_AppConfig in
      if \<not> j_is_object J j then fail ''(root)'' ''expected a JSON object''
      else ebind (get_string J j ''app_name'' (app_name cfg) []) (\<lambda>an.
      ebind (get_string J j ''log_level'' (log_level cfg) []) (\<lambda>ll.
      ebind (get_string J j ''log_file'' (log_file cfg) []) (\<lambda>lf.
      ebind (get_int J j ''http_port'' (http_port cfg) [] 1 65535) (\<lambda>hp.
      ebind (get_int J j ''ws_port'' (ws_port cfg) [] 1 65535) (\<lambda>wp.
      ebind (get_int J j ''worker_threads'' (worker_threads cfg) [] 1 256) (\<lambda>wt.
      ebind (get_string J j ''web_root'' (web_root cfg) []) (\<lambda>wr.
      ebind (get_string J j ''data_dir'' (data_dir cfg) []) (\<lambda>dd.
      ebind (get_bool J j ''persistence_enabled'' (persistence_enabled cfg) []) (\<lambda>pe.
      ebind (get_int J j ''retention_hours'' (retention_hours cfg) [] 1 87600) (\<lambda>rh.
      ebind (get_string J j ''api_token'' [] []) (\<lambda>tok.
      ebind (if j_contains J j ''devices''
             then ebind (j_at J j ''devices'') (\<lambda>lst.
               if \<not> j_is_array J lst then fail ''devices'' ''expected an array''
               else parse_list J (parse_device J env) lst ''devices'')
             else Inr []) (\<lambda>devs.
      ebind (if j_contains J j ''notifications''
             then ebind (j_at J j ''notifications'') (parse_notifications J env)
             else Inr (notifications cfg)) (\<lambda>n.
      ebind (if j_contains J j ''export'' then ebind (j_at J j ''export'') (parse_export J)
             else Inr (export_config cfg)) (\<lambda>e.
      validate (apply_env_overrides env
        \<lparr>app_name = an, log_level = ll, log_file = lf, http_port = hp, ws_port = wp,
         worker_threads = wt, web_root = wr, data_dir = dd, persistence_enabled = pe,
         retention_hours = rh, api_token = expand_env env tok, devices = devs, notifications = n,
         export_config = e, warnings = []\<rparr>))))))))))))))))"

definition load_from_string :: "'j Json \<Rightarrow> environment \<Rightarrow> string \<Rightarrow> AppConfig result" where
  "load_from_string J env text =
     (case j_parse J text of Inl e \<Rightarrow> Inl (''config: invalid JSON: '' @ e) | Inr j \<Rightarrow> parse J env j)"

text \<open>The file's text, or \<open>None\<close> when it cannot be opened.\<close>

definition load_from_file :: "'j Json \<Rightarrow> environment \<Rightarrow> string \<Rightarrow> string option \<Rightarrow> AppConfig result" where
  "load_from_file J env path file =
     (case file of None \<Rightarrow> Inl (''Failed to open config file: '' @ path)
      | Some text \<Rightarrow> load_from_string J env text)"

section \<open>What a loaded configuration guarantees\<close>

definition detector_ok :: "DetectorConfig \<Rightarrow> bool" where
  "detector_ok d \<longleftrightarrow> det_type d \<in> {''zscore'', ''ewma'', ''cusum''} \<and>
     d_finite (threshold d) \<and> d_lt 0 (threshold d) \<and>
     (det_type d = ''zscore'' \<longrightarrow> 2 \<le> window d \<and> window d \<le> 100000) \<and>
     (det_type d = ''ewma'' \<longrightarrow> d_finite (alpha d) \<and> d_lt 0 (alpha d) \<and> d_le (alpha d) (d_of_rat 1)) \<and>
     (det_type d = ''cusum'' \<longrightarrow> d_finite (mean d) \<and> d_finite (stddev d) \<and> d_lt 0 (stddev d) \<and>
        d_finite (slack d) \<and> d_le 0 (slack d))"

definition detection_ok :: "DetectionConfig \<Rightarrow> bool" where
  "detection_ok d \<longleftrightarrow> (\<forall>x \<in> set (detectors d). detector_ok x) \<and> 1 \<le> votes_required d \<and>
     unat (votes_required d) \<le> max 1 (length (detectors d)) \<and> cooldown_seconds d \<le> 86400"

definition limits_ok :: "Limits \<Rightarrow> bool" where
  "limits_ok l \<longleftrightarrow> (\<forall>x. low l = Some x \<longrightarrow> d_finite x) \<and> (\<forall>x. high l = Some x \<longrightarrow> d_finite x) \<and>
     (\<forall>x y. low l = Some x \<longrightarrow> high l = Some y \<longrightarrow> d_lt x y)"

definition sensor_ok :: "SensorConfig \<Rightarrow> bool" where
  "sensor_ok s \<longleftrightarrow> is_valid_id (sensor_id s) \<and>
     unat (address s) + unat (register_count (data_type s)) \<le> 65536 \<and>
     d_finite (scale s) \<and> \<not> d_eq (scale s) 0 \<and> d_finite (offset s) \<and> limits_ok (limits s) \<and>
     detection_ok (detection s)"

definition device_ok :: "ModbusDeviceConfig \<Rightarrow> bool" where
  "device_ok d \<longleftrightarrow> is_valid_id (device_id d) \<and> host d \<noteq> [] \<and> port d \<noteq> 0 \<and>
     50 \<le> poll_interval_ms d \<and> poll_interval_ms d \<le> 86400000 \<and> 100 \<le> timeout_ms d \<and>
     timeout_ms d \<le> 60000 \<and> sensors d \<noteq> [] \<and> (\<forall>s \<in> set (sensors d). sensor_ok s)"

definition export_ok :: "ExportConfig \<Rightarrow> bool" where
  "export_ok e \<longleftrightarrow> 16 \<le> exp_queue_capacity e \<and> exp_queue_capacity e \<le> 2 ^ 24 \<and>
     exp_queue_capacity e AND (exp_queue_capacity e - 1) = 0 \<and> 1 \<le> exp_batch_size e \<and>
     exp_batch_size e \<le> exp_queue_capacity e \<and> exp_batch_size e \<le> 2 ^ 20 \<and>
     10 \<le> flush_interval_ms e \<and> (enabled e \<longrightarrow> directory e \<noteq> []) \<and> segment_max_mb e \<noteq> 0 \<and>
     (max_total_mb e = 0 \<or> 2 * unat (segment_max_mb e) \<le> unat (max_total_mb e))"

definition config_ok :: "AppConfig \<Rightarrow> bool" where
  "config_ok cfg \<longleftrightarrow> http_port cfg \<noteq> 0 \<and> ws_port cfg \<noteq> 0 \<and> http_port cfg \<noteq> ws_port cfg \<and>
     1 \<le> worker_threads cfg \<and> worker_threads cfg \<le> 256 \<and> 1 \<le> retention_hours cfg \<and>
     (\<forall>d \<in> set (devices cfg). device_ok d) \<and> distinct (map device_id (devices cfg)) \<and>
     distinct (map sensor_id (concat (map sensors (devices cfg)))) \<and>
     is_supported_language (language (notifications cfg)) \<and>
     (\<forall>c \<in> set (channels (notifications cfg)). channel_is_complete c) \<and> export_ok (export_config cfg)"

named_theorems parse_defs \<open>definitions of the field readers and the result monad\<close>

declare ebind_Inr_iff [parse_defs] check_Inr_iff [parse_defs] fail_def [parse_defs]

lemma get_int_bounds:
  assumes "get_int J obj key fallback path lo hi = Inr (w :: 'w::len word)" "0 \<le> lo" "hi < 2 ^ LENGTH('w)"
  shows "w = fallback \<or> lo \<le> uint w \<and> uint w \<le> hi"
proof -
  have "uint (of_int i :: 'w word) = i" if "lo \<le> i" "i \<le> hi" for i
    using that assms(2,3) by (simp add: uint_word_of_int_eq take_bit_int_eq_self)
  then show ?thesis
    using assms(1) by (auto simp: get_int_def Let_def parse_defs split: if_splits)
qed

lemma get_number_finite:
  "get_number J obj key fallback path = Inr d \<Longrightarrow> d_finite fallback \<Longrightarrow> d_finite d"
  by (auto simp: get_number_def Let_def parse_defs split: if_splits)

lemma default_literals [simp]:
  "d_finite 0" "d_finite (d_of_rat 1)" "d_finite (d_of_rat 3)" "d_finite (d_of_rat 5)"
  "d_finite (d_of_rat (1 / 5))" "d_finite (d_of_rat (1 / 2))" "d_lt 0 (d_of_rat 3)"
  "d_lt 0 (d_of_rat (1 / 5))" "d_le (d_of_rat (1 / 5)) (d_of_rat 1)" "\<not> d_eq (d_of_rat 1) 0"
  "d_finite (d_of_rat 0)"
  by code_simp+

lemma get_optional_number_finite:
  "get_optional_number J obj key path = Inr (Some d) \<Longrightarrow> d_finite d"
  by (auto simp: get_optional_number_def parse_defs split: if_splits dest!: get_number_finite)

lemma not_le_lt: "\<not> d_le x y \<Longrightarrow> d_finite x \<Longrightarrow> d_finite y \<Longrightarrow> d_lt y x"
  using d_not_lt d_finite_not_nan by blast

lemma not_lt_le: "\<not> d_lt x y \<Longrightarrow> d_finite x \<Longrightarrow> d_finite y \<Longrightarrow> d_le y x"
  using d_not_lt d_finite_not_nan by blast

lemma parse_detector_ok: "parse_detector J j path = Inr d \<Longrightarrow> detector_ok d"
proof -
  assume p: "parse_detector J j path = Inr d"
  have w: "2 \<le> w \<and> w \<le> 100000" if "get_int J j ''window'' 60 path 2 100000 = Inr (w :: u64)" for w
    using get_int_bounds [OF that] by (auto simp: word_le_def)
  from p show ?thesis
    by (auto simp: parse_detector_def detector_ok_def Let_def parse_defs default_DetectorConfig_def
        dest!: w get_number_finite split: if_splits intro: not_le_lt not_lt_le)
qed

lemma parse_list_all:
  assumes "parse_list J f lst path = Inr ys" "\<And>j p y. f j p = Inr y \<Longrightarrow> P y"
  shows "\<forall>y \<in> set ys. P y"
proof
  fix y assume "y \<in> set ys"
  then obtain i where i: "i < length ys" "y = ys ! i" by (auto simp: in_set_conv_nth)
  with assms(1) have "(\<lambda>(i, x). f x (indexed path i)) (enumerate 0 (j_elems J lst) ! i) = Inr y"
    by (auto simp: parse_list_def emap_Inr)
  with assms(2) show "P y" by (cases "enumerate 0 (j_elems J lst) ! i") auto
qed

lemma parse_list_length: "parse_list J f lst path = Inr ys \<Longrightarrow> length ys = length (j_elems J lst)"
  by (simp add: parse_list_def emap_Inr)

lemma default_detection_ok: "detection_ok default_detection"
  by (auto simp: detection_ok_def default_detection_def default_DetectionConfig_def detector_ok_def
      default_DetectorConfig_def word_le_def)

lemma parse_detection_ok: "parse_detection J j path = Inr d \<Longrightarrow> length (detectors d) < 2 ^ 63 \<Longrightarrow> detection_ok d"
proof -
  assume p: "parse_detection J j path = Inr d" and len: "length (detectors d) < 2 ^ 63"
  from p obtain cool votes where
    d: "d = default_detection\<lparr>detectors := detectors d, cooldown_seconds := cool, votes_required := votes\<rparr>"
    and ds: "\<forall>x \<in> set (detectors d). detector_ok x"
    and c: "get_int J j ''cooldown_seconds'' (cooldown_seconds default_detection) path 0 86400 = Inr cool"
    and v: "get_int J j ''votes_required'' 1 path 1 (int (max 1 (length (detectors d)))) = Inr votes"
    using default_detection_ok
    by (auto simp: parse_detection_def parse_defs Let_def detection_ok_def split: if_splits
        dest: parse_list_all [where P = detector_ok, OF _ parse_detector_ok])
  have "uint cool \<le> 86400"
    using get_int_bounds [OF c] by (auto simp: default_detection_def default_DetectionConfig_def)
  moreover have vb: "1 \<le> uint votes \<and> uint votes \<le> int (max 1 (length (detectors d)))"
    using get_int_bounds [OF v] len by (auto simp: max_def)
  moreover have "cooldown_seconds d = cool" "votes_required d = votes" 
    using arg_cong [OF d, of cooldown_seconds] arg_cong [OF d, of votes_required] by simp_all
  moreover have "unat votes \<le> max 1 (length (detectors d))"
    unfolding unat_eq_nat_uint nat_le_iff using vb by blast
  ultimately have "cooldown_seconds d \<le> 86400 \<and> 1 \<le> votes_required d \<and>
      unat (votes_required d) \<le> max 1 (length (detectors d))"
    by (simp add: word_le_def)
  then show ?thesis using ds by (simp add: detection_ok_def)
qed

lemma parse_limits_ok: "parse_limits J j path = Inr l \<Longrightarrow> limits_ok l"
  by (auto simp: parse_limits_def limits_ok_def parse_defs Let_def split: if_splits
      dest: get_optional_number_finite intro!: not_le_lt)

lemma parse_sensor_ok:
  assumes p: "parse_sensor J j path = Inr s" and len: "length (detectors (detection s)) < 2 ^ 63"
  shows "sensor_ok s"
proof -
  have "detection_ok (detection s)"
    using p len default_detection_ok
    by (auto simp: parse_sensor_def parse_defs split: if_splits intro: parse_detection_ok)
  moreover have "limits_ok (limits s)" "d_finite (scale s)" "d_finite (offset s)" "\<not> d_eq (scale s) 0"
    "is_valid_id (sensor_id s)" "unat (address s) + unat (register_count (data_type s)) \<le> 65536"
    using p by (auto simp: parse_sensor_def parse_defs split: if_splits
        dest: parse_limits_ok get_number_finite)
  ultimately show ?thesis by (simp add: sensor_ok_def)
qed

text \<open>In memory no list is longer than \<open>2 ^ 63\<close>, the bound of the comparison of \<open>votes_required\<close>.\<close>

definition fits_memory :: "AppConfig \<Rightarrow> bool" where
  "fits_memory cfg \<longleftrightarrow> (\<forall>d \<in> set (devices cfg). \<forall>s \<in> set (sensors d).
     length (detectors (detection s)) < 2 ^ 63)"

lemma parse_device_ok:
  assumes p: "parse_device J env j path = Inr d"
    and len: "\<forall>s \<in> set (sensors d). length (detectors (detection s)) < 2 ^ 63"
  shows "device_ok d"
proof -
  have prt: "port d \<noteq> 0"
    using p by (auto simp: parse_device_def parse_defs Let_def split: if_splits
        dest!: get_int_bounds [of J j "''port''"])
  have poll: "50 \<le> uint (poll_interval_ms d)" "uint (poll_interval_ms d) \<le> 86400000"
    using p by (auto simp: parse_device_def parse_defs Let_def split: if_splits
        dest!: get_int_bounds [of J j "''poll_interval_ms''"])
  have tmo: "100 \<le> uint (timeout_ms d)" "uint (timeout_ms d) \<le> 60000"
    using p by (auto simp: parse_device_def parse_defs Let_def split: if_splits
        dest!: get_int_bounds [of J j "''timeout_ms''"])
  have valid: "is_valid_id (device_id d)" "host d \<noteq> []"
    using p by (auto simp: parse_device_def parse_defs Let_def split: if_splits)
  have "sensors d \<noteq> [] \<and> (\<forall>s \<in> set (sensors d). sensor_ok s)"
  proof (cases "j_contains J j ''sensors''")
    case True
    then obtain lst where lst: "j_elems J lst \<noteq> []"
        "parse_list J (parse_sensor J) lst (path @ ''.sensors'') = Inr (sensors d)"
      using p by (auto simp: parse_device_def parse_defs Let_def split: if_splits)
    have "\<forall>s \<in> set (sensors d). length (detectors (detection s)) < 2 ^ 63 \<longrightarrow> sensor_ok s"
      by (rule parse_list_all [OF lst(2)]) (auto intro: parse_sensor_ok)
    then show ?thesis using parse_list_length [OF lst(2)] lst(1) len by auto
  next
    case False
    then have "sensors d = [default_SensorConfig\<lparr>sensor_id := device_id d, sensor_name := device_id d,
        detection := default_detection\<rparr>]"
      using p by (auto simp: parse_device_def parse_defs Let_def split: if_splits)
    then show ?thesis
      using valid default_detection_ok
      by (auto simp: sensor_ok_def default_SensorConfig_def register_count_def limits_ok_def)
  qed
  then show ?thesis using prt poll tmo valid by (simp add: device_ok_def word_le_def)
qed

definition export_parsed :: "ExportConfig \<Rightarrow> bool" where
  "export_parsed e \<longleftrightarrow> 16 \<le> exp_queue_capacity e \<and> exp_queue_capacity e \<le> 2 ^ 24 \<and>
     1 \<le> exp_batch_size e \<and> exp_batch_size e \<le> 2 ^ 20 \<and> 10 \<le> flush_interval_ms e"

lemma parse_export_parsed: "parse_export J j = Inr e \<Longrightarrow> export_parsed e"
proof -
  assume p: "parse_export J j = Inr e"
  let ?g = "\<lambda>key dflt. get_int J j key dflt ''export''"
  have q: "?g ''queue_capacity'' 65536 16 (2 ^ 24) = Inr (exp_queue_capacity e)"
    and b: "?g ''batch_size'' 1000 1 (2 ^ 20) = Inr (exp_batch_size e)"
    and f: "?g ''flush_interval_ms'' 1000 10 3600000 = Inr (flush_interval_ms e)"
    using p by (auto simp: parse_export_def parse_defs Let_def default_ExportConfig_def split: if_splits)
  have "16 \<le> exp_queue_capacity e \<and> exp_queue_capacity e \<le> 2 ^ 24"
    using get_int_bounds [OF q] by (auto simp: word_le_def)
  moreover have "1 \<le> exp_batch_size e \<and> exp_batch_size e \<le> 2 ^ 20"
    using get_int_bounds [OF b] by (auto simp: word_le_def)
  moreover have "10 \<le> flush_interval_ms e"
    using get_int_bounds [OF f] by (auto simp: word_le_def)
  ultimately show ?thesis by (simp add: export_parsed_def)
qed

lemma check_sensor_ids_Inr:
  "check_sensor_ids i seen ss = Inr seen' \<longleftrightarrow> distinct (map sensor_id ss) \<and>
     sensor_id ` set ss \<inter> seen = {} \<and> seen' = sensor_id ` set ss \<union> seen"
  by (induction ss arbitrary: seen) (auto simp: fail_def)

lemma check_ids_Inr:
  "check_ids i dids sids ds = Inr () \<longleftrightarrow> distinct (map device_id ds) \<and> device_id ` set ds \<inter> dids = {} \<and>
     distinct (map sensor_id (concat (map sensors ds))) \<and>
     sensor_id ` set (concat (map sensors ds)) \<inter> sids = {}"
proof (induction ds arbitrary: i dids sids)
  case (Cons d ds)
  show ?case
    by (cases "device_id d \<in> dids")
      (simp_all add: fail_def ebind_Inr_iff check_sensor_ids_Inr Cons.IH image_Un Int_Un_distrib
        Int_Un_distrib2 Int_commute conj_ac del: set_concat, blast?)
qed simp

text \<open>Overrides touch neither the devices nor the queue settings.\<close>

lemma overrides_keep:
  "devices (apply_env_overrides env cfg) = devices cfg"
  "export_parsed (export_config (apply_env_overrides env cfg)) = export_parsed (export_config cfg)"
  by (simp_all add: apply_env_overrides_def export_overrides_def Let_def export_parsed_def)

lemma validate_ok:
  assumes v: "validate cfg = Inr cfg'" and devs: "\<forall>d \<in> set (devices cfg). device_ok d"
    and e: "export_parsed (export_config cfg)"
  shows "config_ok cfg'"
proof -
  have cfg': "cfg' = drop_incomplete_channels cfg"
    using v by (auto simp: validate_def Let_def parse_defs split: if_splits)
  have ids: "check_ids 0 {} {} (devices cfg) = Inr ()"
    using v by (auto simp: validate_def Let_def parse_defs split: if_splits)
  have "worker_threads cfg \<noteq> 0" "retention_hours cfg \<noteq> 0" "worker_threads cfg \<le> 256"
    using v by (auto simp: validate_def Let_def parse_defs split: if_splits)
  then have "1 \<le> worker_threads cfg" "1 \<le> retention_hours cfg" "worker_threads cfg \<le> 256"
    by (simp_all add: word_le_nat_alt Suc_le_eq unat_gt_0)
  moreover have "export_ok (export_config cfg)"
    using v e by (auto simp: validate_def Let_def parse_defs export_ok_def export_parsed_def split: if_splits)
  moreover have "http_port cfg \<noteq> 0" "ws_port cfg \<noteq> 0" "http_port cfg \<noteq> ws_port cfg"
    "is_supported_language (language (notifications cfg))"
    using v by (auto simp: validate_def Let_def parse_defs split: if_splits)
  moreover have "distinct (map device_id (devices cfg))"
    "distinct (map sensor_id (concat (map sensors (devices cfg))))"
    using ids by (simp_all add: check_ids_Inr)
  ultimately show ?thesis
    using devs unfolding cfg' config_ok_def drop_incomplete_channels_def Let_def by simp
qed

section \<open>Properties\<close>

text \<open>C19. Whatever the document, the JSON library and the environment: a configuration that loads
  is valid. Ports differ and are not 0, every device and sensor is well formed with a unique id, no
  sensor reads past register 65535, scales are finite and not 0, limits are ordered, detector
  parameters are in range, the vote quorum can be met, every channel is complete, and the export
  queue is a power of two that holds a batch.\<close>

theorem load_from_string_ok:
  assumes "load_from_string J env text = Inr cfg" and "fits_memory cfg"
  shows "config_ok cfg"
proof -
  from assms(1) obtain j where j: "parse J env j = Inr cfg"
    by (auto simp: load_from_string_def split: sum.splits)
  from j obtain cfg0 where v: "validate (apply_env_overrides env cfg0) = Inr cfg"
    and devs: "devices cfg0 = [] \<or> (\<exists>lst. parse_list J (parse_device J env) lst ''devices'' = Inr (devices cfg0))"
    and e: "export_config cfg0 = default_ExportConfig \<or> (\<exists>x. parse_export J x = Inr (export_config cfg0))"
    unfolding parse_def Let_def ebind_Inr_iff if_distrib
    by (auto simp: parse_defs default_AppConfig_def split: if_splits) fastforce+
  have same: "devices cfg = devices cfg0"
    using v by (auto simp: validate_def Let_def parse_defs drop_incomplete_channels_def overrides_keep
        split: if_splits)
  have "\<forall>d \<in> set (devices cfg0). (\<forall>s \<in> set (sensors d). length (detectors (detection s)) < 2 ^ 63) \<longrightarrow> device_ok d"
    using devs by (auto dest!: parse_list_all [where P = "\<lambda>d. (\<forall>s \<in> set (sensors d).
        length (detectors (detection s)) < 2 ^ 63) \<longrightarrow> device_ok d"] intro: parse_device_ok)
  then have "\<forall>d \<in> set (devices cfg0). device_ok d"
    using assms(2) same by (auto simp: fits_memory_def)
  moreover have "export_parsed (export_config cfg0)"
    using e
  proof
    assume "export_config cfg0 = default_ExportConfig"
    then show ?thesis by (simp add: export_parsed_def default_ExportConfig_def)
  qed (blast intro: parse_export_parsed)
  ultimately show ?thesis using validate_ok [OF v] by (simp add: overrides_keep)
qed

theorem load_from_string_ok_witness:
  "config_ok (projr (load_from_string jv_lib Map.empty (projr (j_dump jv_lib (J_object [])))))"
proof -
  have "load_from_string jv_lib Map.empty (projr (j_dump jv_lib (J_object []))) = Inr default_AppConfig"
    by (simp add: load_from_string_def jv_lib_def parse_def get_string_def get_int_def get_bool_def
        ebind_def default_AppConfig_def validate_def apply_env_overrides_def export_overrides_def
        env_var_def env_channels_def or_else_def parse_or_def parse_or_bool_def Let_def
        default_NotificationsConfig_def default_ExportConfig_def is_supported_language_def
        drop_incomplete_channels_def expand_env.simps)
  moreover have "fits_memory default_AppConfig" by (simp add: fits_memory_def default_AppConfig_def)
  ultimately show ?thesis using load_from_string_ok by fastforce
qed

end
