(* ===== verification/HttpServer.thy ===== *)
theory HttpServer
  imports Metrics AlertLog SeriesStore WsServer Serialization Calendar Config
begin

text \<open>
  \<open>src/api/http_server.cpp\<close>: the REST API. cpp-httplib parses requests, serves the static files and
  calls the handlers set up here; a request is what the handlers ask of it, a response what they write.
  Handlers run to completion and may throw (\<open>Inl\<close>), which the exception handler turns into a 500.
\<close>

section \<open>Requests and responses\<close>

record Request =
  rq_method :: string
  rq_path :: string
  rq_param :: "string \<Rightarrow> string option"
  rq_header :: "string \<Rightarrow> string" \<comment> \<open>empty when absent\<close>

record Response =
  rs_status :: int
  rs_body :: string
  rs_type :: string
  rs_headers :: "(string \<times> string) list"

record HttpServerOptions =
  opt_port :: u16
  opt_ws_port :: u16
  opt_api_token :: string

record HttpServer =
  hs_store :: SeriesStore
  hs_alerts :: AlertLog
  hs_devices :: DeviceRegistry
  hs_configs :: "ModbusDeviceConfig list"
  hs_metrics :: Metrics
  hs_options :: HttpServerOptions

definition kMaxJsonPoints :: nat where "kMaxJsonPoints = 10000"

definition send_json :: "'j Json \<Rightarrow> 'j \<Rightarrow> int \<Rightarrow> string + Response" where
  "send_json J body st =
     (case j_dump J body of Inl e \<Rightarrow> Inl e
      | Inr text \<Rightarrow> Inr \<lparr>rs_status = st, rs_body = text, rs_type = ''application/json'', rs_headers = []\<rparr>)"

definition send_error :: "'j Json \<Rightarrow> int \<Rightarrow> string \<Rightarrow> string + Response" where
  "send_error J st message = send_json J (j_object J [(''error'', j_string J message)]) st"

text \<open>\<open>std::stoll\<close>: the number and how many characters it took; \<open>None\<close> is an exception.\<close>

definition stoll :: "string \<Rightarrow> (int \<times> nat) option" where
  "stoll s =
     (let t = dropWhile is_space s;
          neg = (t \<noteq> [] \<and> hd t = CHR ''-'');
          t = (if t \<noteq> [] \<and> (hd t = CHR ''-'' \<or> hd t = CHR ''+'') then tl t else t);
          ds = takeWhile is_digit t;
          v = (if neg then - int (dec_val ds) else int (dec_val ds))
      in if ds = [] \<or> v < - (2 ^ 63) \<or> 2 ^ 63 \<le> v then None
         else Some (v, length s - length (dropWhile is_digit t)))"

text \<open>\<open>Inl\<close> is the response already written.\<close>

definition int_param :: "'j Json \<Rightarrow> Request \<Rightarrow> string \<Rightarrow> int \<Rightarrow> int \<Rightarrow> int \<Rightarrow> (string + Response) + int" where
  "int_param J req name fallback min_value max_value =
     (case rq_param req name of None \<Rightarrow> Inr fallback
      | Some raw \<Rightarrow>
          let bad = Inl (send_error J 400 (''parameter '' @ quoted name @ '' must be an integer between '' @
                dec_int min_value @ '' and '' @ dec_int max_value))
          in case stoll raw of None \<Rightarrow> bad
             | Some (v, consumed) \<Rightarrow>
                 if consumed = length raw \<and> min_value \<le> v \<and> v \<le> max_value then Inr v else bad)"

definition host_without_port :: "string \<Rightarrow> string" where
  "host_without_port hname =
     (if hname \<noteq> [] \<and> hd hname = CHR ''['' then
        (case find_sub '']'' hname of None \<Rightarrow> hname | Some n \<Rightarrow> take (n + 1) hname)
      else case find_sub '':'' hname of None \<Rightarrow> hname | Some n \<Rightarrow> take n hname)"

definition limits_json :: "'j Json \<Rightarrow> Limits \<Rightarrow> 'j" where
  "limits_json J l = j_object J
     [(''low'', case low l of None \<Rightarrow> j_null J | Some d \<Rightarrow> j_double J d),
      (''high'', case high l of None \<Rightarrow> j_null J | Some d \<Rightarrow> j_double J d)]"

definition to_iso8601 :: "time_point \<Rightarrow> string" where
  "to_iso8601 tp = date_text tp @ ''T'' @ clock_text tp @ ''.'' @ pad0 3 (dec_nat (millis_part tp)) @ ''Z''"

section \<open>Who may ask\<close>

definition kBearer :: string where "kBearer = ''Bearer ''"

definition authorized :: "HttpServerOptions \<Rightarrow> Request \<Rightarrow> bool" where
  "authorized opts req =
     (if opt_api_token opts = [] then True
      else let header = rq_header req ''Authorization''
           in if length kBearer < length header \<and> take (length kBearer) header = kBearer
              then constant_time_equals (drop (length kBearer) header) (opt_api_token opts)
              else case rq_param req ''token'' of None \<Rightarrow> False
                | Some t \<Rightarrow> constant_time_equals t (opt_api_token opts))"

definition protected_path :: "string \<Rightarrow> bool" where
  "protected_path path \<longleftrightarrow> (starts_with path ''/api/'' \<and> path \<noteq> ''/api/v1/config'') \<or> path = ''/metrics''"

text \<open>The pre-routing handler: \<open>None\<close> lets the request pass.\<close>

definition auth_gate :: "'j Json \<Rightarrow> HttpServerOptions \<Rightarrow> Request \<Rightarrow> (string + Response) option" where
  "auth_gate J opts req =
     (if rq_method req = ''OPTIONS'' \<or> \<not> protected_path (rq_path req) \<or> authorized opts req then None
      else Some (case send_error J 401 ''unauthorized'' of Inl e \<Rightarrow> Inl e
             | Inr r \<Rightarrow> Inr (r\<lparr>rs_headers := [(''WWW-Authenticate'', ''Bearer'')]\<rparr>)))"

section \<open>Handlers\<close>

definition find_sensor :: "ModbusDeviceConfig list \<Rightarrow> string \<Rightarrow> SensorConfig option" where
  "find_sensor configs sid = find (\<lambda>s. sensor_id s = sid) (concat (map sensors configs))"

definition device_json :: "'j Json \<Rightarrow> DeviceRegistry \<Rightarrow> ModbusDeviceConfig \<Rightarrow> 'j" where
  "device_json J registry dev = j_object J
     [(''id'', j_string J (device_id dev)),
      (''online'', j_bool J (case status registry (device_id dev) of None \<Rightarrow> False | Some b \<Rightarrow> b)),
      (''poll_interval_ms'', j_uint J (ucast (poll_interval_ms dev))),
      (''sensors'', j_array J (map (\<lambda>s. j_string J (sensor_id s)) (sensors dev)))]"

definition get_devices :: "'j Json \<Rightarrow> HttpServer \<Rightarrow> string + Response" where
  "get_devices J s = send_json J (j_array J (map (device_json J (hs_devices s)) (hs_configs s))) 200"

definition point_json :: "'j Json \<Rightarrow> double Sample \<Rightarrow> 'j" where
  "point_json J x = j_object J
     [(''timestamp'', j_string J (to_iso8601 (smp_timestamp x))), (''value'', j_double J (smp_value x))]"

definition sensor_json :: "'j Json \<Rightarrow> SeriesStore \<Rightarrow> string \<Rightarrow> SensorConfig \<Rightarrow> 'j ub" where
  "sensor_json J store dev_id sensor =
     map_option (\<lambda>latest. j_object J
       [(''id'', j_string J (sensor_id sensor)), (''name'', j_string J (sensor_name sensor)),
        (''unit'', j_string J (sensor_unit sensor)), (''device_id'', j_string J dev_id),
        (''limits'', limits_json J (limits sensor)),
        (''latest'', case latest of None \<Rightarrow> j_null J | Some x \<Rightarrow> point_json J x)])
     (store_latest (sensor_id sensor) store)"

definition get_sensors :: "'j Json \<Rightarrow> HttpServer \<Rightarrow> (string + Response) ub" where
  "get_sensors J s =
     map_option (\<lambda>js. send_json J (j_array J js) 200)
       (those (concat (map (\<lambda>dev. map (sensor_json J (hs_store s) (device_id dev)) (sensors dev)) (hs_configs s))))"

definition csv_line :: "double Sample \<Rightarrow> string" where
  "csv_line x = to_iso8601 (smp_timestamp x) @ '','' @ fmt_g 15 (smp_value x) @ [CHR 0x0A]"

text \<open>The loop \<open>for (i = 0; i < samples.size(); i += stride)\<close>.\<close>

function every :: "nat \<Rightarrow> nat \<Rightarrow> 'a list \<Rightarrow> 'a list" where
  "every stride i xs = (if 0 < stride \<and> i < length xs then xs ! i # every stride (i + stride) xs else [])"
  by auto
termination every
  by (relation "measure (\<lambda>(stride, i, xs). length xs - i)") auto

declare every.simps [simp del]

definition thinned :: "'a list \<Rightarrow> 'a list" where
  "thinned xs =
     (let stride = (if kMaxJsonPoints < length xs then (length xs + kMaxJsonPoints - 1) div kMaxJsonPoints else 1)
      in every stride 0 xs)"

definition series_response :: "'j Json \<Rightarrow> string \<Rightarrow> string \<Rightarrow> double Sample list \<Rightarrow> string + Response" where
  "series_response J sid fmt samples =
     (if fmt = ''csv''
      then Inr \<lparr>rs_status = 200, rs_body = ''timestamp,value'' @ [CHR 0x0A] @ concat (map csv_line samples),
             rs_type = ''text/csv; charset=utf-8'',
             rs_headers = [(''Content-Disposition'', ''attachment; filename='' @ [CHR 0x22] @ sid @ ''.csv'' @ [CHR 0x22])]\<rparr>
      else send_json J (j_array J (map (point_json J) (thinned samples))) 200)"

definition get_series ::
  "'j Json \<Rightarrow> os_write \<Rightarrow> time_point \<Rightarrow> string \<Rightarrow> Request \<Rightarrow> HttpServer \<Rightarrow> HttpServer \<times> (string + Response) ub" where
  "get_series J out now sid req s =
     (if find_sensor (hs_configs s) sid = None
      then (s, Some (send_error J 404 (''unknown sensor '' @ quoted sid)))
      else case int_param J req ''since'' 300 1 315360000 of
        Inl r \<Rightarrow> (s, Some r)
      | Inr since \<Rightarrow>
          let fmt = (case rq_param req ''format'' of None \<Rightarrow> ''json'' | Some f \<Rightarrow> f)
          in if fmt \<noteq> ''json'' \<and> fmt \<noteq> ''csv''
             then (s, Some (send_error J 400
               (''parameter '' @ quoted ''format'' @ '' must be '' @ quoted ''json'' @ '' or '' @ quoted ''csv'')))
             else let (store, r) = history out sid (now - since * 1000000000) (hs_store s)
                  in (s\<lparr>hs_store := store\<rparr>, map_option (series_response J sid fmt) r))"

definition get_alerts :: "'j Json \<Rightarrow> Request \<Rightarrow> HttpServer \<Rightarrow> string + Response" where
  "get_alerts J req s =
     (case int_param J req ''limit'' 50 1 1000 of Inl r \<Rightarrow> r
      | Inr limit \<Rightarrow> send_json J (j_array J (map (\<lambda>event. j_object J (alert_fields J event @
          [(''timestamp'', j_string J (to_iso8601 (a_timestamp event)))])) (log_recent (nat limit) (hs_alerts s)))) 200)"

definition get_config :: "'j Json \<Rightarrow> string \<Rightarrow> Request \<Rightarrow> HttpServer \<Rightarrow> string + Response" where
  "get_config J version req s = send_json J (j_object J
     [(''ws_port'', j_uint J (ucast (opt_ws_port (hs_options s)))),
      (''ws_host'', j_string J (host_without_port (rq_header req ''Host''))),
      (''auth_required'', j_bool J (opt_api_token (hs_options s) \<noteq> [])),
      (''version'', j_string J version)]) 200"

definition get_metrics :: "HttpServer \<Rightarrow> string + Response" where
  "get_metrics s = Inr \<lparr>rs_status = 200, rs_body = render (hs_metrics s),
     rs_type = ''text/plain; version=0.0.4; charset=utf-8'', rs_headers = []\<rparr>"

definition get_healthz :: "'j Json \<Rightarrow> string \<Rightarrow> string + Response" where
  "get_healthz J version =
     send_json J (j_object J [(''status'', j_string J ''ok''), (''version'', j_string J version)]) 200"

section \<open>Routing\<close>

definition id_char :: "char \<Rightarrow> bool" where
  "id_char c \<longleftrightarrow> (CHR ''A'' \<le> c \<and> c \<le> CHR ''Z'') \<or> (CHR ''a'' \<le> c \<and> c \<le> CHR ''z'') \<or>
     (CHR ''0'' \<le> c \<and> c \<le> CHR ''9'') \<or> c = CHR ''_'' \<or> c = CHR ''.'' \<or> c = CHR ''-''"

definition series_path :: "string \<Rightarrow> string option" where
  "series_path path = (let prefix = ''/api/v1/series/''; sid = drop (length prefix) path
     in if starts_with path prefix \<and> sid \<noteq> [] \<and> list_all id_char sid then Some sid else None)"

definition not_found :: Response where
  "not_found = \<lparr>rs_status = 404, rs_body = [], rs_type = [], rs_headers = []\<rparr>"

definition no_content :: Response where
  "no_content = \<lparr>rs_status = 204, rs_body = [], rs_type = [], rs_headers = []\<rparr>"

text \<open>The routes of \<open>setup_routes\<close> for a GET.\<close>

definition http_get ::
  "'j Json \<Rightarrow> string \<Rightarrow> os_write \<Rightarrow> time_point \<Rightarrow> Request \<Rightarrow> HttpServer \<Rightarrow> HttpServer \<times> (string + Response) ub" where
  "http_get J version out now req s =
     (let path = rq_path req in
      if path = ''/api/v1/devices'' then (s, Some (get_devices J s))
      else if path = ''/api/v1/sensors'' then (s, get_sensors J s)
      else case series_path path of Some sid \<Rightarrow> get_series J out now sid req s
      | None \<Rightarrow>
          if path = ''/api/v1/alerts'' then (s, Some (get_alerts J req s))
          else if path = ''/api/v1/config'' then (s, Some (get_config J version req s))
          else if path = ''/metrics'' then (s, Some (get_metrics s))
          else if path = ''/healthz'' then (s, Some (get_healthz J version))
          else (s, Some (Inr not_found)))"

definition default_headers :: "(string \<times> string) list" where
  "default_headers = [(''Access-Control-Allow-Origin'', ''*''), (''Access-Control-Allow-Headers'', ''Authorization''),
     (''X-Content-Type-Options'', ''nosniff''), (''Referrer-Policy'', ''no-referrer'')]"

text \<open>The exception handler. An error of its own would leave the server (\<open>Inl\<close>).\<close>

definition on_exception :: "'j Json \<Rightarrow> string + Response \<Rightarrow> string + Response" where
  "on_exception J r = (case r of Inl e \<Rightarrow> send_error J 500 ''internal server error'' | Inr r \<Rightarrow> Inr r)"

text \<open>How cpp-httplib combines what \<open>setup_routes\<close> registers: the gate, then \<open>static\<close> (a file below
  \<open>web_root\<close>), then the routes.\<close>

definition http_handle ::
  "'j Json \<Rightarrow> string \<Rightarrow> os_write \<Rightarrow> (string \<Rightarrow> Response option) \<Rightarrow> time_point \<Rightarrow> Request \<Rightarrow> HttpServer \<Rightarrow>
    HttpServer \<times> (string + Response) ub" where
  "http_handle J version out static now req s =
     (case auth_gate J (hs_options s) req of Some r \<Rightarrow> (s, Some (on_exception J r))
      | None \<Rightarrow>
          let is_get = (rq_method req = ''GET'' \<or> rq_method req = ''HEAD'')
          in case (if is_get then static (rq_path req) else None) of Some r \<Rightarrow> (s, Some (Inr r))
             | None \<Rightarrow>
                 if is_get then (case http_get J version out now req s of (s', r) \<Rightarrow> (s', map_option (on_exception J) r))
                 else if rq_method req = ''OPTIONS'' \<and> starts_with (rq_path req) ''/'' then (s, Some (Inr no_content))
                 else (s, Some (Inr not_found)))"

text \<open>\<open>start()\<close>: the port bound, or a failure. \<open>bind_any\<close> and \<open>bind_to\<close> are the outcomes of the bind.\<close>

definition http_start :: "int \<Rightarrow> (u16 \<Rightarrow> bool) \<Rightarrow> HttpServerOptions \<Rightarrow> u16 option" where
  "http_start bind_any bind_to opts =
     (if opt_port opts = 0 then (if bind_any \<le> 0 then None else Some (word_of_int bind_any))
      else if \<not> bind_to (opt_port opts) then None else Some (opt_port opts))"

section \<open>Authorization\<close>

lemma authorized_iff:
  "authorized opts req \<longleftrightarrow> opt_api_token opts = [] \<or> rq_header req ''Authorization'' = kBearer @ opt_api_token opts \<or>
     (\<not> (length kBearer < length (rq_header req ''Authorization'') \<and>
          take (length kBearer) (rq_header req ''Authorization'') = kBearer) \<and>
      rq_param req ''token'' = Some (opt_api_token opts))"
proof -
  let ?h = "rq_header req ''Authorization''" and ?t = "opt_api_token opts"
  have "?h = kBearer @ ?t \<longleftrightarrow> take (length kBearer) ?h = kBearer \<and> drop (length kBearer) ?h = ?t"
    by (metis append_eq_conv_conj append_take_drop_id)
  moreover have "?h = kBearer @ ?t \<Longrightarrow> ?t \<noteq> [] \<Longrightarrow> length kBearer < length ?h" by simp
  ultimately show ?thesis
    by (auto simp: authorized_def Let_def constant_time_equals_iff split: option.split)
qed

lemma unprotected_routes:
  assumes "\<not> protected_path path"
  shows "path \<noteq> ''/api/v1/devices'' \<and> path \<noteq> ''/api/v1/sensors'' \<and> series_path path = None \<and>
    path \<noteq> ''/api/v1/alerts'' \<and> path \<noteq> ''/metrics''"
proof -
  have "series_path path = None"
  proof (rule ccontr)
    assume "series_path path \<noteq> None"
    then have "starts_with path ''/api/v1/series/''" by (auto simp: series_path_def Let_def split: if_splits)
    then obtain t where "path = ''/api/v1/series/'' @ t" unfolding starts_with_def by (metis append_take_drop_id)
    with assms show False by (simp add: protected_path_def starts_with_def)
  qed
  with assms show ?thesis by (auto simp: protected_path_def starts_with_def)
qed

section \<open>Thinning\<close>

lemma every_nth:
  assumes "0 < k"
  shows "every k i xs = map (\<lambda>j. xs ! (i + j * k)) [0..<(length xs - i + k - 1) div k]"
  using assms
proof (induction k i xs rule: every.induct)
  case (1 k i xs)
  show ?case
  proof (cases "i < length xs")
    case False
    then have "length xs - i + k - 1 < k" using 1(2) by simp
    with False show ?thesis by (simp add: every.simps)
  next
    case True
    define n where "n = (length xs - (i + k) + k - 1) div k"
    have "(length xs - i + k - 1) div k = Suc n"
    proof (cases "i + k \<le> length xs")
      case True
      then have "length xs - i + k - 1 = (length xs - (i + k) + k - 1) + k" using 1(2) by simp
      moreover have "k \<noteq> 0" using 1(2) by simp
      ultimately show ?thesis by (simp only: n_def div_add_self2 Suc_eq_plus1 not_False_eq_True)
    next
      case False
      then have "n = 0" using 1(2) by (simp add: n_def)
      moreover have "length xs - i + k - 1 = (length xs - i - 1) + k" "length xs - i - 1 < k" using True False by auto
      moreover from this(2) have "(length xs - i - 1) div k = 0" by (rule div_less)
      moreover have "k \<noteq> 0" using 1(2) by simp
      ultimately show ?thesis by (simp only: div_add_self2 Suc_eq_plus1 not_False_eq_True)
    qed
    moreover have "every k (i + k) xs = map (\<lambda>j. xs ! (i + k + j * k)) [0..<n]"
      using 1 True unfolding n_def by blast
    ultimately show ?thesis using True 1(2)
      by (simp add: every.simps [of k i] upt_conv_Cons map_Suc_upt [symmetric] algebra_simps comp_def del: upt_Suc)
  qed
qed

lemma every_1: "every 1 0 xs = xs"
  by (simp add: every_nth map_nth)

lemma thinned_spec:
  "\<exists>k > 0. thinned xs = map (\<lambda>j. xs ! (j * k)) [0..<length (thinned xs)] \<and>
     length (thinned xs) = (length xs + k - 1) div k \<and> length (thinned xs) \<le> kMaxJsonPoints \<and>
     (length xs \<le> kMaxJsonPoints \<longrightarrow> k = 1)"
proof (cases "kMaxJsonPoints < length xs")
  case False
  then show ?thesis by (intro exI [of _ 1]) (simp add: thinned_def every_1 [simplified] map_nth)
next
  case True
  define k where "k = (length xs + kMaxJsonPoints - 1) div kMaxJsonPoints"
  have max: "0 < kMaxJsonPoints" by (simp add: kMaxJsonPoints_def)
  have "length xs \<le> k * kMaxJsonPoints"
    using div_mult_mod_eq [of "length xs + kMaxJsonPoints - 1" kMaxJsonPoints]
      mod_less_divisor [OF max, of "length xs + kMaxJsonPoints - 1"] max unfolding k_def by linarith
  then have k: "0 < k" using True by (cases k) auto
  have t: "thinned xs = map (\<lambda>j. xs ! (j * k)) [0..<(length xs + k - 1) div k]"
  proof -
    have "thinned xs = every k 0 xs" unfolding thinned_def Let_def k_def using True by (simp only: if_True)
    then show ?thesis using every_nth [OF k, of 0 xs] by simp
  qed
  have "length xs + k - 1 < (kMaxJsonPoints + 1) * k" using \<open>length xs \<le> k * kMaxJsonPoints\<close> k
    by (simp add: algebra_simps)
  then have "(length xs + k - 1) div k < kMaxJsonPoints + 1" by (simp add: less_mult_imp_div_less)
  with t k True show ?thesis by (intro exI [of _ k]) simp
qed

section \<open>Properties\<close>



text \<open>A server with one device, one sensor and a token.\<close>

definition demo_http :: HttpServer where
  "demo_http = \<lparr>hs_store = SeriesStore_make 10 None None, hs_alerts = AlertLog_make 5, hs_devices = Map.empty,
     hs_configs = [default_ModbusDeviceConfig\<lparr>device_id := ''d'',
       sensors := [default_SensorConfig\<lparr>sensor_id := ''s''\<rparr>]\<rparr>], hs_metrics = [],
     hs_options = \<lparr>opt_port = 8080, opt_ws_port = 8081, opt_api_token = ''key''\<rparr>\<rparr>"

definition demo_request_for :: "string \<Rightarrow> Request" where
  "demo_request_for path = \<lparr>rq_method = ''GET'', rq_path = path, rq_param = [''format'' \<mapsto> ''csv''], rq_header = (\<lambda>_. [])\<rparr>"



end
