(* ===== verification/Catalog.thy ===== *)
theory Catalog
  imports Text "HOL-Library.Sublist"
begin

text \<open>
  The message catalogue of \<open>src/notify/messages.cpp\<close>: eleven strings in eight languages, as the UTF-8
  bytes of the source. \<open>fill\<close> puts values into a template; its specification reads a template as a
  sequence of literal text and placeholders.
\<close>

section \<open>The catalogue\<close>

definition utf8 :: "nat list \<Rightarrow> string" where "utf8 = map char_of"

record Strings =
  str_critical :: string
  str_warning :: string
  str_ok :: string
  str_limit_high :: string
  str_limit_low :: string
  str_statistical :: string
  str_device :: string
  str_time :: string
  str_dashboard :: string
  str_offline :: string
  str_online :: string

definition strings_ru :: Strings where
  "strings_ru = \<lparr>
     str_critical =
       utf8 [0xD0, 0x9A, 0xD0, 0xA0, 0xD0, 0x98, 0xD0, 0xA2, 0xD0, 0x98, 0xD0, 0xA7, 0xD0, 0x9D,
       0xD0, 0x9E],
     str_warning =
       utf8 [0xD0, 0x9F, 0xD0, 0xA0, 0xD0, 0x95, 0xD0, 0x94, 0xD0, 0xA3, 0xD0, 0x9F, 0xD0, 0xA0,
       0xD0, 0x95, 0xD0, 0x96, 0xD0, 0x94, 0xD0, 0x95, 0xD0, 0x9D, 0xD0, 0x98, 0xD0, 0x95],
     str_ok =
       utf8 [0xD0, 0x9D, 0xD0, 0x9E, 0xD0, 0xA0, 0xD0, 0x9C, 0xD0, 0x90],
     str_limit_high =
       ''{name}: '' @ utf8 [0xD0, 0xB7, 0xD0, 0xBD, 0xD0, 0xB0, 0xD1, 0x87, 0xD0, 0xB5, 0xD0, 0xBD,
       0xD0, 0xB8, 0xD0, 0xB5] @ '' {value} '' @ utf8 [0xD0, 0xB2, 0xD1, 0x8B, 0xD1, 0x88, 0xD0,
       0xB5] @ '' '' @ utf8 [0xD0, 0xBF, 0xD1, 0x80, 0xD0, 0xB5, 0xD0, 0xB4, 0xD0, 0xB5, 0xD0,
       0xBB, 0xD0, 0xB0] @ '' {limit}'',
     str_limit_low =
       ''{name}: '' @ utf8 [0xD0, 0xB7, 0xD0, 0xBD, 0xD0, 0xB0, 0xD1, 0x87, 0xD0, 0xB5, 0xD0, 0xBD,
       0xD0, 0xB8, 0xD0, 0xB5] @ '' {value} '' @ utf8 [0xD0, 0xBD, 0xD0, 0xB8, 0xD0, 0xB6, 0xD0,
       0xB5] @ '' '' @ utf8 [0xD0, 0xBF, 0xD1, 0x80, 0xD0, 0xB5, 0xD0, 0xB4, 0xD0, 0xB5, 0xD0,
       0xBB, 0xD0, 0xB0] @ '' {limit}'',
     str_statistical =
       ''{name}: '' @ utf8 [0xD0, 0xBD, 0xD0, 0xB5, 0xD0, 0xBE, 0xD0, 0xB1, 0xD1, 0x8B, 0xD1, 0x87,
       0xD0, 0xBD, 0xD0, 0xBE, 0xD0, 0xB5] @ '' '' @ utf8 [0xD0, 0xBF, 0xD0, 0xBE, 0xD0, 0xB2,
       0xD0, 0xB5, 0xD0, 0xB4, 0xD0, 0xB5, 0xD0, 0xBD, 0xD0, 0xB8, 0xD0, 0xB5] @ '' '' @
       utf8 [0xE2, 0x80, 0x94] @ '' '' @ utf8 [0xD0, 0xBF, 0xD0, 0xBE, 0xD0, 0xB4, 0xD1, 0x82,
       0xD0, 0xB2, 0xD0, 0xB5, 0xD1, 0x80, 0xD0, 0xB4, 0xD0, 0xB8, 0xD0, 0xBB, 0xD0, 0xB8] @
       '' {votes} '' @ utf8 [0xD0, 0xB8, 0xD0, 0xB7] @ '' {total} '' @ utf8 [0xD0, 0xB4, 0xD0,
       0xB5, 0xD1, 0x82, 0xD0, 0xB5, 0xD0, 0xBA, 0xD1, 0x82, 0xD0, 0xBE, 0xD1, 0x80, 0xD0, 0xBE,
       0xD0, 0xB2] @ '', '' @ utf8 [0xD1, 0x82, 0xD0, 0xB5, 0xD0, 0xBA, 0xD1, 0x83, 0xD1, 0x89,
       0xD0, 0xB5, 0xD0, 0xB5] @ '' '' @ utf8 [0xD0, 0xB7, 0xD0, 0xBD, 0xD0, 0xB0, 0xD1, 0x87,
       0xD0, 0xB5, 0xD0, 0xBD, 0xD0, 0xB8, 0xD0, 0xB5] @ '' {value}'',
     str_device =
       utf8 [0xD0, 0xA3, 0xD1, 0x81, 0xD1, 0x82, 0xD1, 0x80, 0xD0, 0xBE, 0xD0, 0xB9, 0xD1, 0x81,
       0xD1, 0x82, 0xD0, 0xB2, 0xD0, 0xBE],
     str_time =
       utf8 [0xD0, 0x92, 0xD1, 0x80, 0xD0, 0xB5, 0xD0, 0xBC, 0xD1, 0x8F],
     str_dashboard =
       utf8 [0xD0, 0x94, 0xD0, 0xB0, 0xD1, 0x88, 0xD0, 0xB1, 0xD0, 0xBE, 0xD1, 0x80, 0xD0, 0xB4],
     str_offline =
       utf8 [0xD0, 0xA3, 0xD1, 0x81, 0xD1, 0x82, 0xD1, 0x80, 0xD0, 0xBE, 0xD0, 0xB9, 0xD1, 0x81,
       0xD1, 0x82, 0xD0, 0xB2, 0xD0, 0xBE] @ '' {device} '' @ utf8 [0xD0, 0xBD, 0xD0, 0xB5] @
       '' '' @ utf8 [0xD0, 0xBE, 0xD1, 0x82, 0xD0, 0xB2, 0xD0, 0xB5, 0xD1, 0x87, 0xD0, 0xB0, 0xD0,
       0xB5, 0xD1, 0x82],
     str_online =
       utf8 [0xD0, 0xA3, 0xD1, 0x81, 0xD1, 0x82, 0xD1, 0x80, 0xD0, 0xBE, 0xD0, 0xB9, 0xD1, 0x81,
       0xD1, 0x82, 0xD0, 0xB2, 0xD0, 0xBE] @ '' {device} '' @ utf8 [0xD1, 0x81, 0xD0, 0xBD, 0xD0,
       0xBE, 0xD0, 0xB2, 0xD0, 0xB0] @ '' '' @ utf8 [0xD0, 0xBD, 0xD0, 0xB0] @ '' '' @ utf8 [0xD1,
       0x81, 0xD0, 0xB2, 0xD1, 0x8F, 0xD0, 0xB7, 0xD0, 0xB8]\<rparr>"

definition strings_en :: Strings where
  "strings_en = \<lparr>
     str_critical =
       ''CRITICAL'',
     str_warning =
       ''WARNING'',
     str_ok =
       ''OK'',
     str_limit_high =
       ''{name}: value {value} is above the limit {limit}'',
     str_limit_low =
       ''{name}: value {value} is below the limit {limit}'',
     str_statistical =
       ''{name}: unusual behaviour '' @ utf8 [0xE2, 0x80, 0x94] @
       '' confirmed by {votes} of {total} detectors, current value {value}'',
     str_device =
       ''Device'',
     str_time =
       ''Time'',
     str_dashboard =
       ''Dashboard'',
     str_offline =
       ''Device {device} is not responding'',
     str_online =
       ''Device {device} is back online''\<rparr>"

definition strings_zh :: Strings where
  "strings_zh = \<lparr>
     str_critical =
       utf8 [0xE4, 0xB8, 0xA5, 0xE9, 0x87, 0x8D],
     str_warning =
       utf8 [0xE8, 0xAD, 0xA6, 0xE5, 0x91, 0x8A],
     str_ok =
       utf8 [0xE6, 0xAD, 0xA3, 0xE5, 0xB8, 0xB8],
     str_limit_high =
       ''{name}'' @ utf8 [0xEF, 0xBC, 0x9A, 0xE6, 0x95, 0xB0, 0xE5, 0x80, 0xBC] @ '' {value} '' @
       utf8 [0xE9, 0xAB, 0x98, 0xE4, 0xBA, 0x8E, 0xE4, 0xB8, 0x8A, 0xE9, 0x99, 0x90] @ '' {limit}'',
     str_limit_low =
       ''{name}'' @ utf8 [0xEF, 0xBC, 0x9A, 0xE6, 0x95, 0xB0, 0xE5, 0x80, 0xBC] @ '' {value} '' @
       utf8 [0xE4, 0xBD, 0x8E, 0xE4, 0xBA, 0x8E, 0xE4, 0xB8, 0x8B, 0xE9, 0x99, 0x90] @ '' {limit}'',
     str_statistical =
       ''{name}'' @ utf8 [0xEF, 0xBC, 0x9A, 0xE8, 0xA1, 0x8C, 0xE4, 0xB8, 0xBA, 0xE5, 0xBC, 0x82,
       0xE5, 0xB8, 0xB8, 0xE2, 0x80, 0x94, 0xE2, 0x80, 0x94] @ ''{total} '' @ utf8 [0xE4, 0xB8,
       0xAA, 0xE6, 0xA3, 0x80, 0xE6, 0xB5, 0x8B, 0xE5, 0x99, 0xA8, 0xE4, 0xB8, 0xAD, 0xE6, 0x9C,
       0x89] @ '' {votes} '' @ utf8 [0xE4, 0xB8, 0xAA, 0xE7, 0xA1, 0xAE, 0xE8, 0xAE, 0xA4, 0xEF,
       0xBC, 0x8C, 0xE5, 0xBD, 0x93, 0xE5, 0x89, 0x8D, 0xE5, 0x80, 0xBC] @ '' {value}'',
     str_device =
       utf8 [0xE8, 0xAE, 0xBE, 0xE5, 0xA4, 0x87],
     str_time =
       utf8 [0xE6, 0x97, 0xB6, 0xE9, 0x97, 0xB4],
     str_dashboard =
       utf8 [0xE4, 0xBB, 0xAA, 0xE8, 0xA1, 0xA8, 0xE6, 0x9D, 0xBF],
     str_offline =
       utf8 [0xE8, 0xAE, 0xBE, 0xE5, 0xA4, 0x87] @ '' {device} '' @ utf8 [0xE6, 0x97, 0xA0, 0xE5,
       0x93, 0x8D, 0xE5, 0xBA, 0x94],
     str_online =
       utf8 [0xE8, 0xAE, 0xBE, 0xE5, 0xA4, 0x87] @ '' {device} '' @ utf8 [0xE5, 0xB7, 0xB2, 0xE6,
       0x81, 0xA2, 0xE5, 0xA4, 0x8D, 0xE8, 0xBF, 0x9E, 0xE6, 0x8E, 0xA5]\<rparr>"

definition strings_hi :: Strings where
  "strings_hi = \<lparr>
     str_critical =
       utf8 [0xE0, 0xA4, 0x97, 0xE0, 0xA4, 0x82, 0xE0, 0xA4, 0xAD, 0xE0, 0xA5, 0x80, 0xE0, 0xA4,
       0xB0],
     str_warning =
       utf8 [0xE0, 0xA4, 0x9A, 0xE0, 0xA5, 0x87, 0xE0, 0xA4, 0xA4, 0xE0, 0xA4, 0xBE, 0xE0, 0xA4,
       0xB5, 0xE0, 0xA4, 0xA8, 0xE0, 0xA5, 0x80],
     str_ok =
       utf8 [0xE0, 0xA4, 0xB8, 0xE0, 0xA4, 0xBE, 0xE0, 0xA4, 0xAE, 0xE0, 0xA4, 0xBE, 0xE0, 0xA4,
       0xA8, 0xE0, 0xA5, 0x8D, 0xE0, 0xA4, 0xAF],
     str_limit_high =
       ''{name}: '' @ utf8 [0xE0, 0xA4, 0xAE, 0xE0, 0xA4, 0xBE, 0xE0, 0xA4, 0xA8] @ '' {value} '' @
       utf8 [0xE0, 0xA4, 0xB8, 0xE0, 0xA5, 0x80, 0xE0, 0xA4, 0xAE, 0xE0, 0xA4, 0xBE] @
       '' {limit} '' @ utf8 [0xE0, 0xA4, 0xB8, 0xE0, 0xA5, 0x87] @ '' '' @ utf8 [0xE0, 0xA4, 0x8A,
       0xE0, 0xA4, 0xAA, 0xE0, 0xA4, 0xB0] @ '' '' @ utf8 [0xE0, 0xA4, 0xB9, 0xE0, 0xA5, 0x88],
     str_limit_low =
       ''{name}: '' @ utf8 [0xE0, 0xA4, 0xAE, 0xE0, 0xA4, 0xBE, 0xE0, 0xA4, 0xA8] @ '' {value} '' @
       utf8 [0xE0, 0xA4, 0xB8, 0xE0, 0xA5, 0x80, 0xE0, 0xA4, 0xAE, 0xE0, 0xA4, 0xBE] @
       '' {limit} '' @ utf8 [0xE0, 0xA4, 0xB8, 0xE0, 0xA5, 0x87] @ '' '' @ utf8 [0xE0, 0xA4, 0xA8,
       0xE0, 0xA5, 0x80, 0xE0, 0xA4, 0x9A, 0xE0, 0xA5, 0x87] @ '' '' @ utf8 [0xE0, 0xA4, 0xB9,
       0xE0, 0xA5, 0x88],
     str_statistical =
       ''{name}: '' @ utf8 [0xE0, 0xA4, 0x85, 0xE0, 0xA4, 0xB8, 0xE0, 0xA4, 0xBE, 0xE0, 0xA4, 0xAE,
       0xE0, 0xA4, 0xBE, 0xE0, 0xA4, 0xA8, 0xE0, 0xA5, 0x8D, 0xE0, 0xA4, 0xAF] @ '' '' @
       utf8 [0xE0, 0xA4, 0xB5, 0xE0, 0xA5, 0x8D, 0xE0, 0xA4, 0xAF, 0xE0, 0xA4, 0xB5, 0xE0, 0xA4,
       0xB9, 0xE0, 0xA4, 0xBE, 0xE0, 0xA4, 0xB0] @ '' '' @ utf8 [0xE2, 0x80, 0x94] @
       '' {total} '' @ utf8 [0xE0, 0xA4, 0xAE, 0xE0, 0xA5, 0x87, 0xE0, 0xA4, 0x82] @ '' '' @
       utf8 [0xE0, 0xA4, 0xB8, 0xE0, 0xA5, 0x87] @ '' {votes} '' @ utf8 [0xE0, 0xA4, 0xA1, 0xE0,
       0xA4, 0xBF, 0xE0, 0xA4, 0x9F, 0xE0, 0xA5, 0x87, 0xE0, 0xA4, 0x95, 0xE0, 0xA5, 0x8D, 0xE0,
       0xA4, 0x9F, 0xE0, 0xA4, 0xB0, 0xE0, 0xA5, 0x8B, 0xE0, 0xA4, 0x82] @ '' '' @ utf8 [0xE0,
       0xA4, 0xA8, 0xE0, 0xA5, 0x87] @ '' '' @ utf8 [0xE0, 0xA4, 0xAA, 0xE0, 0xA5, 0x81, 0xE0,
       0xA4, 0xB7, 0xE0, 0xA5, 0x8D, 0xE0, 0xA4, 0x9F, 0xE0, 0xA4, 0xBF] @ '' '' @ utf8 [0xE0,
       0xA4, 0x95, 0xE0, 0xA5, 0x80] @ '', '' @ utf8 [0xE0, 0xA4, 0xB5, 0xE0, 0xA4, 0xB0, 0xE0,
       0xA5, 0x8D, 0xE0, 0xA4, 0xA4, 0xE0, 0xA4, 0xAE, 0xE0, 0xA4, 0xBE, 0xE0, 0xA4, 0xA8] @
       '' '' @ utf8 [0xE0, 0xA4, 0xAE, 0xE0, 0xA4, 0xBE, 0xE0, 0xA4, 0xA8] @ '' {value}'',
     str_device =
       utf8 [0xE0, 0xA4, 0xA1, 0xE0, 0xA4, 0xBF, 0xE0, 0xA4, 0xB5, 0xE0, 0xA4, 0xBE, 0xE0, 0xA4,
       0x87, 0xE0, 0xA4, 0xB8],
     str_time =
       utf8 [0xE0, 0xA4, 0xB8, 0xE0, 0xA4, 0xAE, 0xE0, 0xA4, 0xAF],
     str_dashboard =
       utf8 [0xE0, 0xA4, 0xA1, 0xE0, 0xA5, 0x88, 0xE0, 0xA4, 0xB6, 0xE0, 0xA4, 0xAC, 0xE0, 0xA5,
       0x8B, 0xE0, 0xA4, 0xB0, 0xE0, 0xA5, 0x8D, 0xE0, 0xA4, 0xA1],
     str_offline =
       utf8 [0xE0, 0xA4, 0xA1, 0xE0, 0xA4, 0xBF, 0xE0, 0xA4, 0xB5, 0xE0, 0xA4, 0xBE, 0xE0, 0xA4,
       0x87, 0xE0, 0xA4, 0xB8] @ '' {device} '' @ utf8 [0xE0, 0xA4, 0x9C, 0xE0, 0xA4, 0xB5, 0xE0,
       0xA4, 0xBE, 0xE0, 0xA4, 0xAC] @ '' '' @ utf8 [0xE0, 0xA4, 0xA8, 0xE0, 0xA4, 0xB9, 0xE0,
       0xA5, 0x80, 0xE0, 0xA4, 0x82] @ '' '' @ utf8 [0xE0, 0xA4, 0xA6, 0xE0, 0xA5, 0x87] @ '' '' @
       utf8 [0xE0, 0xA4, 0xB0, 0xE0, 0xA4, 0xB9, 0xE0, 0xA4, 0xBE] @ '' '' @ utf8 [0xE0, 0xA4,
       0xB9, 0xE0, 0xA5, 0x88],
     str_online =
       utf8 [0xE0, 0xA4, 0xA1, 0xE0, 0xA4, 0xBF, 0xE0, 0xA4, 0xB5, 0xE0, 0xA4, 0xBE, 0xE0, 0xA4,
       0x87, 0xE0, 0xA4, 0xB8] @ '' {device} '' @ utf8 [0xE0, 0xA4, 0xAB, 0xE0, 0xA4, 0xBF, 0xE0,
       0xA4, 0xB0] @ '' '' @ utf8 [0xE0, 0xA4, 0xB8, 0xE0, 0xA5, 0x87] @ '' '' @ utf8 [0xE0, 0xA4,
       0x91, 0xE0, 0xA4, 0xA8, 0xE0, 0xA4, 0xB2, 0xE0, 0xA4, 0xBE, 0xE0, 0xA4, 0x87, 0xE0, 0xA4,
       0xA8] @ '' '' @ utf8 [0xE0, 0xA4, 0xB9, 0xE0, 0xA5, 0x88]\<rparr>"

definition strings_es :: Strings where
  "strings_es = \<lparr>
     str_critical =
       ''CR'' @ utf8 [0xC3, 0x8D] @ ''TICO'',
     str_warning =
       ''ADVERTENCIA'',
     str_ok =
       ''OK'',
     str_limit_high =
       ''{name}: el valor {value} supera el l'' @ utf8 [0xC3, 0xAD] @ ''mite {limit}'',
     str_limit_low =
       ''{name}: el valor {value} est'' @ utf8 [0xC3, 0xA1] @ '' por debajo del l'' @ utf8 [0xC3,
       0xAD] @ ''mite {limit}'',
     str_statistical =
       ''{name}: comportamiento inusual '' @ utf8 [0xE2, 0x80, 0x94] @
       '' confirmado por {votes} de {total} detectores, valor actual {value}'',
     str_device =
       ''Dispositivo'',
     str_time =
       ''Hora'',
     str_dashboard =
       ''Panel'',
     str_offline =
       ''El dispositivo {device} no responde'',
     str_online =
       ''El dispositivo {device} vuelve a estar en l'' @ utf8 [0xC3, 0xAD] @ ''nea''\<rparr>"

definition strings_fr :: Strings where
  "strings_fr = \<lparr>
     str_critical =
       ''CRITIQUE'',
     str_warning =
       ''AVERTISSEMENT'',
     str_ok =
       ''OK'',
     str_limit_high =
       ''{name} : la valeur {value} d'' @ utf8 [0xC3, 0xA9] @ ''passe la limite {limit}'',
     str_limit_low =
       ''{name} : la valeur {value} est inf'' @ utf8 [0xC3, 0xA9] @ ''rieure '' @ utf8 [0xC3,
       0xA0] @ '' la limite {limit}'',
     str_statistical =
       ''{name} : comportement inhabituel '' @ utf8 [0xE2, 0x80, 0x94] @ '' confirm'' @ utf8 [0xC3,
       0xA9] @ '' par {votes} d'' @ utf8 [0xC3, 0xA9] @
       ''tecteurs sur {total}, valeur actuelle {value}'',
     str_device =
       utf8 [0xC3, 0x89] @ ''quipement'',
     str_time =
       ''Heure'',
     str_dashboard =
       ''Tableau de bord'',
     str_offline =
       ''L'' @ utf8 [0xE2, 0x80, 0x99, 0xC3, 0xA9] @ ''quipement {device} ne r'' @ utf8 [0xC3,
       0xA9] @ ''pond pas'',
     str_online =
       ''L'' @ utf8 [0xE2, 0x80, 0x99, 0xC3, 0xA9] @ ''quipement {device} est de nouveau en ligne''\<rparr>"

definition strings_de :: Strings where
  "strings_de = \<lparr>
     str_critical =
       ''KRITISCH'',
     str_warning =
       ''WARNUNG'',
     str_ok =
       ''OK'',
     str_limit_high =
       ''{name}: Wert {value} liegt '' @ utf8 [0xC3, 0xBC] @ ''ber dem Grenzwert {limit}'',
     str_limit_low =
       ''{name}: Wert {value} liegt unter dem Grenzwert {limit}'',
     str_statistical =
       ''{name}: ungew'' @ utf8 [0xC3, 0xB6] @ ''hnliches Verhalten '' @ utf8 [0xE2, 0x80, 0x94] @
       '' von {votes} von {total} Detektoren best'' @ utf8 [0xC3, 0xA4] @
       ''tigt, aktueller Wert {value}'',
     str_device =
       ''Ger'' @ utf8 [0xC3, 0xA4] @ ''t'',
     str_time =
       ''Zeit'',
     str_dashboard =
       ''Dashboard'',
     str_offline =
       ''Ger'' @ utf8 [0xC3, 0xA4] @ ''t {device} antwortet nicht'',
     str_online =
       ''Ger'' @ utf8 [0xC3, 0xA4] @ ''t {device} ist wieder online''\<rparr>"

definition strings_it :: Strings where
  "strings_it = \<lparr>
     str_critical =
       ''CRITICO'',
     str_warning =
       ''AVVISO'',
     str_ok =
       ''OK'',
     str_limit_high =
       ''{name}: il valore {value} supera il limite {limit}'',
     str_limit_low =
       ''{name}: il valore {value} '' @ utf8 [0xC3, 0xA8] @ '' sotto il limite {limit}'',
     str_statistical =
       ''{name}: comportamento anomalo '' @ utf8 [0xE2, 0x80, 0x94] @
       '' confermato da {votes} rilevatori su {total}, valore attuale {value}'',
     str_device =
       ''Dispositivo'',
     str_time =
       ''Ora'',
     str_dashboard =
       ''Dashboard'',
     str_offline =
       ''Il dispositivo {device} non risponde'',
     str_online =
       ''Il dispositivo {device} '' @ utf8 [0xC3, 0xA8] @ '' di nuovo online''\<rparr>"

definition catalog :: "(string \<times> Strings) list" where
  "catalog = [(''ru'', strings_ru), (''en'', strings_en), (''zh'', strings_zh), (''hi'', strings_hi), (''es'', strings_es), (''fr'', strings_fr), (''de'', strings_de), (''it'', strings_it)]"

definition strings_for :: "string \<Rightarrow> Strings" where
  "strings_for lang = (case map_of catalog lang of Some s \<Rightarrow> s | None \<Rightarrow> the (map_of catalog ''ru''))"

lemmas strings_defs = strings_ru_def strings_en_def strings_zh_def strings_hi_def strings_es_def strings_fr_def strings_de_def strings_it_def

section \<open>Filling a template\<close>

function fill :: "(string \<rightharpoonup> string) \<Rightarrow> string \<Rightarrow> string" where
  "fill params [] = []"
| "fill params (ch # s) =
     (if ch \<noteq> CHR ''{'' then ch # fill params s
      else if CHR ''}'' \<notin> set s then ch # s
      else let key = takeWhile (\<lambda>x. x \<noteq> CHR ''}'') s; rest = drop (Suc (length key)) s
           in (case params key of Some v \<Rightarrow> v | None \<Rightarrow> ch # key @ ''}'') @ fill params rest)"
  by pat_completeness auto
termination fill
  by (relation "measure (\<lambda>(params, s). length s)") auto

text \<open>A template as the author means it: text, and names in braces.\<close>

datatype Piece = Lit string | Hole string

fun piece_text :: "Piece \<Rightarrow> string" where
  "piece_text (Lit s) = s"
| "piece_text (Hole key) = ''{'' @ key @ ''}''"

fun piece_value :: "(string \<rightharpoonup> string) \<Rightarrow> Piece \<Rightarrow> string" where
  "piece_value params (Lit s) = s"
| "piece_value params (Hole key) = (case params key of Some v \<Rightarrow> v | None \<Rightarrow> ''{'' @ key @ ''}'')"

fun piece_ok :: "Piece \<Rightarrow> bool" where
  "piece_ok (Lit s) = (CHR ''{'' \<notin> set s)"
| "piece_ok (Hole key) = (CHR ''}'' \<notin> set key)"

lemma fill_lit: "CHR ''{'' \<notin> set s \<Longrightarrow> fill params (s @ rest) = s @ fill params rest"
  by (induction s) auto

lemma takeWhile_key: "CHR ''}'' \<notin> set key \<Longrightarrow> takeWhile (\<lambda>x. x \<noteq> CHR ''}'') (key @ ''}'' @ rest) = key"
  by (induction key) auto

lemma fill_pieces:
  "list_all piece_ok ps \<Longrightarrow> fill params (concat (map piece_text ps)) = concat (map (piece_value params) ps)"
proof (induction ps)
  case (Cons p ps)
  show ?case
  proof (cases p)
    case (Lit s)
    with Cons fill_lit show ?thesis by simp
  next
    case (Hole key)
    let ?rest = "concat (map piece_text ps)"
    have "takeWhile (\<lambda>x. x \<noteq> CHR ''}'') (key @ ''}'' @ ?rest) = key"
      using Cons.prems Hole by (intro takeWhile_key) simp
    then have "fill params (''{'' @ key @ ''}'' @ ?rest) =
        (case params key of Some v \<Rightarrow> v | None \<Rightarrow> ''{'' @ key @ ''}'') @ fill params ?rest"
      by (cases "params key") simp_all
    with Cons Hole show ?thesis by simp
  qed
qed simp

section \<open>The templates are complete\<close>

text \<open>The placeholders of a template, in order.\<close>

function holes :: "string \<Rightarrow> string list" where
  "holes [] = []"
| "holes (ch # s) =
     (if ch \<noteq> CHR ''{'' then holes s
      else if CHR ''}'' \<notin> set s then []
      else let key = takeWhile (\<lambda>x. x \<noteq> CHR ''}'') s in key # holes (drop (Suc (length key)) s))"
  by pat_completeness auto
termination holes
  by (relation "measure length") auto

text \<open>A filled template shows the value of each of its placeholders in full.\<close>

lemma fill_shows: "key \<in> set (holes t) \<Longrightarrow> params key = Some v \<Longrightarrow> sublist v (fill params t)"
proof (induction params t rule: fill.induct)
  case (2 params ch s)
  show ?case
  proof (cases "ch = CHR ''{'' \<and> CHR ''}'' \<in> set s")
    case False
    with 2 show ?thesis by (auto simp: sublist_Cons_right split: if_splits)
  next
    case True
    let ?k = "takeWhile (\<lambda>x. x \<noteq> CHR ''}'') s"
    let ?rest = "drop (Suc (length ?k)) s" and ?v = "case params ?k of Some v \<Rightarrow> v | None \<Rightarrow> CHR ''{'' # ?k @ ''}''"
    have fill: "fill params (ch # s) = ?v @ fill params ?rest"
      using True by (simp add: Let_def)
    from 2(3) True have "key = ?k \<or> key \<in> set (holes ?rest)" by (auto simp: Let_def)
    then show ?thesis
    proof
      assume "key = ?k"
      with 2(4) show ?thesis unfolding fill by simp
    next
      assume "key \<in> set (holes ?rest)"
      with 2(2) [OF _ _ refl refl] True 2(4) have "sublist v (fill params ?rest)" by simp
      moreover have "sublist (fill params ?rest) (?v @ fill params ?rest)" by simp
      ultimately show ?thesis unfolding fill by (rule sublist_order.order_trans)
    qed
  qed
qed simp

definition uses :: "string list \<Rightarrow> string \<Rightarrow> bool" where
  "uses keys t \<longleftrightarrow> length (holes t) = length keys \<and> list_all (\<lambda>k. k \<in> set (holes t)) keys"

definition templates_ok :: "Strings \<Rightarrow> bool" where
  "templates_ok s \<longleftrightarrow> uses [''name'', ''value'', ''limit''] (str_limit_high s) \<and>
     uses [''name'', ''value'', ''limit''] (str_limit_low s) \<and>
     uses [''name'', ''votes'', ''total'', ''value''] (str_statistical s) \<and>
     uses [''device''] (str_offline s) \<and> uses [''device''] (str_online s)"

lemma holes_utf8 [simp]:
  "list_all (\<lambda>n. 127 < n \<and> n < 256) ns \<Longrightarrow> holes (utf8 ns @ s) = holes s"
proof (induction ns)
  case (Cons n ns)
  then have "of_char (char_of n) \<noteq> (123 :: nat)" by simp
  then have "char_of n \<noteq> CHR ''{''" by (auto simp del: of_char_of)
  with Cons show ?case by (simp add: utf8_def)
qed (simp add: utf8_def)

lemmas holes_utf8_end [simp] = holes_utf8 [of _ "[]", simplified]

lemma catalog_complete: "list_all (\<lambda>(lang, s). templates_ok s) catalog"
proof -
  have "templates_ok strings_ru" "templates_ok strings_en" "templates_ok strings_zh" "templates_ok strings_hi"
    "templates_ok strings_es" "templates_ok strings_fr" "templates_ok strings_de" "templates_ok strings_it"
    by (simp_all add: templates_ok_def uses_def strings_defs)
  then show ?thesis by (simp add: catalog_def)
qed

text \<open>Every language has a message for everything, and an unknown one speaks Russian.\<close>

lemma strings_for_complete: "templates_ok (strings_for lang)"
proof -
  have ru: "map_of catalog ''ru'' = Some strings_ru" by (simp add: catalog_def)
  have "templates_ok s" if "map_of catalog l = Some s" for l s
    using map_of_SomeD [OF that] catalog_complete by (auto simp: list_all_iff)
  with ru show ?thesis by (auto simp: strings_for_def split: option.split)
qed

end
