(* ===== verification/Messages.thy ===== *)
theory Messages
  imports Catalog Calendar Decimal Config
begin

text \<open>
  \<open>src/notify/messages.cpp\<close>: the localized text of a notification. Values reach the text only through
  \<open>fill\<close>, which never looks for placeholders inside a value.
\<close>

section \<open>Data\<close>

record SensorInfo =
  info_name :: string
  info_unit :: string
  info_device_id :: string

definition empty_info :: SensorInfo where
  "empty_info = \<lparr>info_name = [], info_unit = [], info_device_id = []\<rparr>"

datatype NotificationType = NT_alert | NT_device_offline | NT_device_online

record Notification =
  n_type :: NotificationType
  n_severity :: Severity
  n_title :: string
  n_text :: string
  n_timestamp :: time_point
  n_sensor_id :: string
  n_device_id :: string
  n_alert :: "AnomalyEvent option"

section \<open>Pieces of text\<close>

definition format_time :: "time_point \<Rightarrow> string" where
  "format_time t = date_text t @ '' '' @ clock_text t @ '' UTC''"

definition drop_point :: "string \<Rightarrow> string" where
  "drop_point s = (if s \<noteq> [] \<and> last s = CHR ''.'' then butlast s else s)"

definition format_value :: "double \<Rightarrow> string" where
  "format_value v =
     (let s = snprintf 64 (fmt_f2 v);
          s = (if CHR ''.'' \<in> set s then drop_point (drop_zeros s) else s)
      in if s = ''-0'' then ''0'' else s)"

definition with_unit :: "double \<Rightarrow> string \<Rightarrow> string" where
  "with_unit v unit_text = (if unit_text = [] then format_value v else format_value v @ '' '' @ unit_text)"

definition icon :: "Severity \<Rightarrow> string" where
  "icon sev = (if sev = Sev_critical then utf8 [0xF0, 0x9F, 0x94, 0xB4] else utf8 [0xF0, 0x9F, 0x9F, 0xA0])"

definition newline :: string where "newline = [CHR 0x0A]"

definition footer :: "Strings \<Rightarrow> string \<Rightarrow> time_point \<Rightarrow> string \<Rightarrow> string" where
  "footer s dev timestamp url =
     (if dev \<noteq> [] then newline @ str_device s @ '': '' @ dev else []) @
     newline @ str_time s @ '': '' @ format_time timestamp @
     (if url \<noteq> [] then newline @ str_dashboard s @ '': '' @ url else [])"

section \<open>Notifications\<close>

definition alert_line :: "Strings \<Rightarrow> AnomalyEvent \<Rightarrow> SensorInfo \<Rightarrow> string" where
  "alert_line s alert sensor =
     (let name = (if info_name sensor = [] then a_sensor_id alert else info_name sensor)
      in if a_kind alert = AK_limit \<and> a_limit alert \<noteq> None
         then fill [''name'' \<mapsto> name, ''value'' \<mapsto> with_unit (a_value alert) (info_unit sensor),
                    ''limit'' \<mapsto> with_unit (the (a_limit alert)) (info_unit sensor)]
                (if a_above_limit alert then str_limit_high s else str_limit_low s)
         else fill [''name'' \<mapsto> name, ''value'' \<mapsto> with_unit (a_value alert) (info_unit sensor),
                    ''votes'' \<mapsto> dec_nat (a_votes alert), ''total'' \<mapsto> dec_nat (a_detectors_total alert)]
                (str_statistical s))"

definition describe_alert :: "AnomalyEvent \<Rightarrow> SensorInfo \<Rightarrow> string \<Rightarrow> string \<Rightarrow> Notification" where
  "describe_alert alert sensor lang url =
     (let s = strings_for lang;
          line = alert_line s alert sensor;
          label = (if a_severity alert = Sev_critical then str_critical s else str_warning s)
      in \<lparr>n_type = NT_alert, n_severity = a_severity alert, n_title = label @ '': '' @ line,
          n_text = icon (a_severity alert) @ '' '' @ label @ newline @ line @
            footer s (info_device_id sensor) (a_timestamp alert) url,
          n_timestamp = a_timestamp alert, n_sensor_id = a_sensor_id alert,
          n_device_id = info_device_id sensor, n_alert = Some alert\<rparr>)"

definition describe_device_status ::
  "string \<Rightarrow> bool \<Rightarrow> time_point \<Rightarrow> string \<Rightarrow> string \<Rightarrow> Notification" where
  "describe_device_status dev online timestamp lang url =
     (let s = strings_for lang;
          line = fill [''device'' \<mapsto> dev] (if online then str_online s else str_offline s);
          label = (if online then str_ok s else str_critical s)
      in \<lparr>n_type = (if online then NT_device_online else NT_device_offline),
          n_severity = (if online then Sev_warning else Sev_critical), n_title = label @ '': '' @ line,
          n_text = (if online then utf8 [0xF0, 0x9F, 0x9F, 0xA2] else icon Sev_critical) @ '' '' @ label @
            newline @ line @ footer s [] timestamp url,
          n_timestamp = timestamp, n_sensor_id = [], n_device_id = dev, n_alert = None\<rparr>)"

section \<open>Nothing is left out of a message\<close>

lemma uses_holes: "uses keys t \<Longrightarrow> key \<in> set keys \<Longrightarrow> key \<in> set (holes t)"
  by (auto simp: uses_def list_all_iff)

lemma shown: "uses keys t \<Longrightarrow> key \<in> set keys \<Longrightarrow> params key = Some v \<Longrightarrow> sublist v (fill params t)"
  by (intro fill_shows uses_holes)

lemma limit_shows:
  assumes "uses [''name'', ''value'', ''limit''] t"
  shows "sublist n (fill [''name'' \<mapsto> n, ''value'' \<mapsto> v, ''limit'' \<mapsto> l] t)"
    and "sublist v (fill [''name'' \<mapsto> n, ''value'' \<mapsto> v, ''limit'' \<mapsto> l] t)"
    and "sublist l (fill [''name'' \<mapsto> n, ''value'' \<mapsto> v, ''limit'' \<mapsto> l] t)"
  by (rule shown [OF assms, of "''name''"], simp_all) (rule shown [OF assms, of "''value''"], simp_all,
      rule shown [OF assms, of "''limit''"], simp_all)

lemma statistical_shows:
  assumes "uses [''name'', ''votes'', ''total'', ''value''] t"
  shows "sublist n (fill [''name'' \<mapsto> n, ''value'' \<mapsto> v, ''votes'' \<mapsto> k, ''total'' \<mapsto> m] t)"
    and "sublist v (fill [''name'' \<mapsto> n, ''value'' \<mapsto> v, ''votes'' \<mapsto> k, ''total'' \<mapsto> m] t)"
    and "sublist k (fill [''name'' \<mapsto> n, ''value'' \<mapsto> v, ''votes'' \<mapsto> k, ''total'' \<mapsto> m] t)"
    and "sublist m (fill [''name'' \<mapsto> n, ''value'' \<mapsto> v, ''votes'' \<mapsto> k, ''total'' \<mapsto> m] t)"
  by (rule shown [OF assms, of "''name''"], simp_all) (rule shown [OF assms, of "''value''"], simp_all,
      rule shown [OF assms, of "''votes''"], simp_all, rule shown [OF assms, of "''total''"], simp_all)

lemma alert_line_shows:
  "sublist (if info_name sensor = [] then a_sensor_id alert else info_name sensor)
     (alert_line (strings_for lang) alert sensor)"
  "sublist (with_unit (a_value alert) (info_unit sensor)) (alert_line (strings_for lang) alert sensor)"
  "a_kind alert = AK_limit \<and> a_limit alert \<noteq> None \<Longrightarrow>
     sublist (with_unit (the (a_limit alert)) (info_unit sensor)) (alert_line (strings_for lang) alert sensor)"
  "\<not> (a_kind alert = AK_limit \<and> a_limit alert \<noteq> None) \<Longrightarrow>
     sublist (dec_nat (a_votes alert)) (alert_line (strings_for lang) alert sensor) \<and>
     sublist (dec_nat (a_detectors_total alert)) (alert_line (strings_for lang) alert sensor)"
  using strings_for_complete [of lang]
  by (auto simp: alert_line_def templates_ok_def Let_def limit_shows statistical_shows)

text \<open>In every language, and for an unknown one, an alert's message shows the sensor's name (its id when
  it has none), the value with its unit, and the limit that was crossed or the number of detectors
  that voted, each in full and unchanged, whatever characters, braces included, they contain.\<close>

theorem alert_message_complete:
  "let line = alert_line (strings_for lang) alert sensor in
    sublist (if info_name sensor = [] then a_sensor_id alert else info_name sensor) line \<and>
    sublist (with_unit (a_value alert) (info_unit sensor)) line \<and>
    (if a_kind alert = AK_limit \<and> a_limit alert \<noteq> None
     then sublist (with_unit (the (a_limit alert)) (info_unit sensor)) line
     else sublist (dec_nat (a_votes alert)) line \<and> sublist (dec_nat (a_detectors_total alert)) line) \<and>
    sublist line (n_title (describe_alert alert sensor lang url)) \<and>
    sublist line (n_text (describe_alert alert sensor lang url))"
proof -
  let ?line = "alert_line (strings_for lang) alert sensor"
  have "sublist ?line (n_title (describe_alert alert sensor lang url))"
    "sublist ?line (n_text (describe_alert alert sensor lang url))"
    unfolding describe_alert_def Let_def Notification.simps
    by (metis append.assoc sublist_appendI sublist_append_leftI)+
  with alert_line_shows show ?thesis unfolding Let_def
    by (cases "a_kind alert = AK_limit \<and> a_limit alert \<noteq> None") (simp_all only: if_True if_False simp_thms)
qed

end
