(* ===== verification/Notifier.thy ===== *)
theory Notifier
  imports Messages Serialization SlidingWindow
begin

text \<open>
  \<open>src/notify/notifier.cpp\<close>: which events become notifications, the bounded queue between the event
  handlers and the worker thread, the request each kind of channel sends, and the delivery with its
  retries. The mutexes make the handlers, \<open>stop\<close> and each pass of the worker through its lock single
  steps. \<open>nt_accepted\<close> and \<open>nt_taken\<close> are history variables: what was ever pushed and what was ever
  taken. The clock, the HTTP client and the outcome of each timed wait are arguments.
\<close>

section \<open>URLs\<close>

record Url =
  url_scheme :: string
  url_host :: string
  url_port :: u16
  url_path :: string

text \<open>Host and port text of the authority; an IPv6 literal is in brackets.\<close>

definition split_authority :: "string \<Rightarrow> (string \<times> string) option" where
  "split_authority authority =
     (if hd authority = CHR ''['' then
        (case find_sub '']'' authority of None \<Rightarrow> None
         | Some close \<Rightarrow>
             if close + 1 < length authority
             then if authority ! (close + 1) \<noteq> CHR '':'' then None
                  else Some (take (close - 1) (drop 1 authority), drop (close + 2) authority)
             else Some (take (close - 1) (drop 1 authority), []))
      else case rfind_char CHR '':'' authority of None \<Rightarrow> Some (authority, [])
        | Some colon \<Rightarrow> Some (take colon authority, drop (Suc colon) authority))"

text \<open>The characters \<open>std::stoul\<close> consumes.\<close>

definition stoul_consumed :: "string \<Rightarrow> nat" where
  "stoul_consumed s =
     (let t = dropWhile is_space s;
          t = (if t \<noteq> [] \<and> (hd t = CHR ''-'' \<or> hd t = CHR ''+'') then tl t else t)
      in length s - length (dropWhile is_digit t))"

definition parse_port :: "string \<Rightarrow> string \<Rightarrow> u16 option" where
  "parse_port scheme port_text =
     (if port_text = [] then Some (if scheme = ''https'' then 443 else 80)
      else case stoull port_text of None \<Rightarrow> None
        | Some p \<Rightarrow> if stoul_consumed port_text \<noteq> length port_text \<or> p = 0 \<or> 65535 < p then None
                    else Some (of_nat p))"

definition authority_of :: "string \<Rightarrow> string" where
  "authority_of rest = (case find_sub ''/'' rest of None \<Rightarrow> rest | Some n \<Rightarrow> take n rest)"

definition path_of :: "string \<Rightarrow> string" where
  "path_of rest = (case find_sub ''/'' rest of None \<Rightarrow> ''/'' | Some n \<Rightarrow> drop n rest)"

definition parse_url :: "string \<Rightarrow> Url option" where
  "parse_url text =
     (case find_sub ''://'' text of None \<Rightarrow> None
      | Some scheme_end \<Rightarrow>
        let scheme = take scheme_end text; rest = drop (scheme_end + 3) text;
            authority = authority_of rest; path = path_of rest
        in if scheme \<noteq> ''http'' \<and> scheme \<noteq> ''https'' then None
           else if authority = [] \<or> find_sub ''@'' authority \<noteq> None then None
           else case split_authority authority of None \<Rightarrow> None
             | Some (hname, port_text) \<Rightarrow>
                 if hname = [] then None
                 else map_option (\<lambda>prt. \<lparr>url_scheme = scheme, url_host = hname, url_port = prt,
                        url_path = path\<rparr>) (parse_port scheme port_text))"

section \<open>Requests\<close>

record OutgoingRequest =
  req_url :: string
  req_body :: string
  req_content_type :: string
  req_headers :: "(string \<times> string) list"

definition iso8601 :: "time_point \<Rightarrow> string" where
  "iso8601 tp = date_text tp @ ''T'' @ clock_text tp @ ''Z''"

fun type_name :: "NotificationType \<Rightarrow> string" where
  "type_name NT_alert = ''alert''"
| "type_name NT_device_offline = ''device_offline''"
| "type_name NT_device_online = ''device_online''"

text \<open>The payload of a generic webhook.\<close>

definition webhook_body :: "'j Json \<Rightarrow> Notification \<Rightarrow> string \<Rightarrow> string \<Rightarrow> (string \<times> 'j) list" where
  "webhook_body J n lang url =
     [(''type'', j_string J (type_name (n_type n))),
      (''severity'', j_string J (severity_to_string (n_severity n))),
      (''title'', j_string J (n_title n)),
      (''text'', j_string J (n_text n)),
      (''language'', j_string J lang),
      (''timestamp'', j_string J (iso8601 (n_timestamp n))),
      (''device_id'', j_string J (n_device_id n))] @
     (if url \<noteq> [] then [(''dashboard_url'', j_string J url)] else []) @
     (case n_alert n of None \<Rightarrow> []
      | Some alert \<Rightarrow> [(''sensor_id'', j_string J (n_sensor_id n)),
          (''alert'', j_object J (alert_fields J alert @
             [(''timestamp'', j_string J (iso8601 (a_timestamp alert)))]))])"

definition telegram_url :: "NotificationChannelConfig \<Rightarrow> string" where
  "telegram_url channel =
     (let base = (if ch_url channel = [] then ''https://api.telegram.org'' else ch_url channel)
      in rev (dropWhile (\<lambda>ch. ch = CHR ''/'') (rev base)) @ ''/bot'' @ ch_bot_token channel @ ''/sendMessage'')"

definition request_to :: "string \<Rightarrow> (string \<times> string) list \<Rightarrow> string + string \<Rightarrow> string + OutgoingRequest" where
  "request_to url headers dumped =
     (case dumped of Inl e \<Rightarrow> Inl e
      | Inr body \<Rightarrow> Inr \<lparr>req_url = url, req_body = body, req_content_type = ''application/json'',
          req_headers = headers\<rparr>)"

definition build_request ::
  "'j Json \<Rightarrow> NotificationChannelConfig \<Rightarrow> Notification \<Rightarrow> string \<Rightarrow> string \<Rightarrow> string + OutgoingRequest" where
  "build_request J channel n lang url =
     (if ch_type channel = ''telegram'' then
        request_to (telegram_url channel) [] (j_dump J (j_object J
          [(''chat_id'', j_string J (ch_chat_id channel)), (''text'', j_string J (n_text n)),
           (''disable_web_page_preview'', j_bool J True)]))
      else if ch_type channel = ''slack'' then
        request_to (ch_url channel) [] (j_dump J (j_object J [(''text'', j_string J (n_text n))]))
      else request_to (ch_url channel) (ch_headers channel)
        (j_dump J (j_object J (webhook_body J n lang url))))"

section \<open>The default transport\<close>

text \<open>cpp-httplib's client as the code calls it: is the origin valid, and the status of a POST.\<close>

record HttpClient =
  hc_is_valid :: "string \<Rightarrow> bool"
  hc_post :: "string \<Rightarrow> string \<Rightarrow> (string \<times> string) list \<Rightarrow> string \<Rightarrow> string \<Rightarrow> int option"

definition url_origin :: "Url \<Rightarrow> string" where
  "url_origin url = url_scheme url @ ''://'' @
     (if find_sub '':'' (url_host url) \<noteq> None then ''['' @ url_host url @ '']'' else url_host url) @
     '':'' @ dec_nat (unat (url_port url))"

definition http_post :: "HttpClient \<Rightarrow> bool \<Rightarrow> OutgoingRequest \<Rightarrow> int" where
  "http_post client tls_support request =
     (case parse_url (req_url request) of None \<Rightarrow> 0
      | Some url \<Rightarrow>
          if \<not> tls_support \<and> url_scheme url = ''https'' then 0
          else if \<not> hc_is_valid client (url_origin url) then 0
          else case hc_post client (url_origin url) (url_path url) (req_headers request)
                 (req_body request) (req_content_type request) of None \<Rightarrow> 0 | Some st \<Rightarrow> st)"

section \<open>The notifier\<close>

record Notifier =
  nt_config :: NotificationsConfig
  nt_sensors :: "string \<Rightarrow> SensorInfo option"
  nt_queue :: "Notification list"
  nt_stopping :: bool
  nt_deadline :: int
  nt_offline :: "string \<Rightarrow> bool" \<comment> \<open>\<open>notified_offline_[id]\<close>, false when absent\<close>
  nt_accepted :: "Notification list"
  nt_taken :: "Notification list"

definition kMaxQueue :: nat where "kMaxQueue = 1000"
definition kMaxAttempts :: nat where "kMaxAttempts = 3"

definition Notifier_make :: "NotificationsConfig \<Rightarrow> (string \<Rightarrow> SensorInfo option) \<Rightarrow> Notifier" where
  "Notifier_make cfg infos = \<lparr>nt_config = cfg, nt_sensors = infos, nt_queue = [], nt_stopping = False,
     nt_deadline = 0, nt_offline = (\<lambda>_. False), nt_accepted = [], nt_taken = []\<rparr>"

definition nt_enabled :: "Notifier \<Rightarrow> bool" where
  "nt_enabled s \<longleftrightarrow> channels (nt_config s) \<noteq> []"

definition nt_enqueue :: "Notifier \<Rightarrow> Notification \<Rightarrow> Notifier" where
  "nt_enqueue s n =
     (if nt_stopping s then s
      else let q = (if kMaxQueue \<le> length (nt_queue s) then tl (nt_queue s) else nt_queue s)
           in s\<lparr>nt_queue := q @ [n], nt_accepted := nt_accepted s @ [n]\<rparr>)"

definition on_alert :: "AnomalyEvent \<Rightarrow> Notifier \<Rightarrow> Notifier" where
  "on_alert alert s =
     (if \<not> nt_enabled s \<or> a_severity alert < min_severity (nt_config s) then s
      else let info = (case nt_sensors s (a_sensor_id alert) of None \<Rightarrow> empty_info | Some i \<Rightarrow> i)
           in nt_enqueue s (describe_alert alert info (language (nt_config s)) (dashboard_url (nt_config s))))"

definition on_device_status :: "string \<Rightarrow> bool \<Rightarrow> time_point \<Rightarrow> Notifier \<Rightarrow> Notifier" where
  "on_device_status dev online timestamp s =
     (if \<not> nt_enabled s then s
      else if online \<and> \<not> nt_offline s dev then s
      else if \<not> online \<and> nt_offline s dev then s
      else nt_enqueue (s\<lparr>nt_offline := (nt_offline s)(dev := \<not> online)\<rparr>)
             (describe_device_status dev online timestamp (language (nt_config s))
               (dashboard_url (nt_config s))))"

definition nt_stop :: "int \<Rightarrow> int \<Rightarrow> Notifier \<Rightarrow> Notifier" where
  "nt_stop now drain_timeout s =
     (if nt_stopping s then s else s\<lparr>nt_stopping := True, nt_deadline := now + drain_timeout\<rparr>)"

text \<open>One pass of the worker through its lock.\<close>

datatype WorkerPass = Worker_waits | Worker_exits | Worker_delivers Notification

definition worker_pass :: "int \<Rightarrow> Notifier \<Rightarrow> WorkerPass \<times> Notifier" where
  "worker_pass now s =
     (if \<not> nt_stopping s \<and> nt_queue s = [] then (Worker_waits, s)
      else if nt_queue s = [] \<or> (nt_stopping s \<and> nt_deadline s \<le> now) then (Worker_exits, s)
      else (Worker_delivers (hd (nt_queue s)),
            s\<lparr>nt_queue := tl (nt_queue s), nt_taken := nt_taken s @ [hd (nt_queue s)]\<rparr>))"

section \<open>Delivery\<close>

text \<open>The attempts of one delivery: \<open>transport k\<close> is the status of attempt \<open>k\<close>, \<open>aborted k\<close> says that the
  wait after it was cut short by the drain deadline. The result is the verdict and the waits in seconds.\<close>

definition succeeded :: "int \<Rightarrow> bool" where "succeeded st \<longleftrightarrow> 200 \<le> st \<and> st < 300"
definition hopeless :: "int \<Rightarrow> bool" where "hopeless st \<longleftrightarrow> 400 \<le> st \<and> st < 500 \<and> st \<noteq> 429"

function attempts :: "(nat \<Rightarrow> int) \<Rightarrow> (nat \<Rightarrow> bool) \<Rightarrow> nat \<Rightarrow> nat \<Rightarrow> bool \<times> nat list" where
  "attempts transport aborted attempt backoff =
     (if kMaxAttempts < attempt then (False, [])
      else if succeeded (transport attempt) then (True, [])
      else if hopeless (transport attempt) then (False, [])
      else if attempt = kMaxAttempts then (False, [])
      else if aborted attempt then (False, [backoff])
      else let (ok, waits) = attempts transport aborted (attempt + 1) (backoff * 2) in (ok, backoff # waits))"
  by pat_completeness auto
termination attempts
  by (relation "measure (\<lambda>(transport, aborted, attempt, backoff). Suc kMaxAttempts - attempt)") auto

declare attempts.simps [simp del]

definition deliver ::
  "'j Json \<Rightarrow> (nat \<Rightarrow> OutgoingRequest \<Rightarrow> int) \<Rightarrow> (nat \<Rightarrow> bool) \<Rightarrow> NotificationsConfig \<Rightarrow>
    NotificationChannelConfig \<Rightarrow> Notification \<Rightarrow> string + (bool \<times> nat list)" where
  "deliver J transport aborted cfg channel n =
     (case build_request J channel n (language cfg) (dashboard_url cfg) of Inl e \<Rightarrow> Inl e
      | Inr request \<Rightarrow> Inr (attempts (\<lambda>k. transport k request) aborted 1 1))"

text \<open>All channels of one notification, with the callback's arguments; \<open>world c\<close> is what the outside does
  during the delivery to channel \<open>c\<close>.\<close>

fun deliver_all ::
  "'j Json \<Rightarrow> (nat \<Rightarrow> (nat \<Rightarrow> OutgoingRequest \<Rightarrow> int) \<times> (nat \<Rightarrow> bool)) \<Rightarrow> NotificationsConfig \<Rightarrow> nat \<Rightarrow>
    NotificationChannelConfig list \<Rightarrow> Notification \<Rightarrow> string + (string \<times> bool) list" where
  "deliver_all J world cfg c [] n = Inr []"
| "deliver_all J world cfg c (channel # chs) n =
     (case deliver J (fst (world c)) (snd (world c)) cfg channel n of Inl e \<Rightarrow> Inl e
      | Inr (ok, waits) \<Rightarrow> (case deliver_all J world cfg (Suc c) chs n of Inl e \<Rightarrow> Inl e
          | Inr results \<Rightarrow> Inr ((ch_type channel, ok) # results)))"

section \<open>Runs\<close>

datatype NotifierOp =
    Op_alert AnomalyEvent
  | Op_status string bool time_point
  | Op_stop int int
  | Op_worker int

fun nt_do :: "NotifierOp \<Rightarrow> Notifier \<Rightarrow> Notifier" where
  "nt_do (Op_alert alert) s = on_alert alert s"
| "nt_do (Op_status dev online t) s = on_device_status dev online t s"
| "nt_do (Op_stop now drain) s = nt_stop now drain s"
| "nt_do (Op_worker now) s = snd (worker_pass now s)"

definition nt_run :: "NotifierOp list \<Rightarrow> Notifier \<Rightarrow> Notifier" where
  "nt_run ops s = fold nt_do ops s"

section \<open>URLs are read back\<close>

declare hd_dec_nat(1) [simp]

lemma dec_nat_is_digit: "ch \<in> set (dec_nat n) \<Longrightarrow> is_digit ch"
  using dec_nat_digits [of ch n] by (simp add: is_digit_def)

lemma digit_not_space: "is_digit ch \<Longrightarrow> \<not> is_space ch"
  by (auto simp: is_digit_def is_space_def)

lemma takeWhile_digits [simp]: "takeWhile is_digit (dec_nat n) = dec_nat n" "dropWhile is_digit (dec_nat n) = []"
  by (simp_all add: dec_nat_is_digit takeWhile_eq_all_conv)

lemma skip_blanks [simp]: "dropWhile is_space (dec_nat n) = dec_nat n"
proof -
  have "\<not> is_space (hd (dec_nat n))" by (rule digit_not_space, rule dec_nat_is_digit [of _ n]) simp
  then show ?thesis by (cases "dec_nat n") simp_all
qed

lemma dec_nat_avoids [simp]:
  "CHR ''-'' \<notin> set (dec_nat n)" "CHR ''+'' \<notin> set (dec_nat n)" "CHR ''/'' \<notin> set (dec_nat n)"
  "CHR '':'' \<notin> set (dec_nat n)" "CHR ''@'' \<notin> set (dec_nat n)"
  using dec_nat_digits [of _ n] by fastforce+

lemma dec_nat_unsigned: "hd (dec_nat n) \<noteq> CHR ''-''" "hd (dec_nat n) \<noteq> CHR ''+''"
  using dec_nat_avoids(1,2) [of n] hd_in_set [OF hd_dec_nat(1), of n] by metis+

lemma stoull_dec_nat: "n < 2 ^ 64 \<Longrightarrow> stoull (dec_nat n) = Some n"
  by (simp add: stoull_def dec_nat_unsigned)

lemma stoul_consumed_dec_nat: "stoul_consumed (dec_nat n) = length (dec_nat n)"
  by (simp add: stoul_consumed_def dec_nat_unsigned)

lemma parse_port_dec: "prt \<noteq> 0 \<Longrightarrow> parse_port scheme (dec_nat (unat prt)) = Some prt"
proof -
  assume "prt \<noteq> 0"
  moreover have "unat prt < 65536" using unsigned_less [of prt] by simp
  ultimately show ?thesis
    by (simp add: parse_port_def stoull_dec_nat stoul_consumed_dec_nat unat_eq_zero)
qed

lemma parse_port_nonzero: "parse_port scheme text = Some p \<Longrightarrow> p \<noteq> 0"
proof
  assume "parse_port scheme text = Some p" "p = 0"
  then obtain n where "(of_nat n :: u16) = 0" "n \<noteq> 0" "n \<le> 65535"
    by (auto simp: parse_port_def split: if_splits option.splits)
  then have "unat (of_nat n :: u16) = n" by (intro unat_of_nat_less) simp
  with \<open>(of_nat n :: u16) = 0\<close> \<open>n \<noteq> 0\<close> show False by simp
qed

lemma split_authority_subset:
  assumes "split_authority a = Some (h, p)"
  shows "set h \<subseteq> set a"
  using assms unfolding split_authority_def
  by (auto split: if_splits option.splits dest!: in_set_takeD in_set_dropD)

lemma split_authority_join:
  assumes "h \<noteq> []" "CHR ''['' \<notin> set h" "CHR '']'' \<notin> set h" "CHR '':'' \<notin> set p"
  shows "split_authority ((if CHR '':'' \<in> set h then ''['' @ h @ '']'' else h) @ '':'' @ p) = Some (h, p)"
proof (cases "CHR '':'' \<in> set h")
  case True
  have "find_sub '']'' (CHR ''['' # h @ CHR '']'' # CHR '':'' # p) = Some (Suc (length h))"
    using assms(3) by simp
  with True show ?thesis by (simp add: split_authority_def nth_append)
next
  case False
  with assms(1,2) have "hd (h @ x) \<noteq> CHR ''[''" for x by (cases h) auto
  with False assms show ?thesis by (simp add: split_authority_def)
qed

lemma parse_url_parts:
  assumes "parse_url text = Some u"
  shows "url_scheme u = ''http'' \<or> url_scheme u = ''https''" and "url_host u \<noteq> []"
    and "CHR ''/'' \<notin> set (url_host u)" and "CHR ''@'' \<notin> set (url_host u)" and "url_port u \<noteq> 0"
    and "hd (url_path u) = CHR ''/''" and "url_path u \<noteq> []"
proof -
  obtain n where n: "find_sub ''://'' text = Some n" using assms
    by (auto simp: parse_url_def split: option.splits)
  define r where "r = drop (n + 3) text"
  from assms n obtain h p prt where u: "take n text = ''http'' \<or> take n text = ''https''"
    "CHR ''@'' \<notin> set (authority_of r)" "split_authority (authority_of r) = Some (h, p)" "h \<noteq> []"
    "parse_port (take n text) p = Some prt"
    "u = \<lparr>url_scheme = take n text, url_host = h, url_port = prt, url_path = path_of r\<rparr>"
    unfolding parse_url_def by (auto simp: Let_def r_def [symmetric] split: if_splits option.splits)
  have "CHR ''/'' \<notin> set (authority_of r)" using find_char_split [of "CHR ''/''" r]
    by (auto simp: authority_of_def split: option.split)
  with u split_authority_subset [OF u(3)] show "url_scheme u = ''http'' \<or> url_scheme u = ''https''"
    "url_host u \<noteq> []" "CHR ''/'' \<notin> set (url_host u)" "CHR ''@'' \<notin> set (url_host u)" by auto
  show "url_port u \<noteq> 0" using u parse_port_nonzero by simp
  have "path_of r \<noteq> [] \<and> hd (path_of r) = CHR ''/''"
  proof (cases "find_sub ''/'' r")
    case None
    then show ?thesis unfolding path_of_def by (simp only: option.case list.sel) simp
  next
    case (Some k)
    from find_char_split [OF this] obtain t where "r = take k r @ CHR ''/'' # t" "t = drop (Suc k) r" by blast
    moreover have "k < length r" using find_sub_less [OF Some] by simp
    ultimately have "drop k r = CHR ''/'' # t" by (metis Cons_nth_drop_Suc append_eq_conv_conj length_take min.absorb4)
    with Some show ?thesis by (simp add: path_of_def)
  qed
  with u show "hd (url_path u) = CHR ''/''" "url_path u \<noteq> []" by simp_all
qed

lemma parse_url_origin:
  assumes "scheme = ''http'' \<or> scheme = ''https''" and "a \<noteq> []" and "CHR ''/'' \<notin> set a"
    and "CHR ''@'' \<notin> set a" and "split_authority a = Some (h, p)" and "h \<noteq> []"
    and "parse_port scheme p = Some prt"
  shows "parse_url (scheme @ ''://'' @ a @ CHR ''/'' # q) =
    Some \<lparr>url_scheme = scheme, url_host = h, url_port = prt, url_path = CHR ''/'' # q\<rparr>"
proof -
  have "find_sub ''://'' (scheme @ ''://'' @ x) = Some (length scheme)" for x
    using assms(1) by auto
  moreover have "find_sub ''/'' (a @ CHR ''/'' # q) = Some (length a)" using assms(3) by simp
  ultimately show ?thesis using assms
    by (auto simp: parse_url_def authority_of_def path_of_def Let_def)
qed

lemma url_again:
  assumes "parse_url text = Some u" and "CHR ''['' \<notin> set (url_host u)" and "CHR '']'' \<notin> set (url_host u)"
  shows "parse_url (url_origin u @ url_path u) = Some u"
proof -
  let ?h = "url_host u" and ?p = "dec_nat (unat (url_port u))"
  let ?a = "(if CHR '':'' \<in> set ?h then ''['' @ ?h @ '']'' else ?h) @ '':'' @ ?p"
  note parts = parse_url_parts [OF assms(1)]
  have path: "url_path u = CHR ''/'' # tl (url_path u)" using parts(6,7) by (cases "url_path u") simp_all
  have "split_authority ?a = Some (?h, ?p)" using parts(2) assms(2,3) by (intro split_authority_join) simp_all
  moreover have "CHR ''/'' \<notin> set ?a" "CHR ''@'' \<notin> set ?a" "?a \<noteq> []" using parts by auto
  moreover have "parse_port (url_scheme u) ?p = Some (url_port u)" using parts(5) by (rule parse_port_dec)
  ultimately have "parse_url (url_scheme u @ ''://'' @ ?a @ CHR ''/'' # tl (url_path u)) =
      Some \<lparr>url_scheme = url_scheme u, url_host = ?h, url_port = url_port u, url_path = url_path u\<rparr>"
    using parse_url_origin [of "url_scheme u" ?a ?h ?p "url_port u" "tl (url_path u)"] parts(1,2) path by simp
  moreover have "url_scheme u @ ''://'' @ ?a @ CHR ''/'' # tl (url_path u) = url_origin u @ url_path u"
    using path by (simp add: url_origin_def)
  ultimately show ?thesis by simp
qed

section \<open>The queue\<close>

interpretation notifications: sliding_window nt_enqueue nt_queue "\<lambda>s. kMaxQueue"
  "\<lambda>s. \<not> nt_stopping s \<and> length (nt_queue s) \<le> kMaxQueue"
proof unfold_locales
  fix s :: Notifier and n assume inv: "\<not> nt_stopping s \<and> length (nt_queue s) \<le> kMaxQueue"
  have "0 < kMaxQueue" by (simp add: kMaxQueue_def)
  with inv show "\<not> nt_stopping (nt_enqueue s n) \<and> length (nt_queue (nt_enqueue s n)) \<le> kMaxQueue"
    by (auto simp: nt_enqueue_def Let_def)
  show "nt_queue (nt_enqueue s n) = last_n kMaxQueue (nt_queue s @ [n])"
    using inv \<open>0 < kMaxQueue\<close> by (cases "length (nt_queue s) = kMaxQueue")
      (auto simp: nt_enqueue_def Let_def last_n_def drop_Suc not_le)
qed auto

definition nt_inv :: "NotificationsConfig \<Rightarrow> Notifier \<Rightarrow> bool" where
  "nt_inv cfg s \<longleftrightarrow> nt_config s = cfg \<and> length (nt_queue s) \<le> kMaxQueue \<and>
     suffix (nt_queue s) (nt_accepted s) \<and> subseq (nt_taken s @ nt_queue s) (nt_accepted s)"

lemma nt_inv_make [simp]: "nt_inv cfg (Notifier_make cfg infos)"
  by (simp add: nt_inv_def Notifier_make_def)

lemma nt_inv_offline [simp]: "nt_inv cfg (s\<lparr>nt_offline := f\<rparr>) = nt_inv cfg s"
  by (simp add: nt_inv_def)

lemma suffix_tl_snoc: "suffix q acc \<Longrightarrow> suffix (tl q @ [n]) (acc @ [n]) \<and> suffix (q @ [n]) (acc @ [n])"
  by (cases q) (auto simp: suffix_def)

lemma nt_inv_enqueue:
  assumes "nt_inv cfg s"
  shows "nt_inv cfg (nt_enqueue s n)"
proof (cases "nt_stopping s")
  case True
  with assms show ?thesis by (simp add: nt_enqueue_def)
next
  case False
  have "subseq (nt_taken s @ tl (nt_queue s)) (nt_taken s @ nt_queue s)"
    by (cases "nt_queue s") (auto intro: list_emb_append_mono)
  with assms have "subseq (nt_taken s @ tl (nt_queue s)) (nt_accepted s)"
    unfolding nt_inv_def using subseq_order.order_trans by blast
  then have "subseq ((nt_taken s @ tl (nt_queue s)) @ [n]) (nt_accepted s @ [n])"
    "subseq ((nt_taken s @ nt_queue s) @ [n]) (nt_accepted s @ [n])"
    using assms by (auto simp: nt_inv_def simp del: append_assoc)
  moreover have "length (nt_queue (nt_enqueue s n)) \<le> kMaxQueue"
    using notifications.inv_push [of s n] False assms by (auto simp: nt_inv_def)
  ultimately show ?thesis
    using assms False suffix_tl_snoc [of "nt_queue s" "nt_accepted s" n]
    by (auto simp: nt_inv_def nt_enqueue_def Let_def)
qed

lemma nt_inv_do: "nt_inv cfg s \<Longrightarrow> nt_inv cfg (nt_do op s)"
proof (cases op)
  case (Op_worker now)
  assume inv: "nt_inv cfg s"
  show ?thesis
  proof (cases "nt_queue s")
    case Nil
    with inv Op_worker show ?thesis by (simp add: worker_pass_def)
  next
    case (Cons n q)
    moreover from inv Cons have "suffix q (nt_accepted s)" by (auto simp: nt_inv_def suffix_def)
    ultimately show ?thesis using inv Op_worker by (auto simp: worker_pass_def nt_inv_def)
  qed
qed (simp_all add: on_alert_def on_device_status_def nt_stop_def Let_def nt_inv_enqueue,
    simp add: nt_inv_def)

lemma nt_inv_run: "nt_inv cfg s \<Longrightarrow> nt_inv cfg (nt_run ops s)"
  unfolding nt_run_def by (induction ops arbitrary: s) (simp_all add: nt_inv_do)

section \<open>Offline and online\<close>

text \<open>What was announced about one device, in order: did it say "back online"?\<close>

definition announced :: "string \<Rightarrow> Notification list \<Rightarrow> bool list" where
  "announced dev ns = map (\<lambda>n. n_type n = NT_device_online)
     (filter (\<lambda>n. n_type n \<noteq> NT_alert \<and> n_device_id n = dev) ns)"

fun alternates :: "bool \<Rightarrow> bool list \<Rightarrow> bool" where
  "alternates b [] = True"
| "alternates b (x # xs) = (x = b \<and> alternates (\<not> b) xs)"

lemma alternates_snoc: "alternates b (xs @ [x]) \<longleftrightarrow> alternates b xs \<and> x = (b = even (length xs))"
  by (induction xs arbitrary: b) auto

definition status_inv :: "string \<Rightarrow> Notifier \<Rightarrow> bool" where
  "status_inv dev s \<longleftrightarrow> alternates False (announced dev (nt_accepted s)) \<and>
     (nt_stopping s \<or> nt_offline s dev = odd (length (announced dev (nt_accepted s)))) \<and>
     filter (\<lambda>n. n_type n = NT_alert \<and> n_severity n < min_severity (nt_config s)) (nt_accepted s) = []"

lemma announced_snoc: "announced dev (ns @ [n]) = announced dev ns @
    (if n_type n \<noteq> NT_alert \<and> n_device_id n = dev then [n_type n = NT_device_online] else [])"
  by (simp add: announced_def)

lemma described [simp]:
  "n_type (describe_alert alert info lang url) = NT_alert"
  "n_severity (describe_alert alert info lang url) = a_severity alert"
  "n_type (describe_device_status dev online t lang url) = (if online then NT_device_online else NT_device_offline)"
  "n_device_id (describe_device_status dev online t lang url) = dev"
  by (simp_all add: describe_alert_def describe_device_status_def Let_def)

lemma status_inv_do: "status_inv dev s \<Longrightarrow> status_inv dev (nt_do op s)"
  by (cases op)
    (auto simp: status_inv_def on_alert_def on_device_status_def nt_enqueue_def Let_def nt_stop_def
      worker_pass_def announced_snoc alternates_snoc)

lemma status_inv_run: "status_inv dev s \<Longrightarrow> status_inv dev (nt_run ops s)"
  unfolding nt_run_def by (induction ops arbitrary: s) (simp_all add: status_inv_do)

lemma nt_config_run: "nt_config (nt_run ops (Notifier_make cfg infos)) = cfg"
  using nt_inv_run [OF nt_inv_make] by (auto simp: nt_inv_def)

lemma status_inv_make: "status_inv dev (Notifier_make cfg infos)"
  by (simp add: status_inv_def Notifier_make_def announced_def)

section \<open>Delivery in three attempts\<close>

lemma attempts_result:
  "\<exists>ok waits. attempts st aborted 1 1 = (ok, waits) \<and> prefix waits [1, 2] \<and>
     (ok \<longleftrightarrow> (\<exists>k \<in> {1..kMaxAttempts}. succeeded (st k) \<and>
        (\<forall>j \<in> {1..<k}. \<not> succeeded (st j) \<and> \<not> hopeless (st j) \<and> \<not> aborted j)))"
proof -
  have upto: "{Suc 0..kMaxAttempts} = {Suc 0, 2, 3}" "{Suc 0..<2} = {Suc 0}" "{Suc 0..<3} = {Suc 0, 2}"
    by (auto simp: kMaxAttempts_def)
  have three: "attempts st aborted 3 4 = (succeeded (st 3), [])"
    by (simp add: attempts.simps kMaxAttempts_def)
  have two: "attempts st aborted 2 2 = (if succeeded (st 2) then (True, [])
      else if hopeless (st 2) then (False, []) else if aborted 2 then (False, [2])
      else (succeeded (st 3), [2]))"
    using three by (subst attempts.simps) (simp add: kMaxAttempts_def)
  have "attempts st aborted 1 1 = (if succeeded (st 1) then (True, [])
      else if hopeless (st 1) then (False, []) else if aborted 1 then (False, [1])
      else (fst (attempts st aborted 2 2), 1 # snd (attempts st aborted 2 2)))"
    by (subst attempts.simps) (simp add: kMaxAttempts_def case_prod_beta numeral_2_eq_2)
  then show ?thesis unfolding two One_nat_def by (auto simp: upto)
qed

section \<open>Properties\<close>


text \<open>C36. For every device the announcements strictly alternate, "offline" first: a recovery is reported only
  after its outage, no outage is reported twice, and no alert below the configured severity is ever
  queued.\<close>

theorem device_announcements_alternate:
  "alternates False (announced dev (nt_accepted (nt_run ops (Notifier_make cfg infos)))) \<and>
   filter (\<lambda>n. n_type n = NT_alert \<and> n_severity n < min_severity cfg)
     (nt_accepted (nt_run ops (Notifier_make cfg infos))) = []"
  using status_inv_run [OF status_inv_make, of dev ops cfg infos] by (simp add: status_inv_def nt_config_run)

text \<open>A delivery ends after at most three attempts and at most 1 s and 2 s of waiting, and it counts as
  delivered exactly when some attempt got a 2xx answer, every earlier one having failed in a way
  worth retrying (network error, 429, 5xx).\<close>

theorem delivery_retries:
  assumes "build_request J channel n (language cfg) (dashboard_url cfg) = Inr request"
  shows "\<exists>ok waits. deliver J transport aborted cfg channel n = Inr (ok, waits) \<and> prefix waits [1, 2] \<and>
    (ok \<longleftrightarrow> (\<exists>k \<in> {1..kMaxAttempts}. succeeded (transport k request) \<and>
       (\<forall>j \<in> {1..<k}. \<not> succeeded (transport j request) \<and> \<not> hopeless (transport j request) \<and> \<not> aborted j)))"
  using assms attempts_result [of "\<lambda>k. transport k request" aborted] by (simp add: deliver_def)

text \<open>What a client is told to connect to is what the URL said: the origin and path handed to the HTTP
  client read back as the same scheme, host, port and path.\<close>

theorem url_reparsed:
  assumes "parse_url text = Some u" and "CHR ''['' \<notin> set (url_host u)" and "CHR '']'' \<notin> set (url_host u)"
  shows "parse_url (url_origin u @ url_path u) = Some u"
  using assms by (rule url_again)

text \<open>The payload of a generic webhook, parsed again, has the notification's type, severity, title and
  text, and for an alert the object with its kind, severity and sensor.\<close>

theorem webhook_payload:
  assumes J: "json_documented J" and req: "build_request J channel n lang url = Inr r"
    and webhook: "ch_type channel \<noteq> ''telegram''" "ch_type channel \<noteq> ''slack''" and alert: "n_alert n = Some a"
  shows "\<exists>doc al. j_parse J (req_body r) = Inr doc \<and>
    j_at J doc ''type'' = Inr (j_string J (type_name (n_type n))) \<and>
    j_at J doc ''severity'' = Inr (j_string J (severity_to_string (n_severity n))) \<and>
    j_at J doc ''title'' = Inr (j_string J (n_title n)) \<and> j_at J doc ''text'' = Inr (j_string J (n_text n)) \<and>
    j_at J doc ''alert'' = Inr al \<and> j_at J al ''kind'' = Inr (j_string J (kind_to_string (a_kind a))) \<and>
    j_at J al ''severity'' = Inr (j_string J (severity_to_string (a_severity a))) \<and>
    j_at J al ''sensor_id'' = Inr (j_string J (a_sensor_id a))"
proof -
  let ?fields = "webhook_body J n lang url"
  let ?al = "alert_fields J a @ [(''timestamp'', j_string J (iso8601 (a_timestamp a)))]"
  from req webhook have "j_dump J (j_object J ?fields) = Inr (req_body r)"
    by (auto simp: build_request_def request_to_def split: sum.splits)
  then have doc: "j_parse J (req_body r) = Inr (j_object J ?fields)" by (rule dump_parse [OF J])
  have "distinct (map fst ?fields)" using alert by (simp add: webhook_body_def)
  note field = object_field(2) [OF J this]
  have "distinct (map fst ?al)" by (simp add: alert_keys)
  note alert_field = object_field(2) [OF J this]
  show ?thesis
    by (rule exI, rule exI [of _ "j_object J ?al"], intro conjI, rule doc)
      (rule field, simp add: webhook_body_def alert | rule alert_field, simp add: alert_fields_def)+
qed

text \<open>Inputs at which the hypotheses hold.\<close>

definition demo_channel :: NotificationChannelConfig where
  "demo_channel = empty_channel\<lparr>ch_type := ''webhook'', ch_url := ''http://host:9000/x''\<rparr>"

definition demo_note :: Notification where
  "demo_note = \<lparr>n_type = NT_alert, n_severity = Sev_critical, n_title = ''t'', n_text = ''x'', n_timestamp = 0,
     n_sensor_id = ''s1'', n_device_id = ''d1'', n_alert = Some \<lparr>a_sensor_id = ''s1'', a_detector_name = ''limit'',
       a_message = [], a_score = 0, a_confidence = 0, a_timestamp = 0, a_votes = 1, a_detectors_total = 1,
       a_kind = AK_limit, a_severity = Sev_critical, a_value = 0, a_limit = None, a_above_limit = True\<rparr>\<rparr>"

lemma demo_request: "\<exists>r. build_request jv_lib demo_channel demo_note ''en'' [] = Inr r"
  by (simp add: build_request_def request_to_def demo_channel_def empty_channel_def jv_lib_def)

lemma demo_url: "parse_url ''https://[::1]/a?b=c'' = Some \<lparr>url_scheme = ''https'', url_host = ''::1'',
    url_port = 443, url_path = ''/a?b=c''\<rparr>"
  by (simp add: parse_url_def authority_of_def path_of_def split_authority_def parse_port_def Let_def)

theorem url_reparsed_witness:
  "parse_url (url_origin \<lparr>url_scheme = ''https'', url_host = ''::1'', url_port = 443, url_path = ''/a?b=c''\<rparr> @
     ''/a?b=c'') = Some \<lparr>url_scheme = ''https'', url_host = ''::1'', url_port = 443, url_path = ''/a?b=c''\<rparr>"
  using url_reparsed [OF demo_url] by simp

theorem delivery_retries_witness:
  "\<exists>ok waits. deliver jv_lib (\<lambda>k r. if k = 1 then 503 else 200) (\<lambda>k. False)
     (default_NotificationsConfig\<lparr>language := ''en''\<rparr>) demo_channel demo_note = Inr (ok, waits) \<and> prefix waits [1, 2]"
proof -
  obtain r where "build_request jv_lib demo_channel demo_note ''en'' [] = Inr r" using demo_request by blast
  then show ?thesis
    using delivery_retries [of jv_lib demo_channel demo_note "default_NotificationsConfig\<lparr>language := ''en''\<rparr>" r
        "\<lambda>k r. if k = 1 then 503 else 200" "\<lambda>k. False"]
    by (auto simp: default_NotificationsConfig_def)
qed

theorem webhook_payload_witness:
  "\<exists>r doc. build_request jv_lib demo_channel demo_note ''en'' [] = Inr r \<and> j_parse jv_lib (req_body r) = Inr doc \<and>
     j_at jv_lib doc ''title'' = Inr (j_string jv_lib ''t'')"
proof -
  obtain r where r: "build_request jv_lib demo_channel demo_note ''en'' [] = Inr r" using demo_request by blast
  have ch: "ch_type demo_channel = ''webhook''" by (simp add: demo_channel_def)
  obtain a where a: "n_alert demo_note = Some a" by (simp add: demo_note_def)
  from webhook_payload [OF json_documented_jv_lib r _ _ a] ch
  have "\<exists>doc. j_parse jv_lib (req_body r) = Inr doc \<and> j_at jv_lib doc ''title'' = Inr (j_string jv_lib (n_title demo_note))"
    by auto
  with r show ?thesis by (auto simp: demo_note_def)
qed

end
