(* ===== verification/QueueSpec.thy ===== *)
theory QueueSpec
  imports Prelude
begin

text \<open>
  The interface between a bounded FIFO queue and its users, as a contract over the list of queued
  elements. \<open>SpscRing\<close> provides it (\<open>ingest/ring_buffer.hpp\<close>), the ingestor's model relies on it.
  Operations can be undefined behaviour (\<open>None\<close>); the contract says they are not.
\<close>

locale bounded_queue =
  fixes enq :: "'a \<Rightarrow> 'q \<Rightarrow> (bool \<times> 'q) ub"
    and deq :: "'q \<Rightarrow> ('a option \<times> 'q) ub"
    and inv :: "'q \<Rightarrow> bool"
    and contents :: "'q \<Rightarrow> 'a list"
    and bound :: "'q \<Rightarrow> nat"
  assumes enq_law: "inv q \<Longrightarrow> \<exists>q'. enq x q = Some (length (contents q) < bound q, q') \<and> inv q' \<and>
      bound q' = bound q \<and>
      contents q' = (if length (contents q) < bound q then contents q @ [x] else contents q)"
    and deq_law: "inv q \<Longrightarrow> \<exists>q'. deq q = Some (if contents q = [] then None else Some (hd (contents q)), q') \<and>
      inv q' \<and> bound q' = bound q \<and> contents q' = tl (contents q)"
    and contents_bound: "inv q \<Longrightarrow> length (contents q) \<le> bound q"
begin

text \<open>Taking up to \<open>n\<close> elements, stopping at the first empty answer: how every consumer of the
  queue fills a batch.\<close>

fun take_up_to :: "nat \<Rightarrow> 'q \<Rightarrow> ('a list \<times> 'q) ub" where
  "take_up_to 0 q = Some ([], q)"
| "take_up_to (Suc n) q =
     (case deq q of None \<Rightarrow> None
      | Some (None, q') \<Rightarrow> Some ([], q')
      | Some (Some x, q') \<Rightarrow> (case take_up_to n q' of None \<Rightarrow> None | Some (xs, q'') \<Rightarrow> Some (x # xs, q'')))"

lemma take_up_to_contents:
  "inv q \<Longrightarrow> \<exists>q'. take_up_to n q = Some (take n (contents q), q') \<and> inv q' \<and>
     bound q' = bound q \<and> contents q' = drop n (contents q)"
proof (induction n arbitrary: q)
  case 0
  then show ?case by simp
next
  case (Suc n)
  from deq_law [OF Suc.prems] obtain q1 where
    q1: "deq q = Some (if contents q = [] then None else Some (hd (contents q)), q1)" "inv q1"
      "bound q1 = bound q" "contents q1 = tl (contents q)" by blast
  from Suc.IH [OF q1(2)] obtain q2 where
    q2: "take_up_to n q1 = Some (take n (contents q1), q2)" "inv q2" "bound q2 = bound q1"
      "contents q2 = drop n (contents q1)" by blast
  show ?case
    by (cases "contents q") (use q1 q2 in \<open>auto\<close>)
qed

text \<open>Offering a list of elements one after the other: the queue keeps the first ones that fit.\<close>

fun offer_all :: "'a list \<Rightarrow> 'q \<Rightarrow> (bool list \<times> 'q) ub" where
  "offer_all [] q = Some ([], q)"
| "offer_all (x # xs) q =
     (case enq x q of None \<Rightarrow> None
      | Some (ok, q') \<Rightarrow> (case offer_all xs q' of None \<Rightarrow> None | Some (oks, q'') \<Rightarrow> Some (ok # oks, q'')))"

lemma offer_all_contents:
  "inv q \<Longrightarrow> \<exists>oks q'. offer_all xs q = Some (oks, q') \<and> inv q' \<and> bound q' = bound q \<and>
     contents q' = contents q @ take (bound q - length (contents q)) xs \<and>
     oks = map (\<lambda>i. i < bound q - length (contents q)) [0..<length xs]"
proof (induction xs arbitrary: q)
  case Nil
  then show ?case by simp
next
  case (Cons x xs)
  let ?ok = "length (contents q) < bound q"
  from enq_law [OF Cons.prems, of x] obtain q1 where
    q1: "enq x q = Some (?ok, q1)" "inv q1" "bound q1 = bound q"
      "contents q1 = (if ?ok then contents q @ [x] else contents q)" by blast
  from Cons.IH [OF q1(2)] obtain oks q2 where
    q2: "offer_all xs q1 = Some (oks, q2)" "inv q2" "bound q2 = bound q1"
      "contents q2 = contents q1 @ take (bound q1 - length (contents q1)) xs"
      "oks = map (\<lambda>i. i < bound q1 - length (contents q1)) [0..<length xs]" by blast
  have "map (\<lambda>i. i < bound q - length (contents q)) [0..<length (x # xs)] = ?ok # oks"
    using q1 q2(5) by (auto simp: upt_conv_Cons map_Suc_upt [symmetric] simp del: upt_Suc)
  moreover have "take (bound q - length (contents q)) (x # xs) =
      (if ?ok then x # take (bound q1 - length (contents q1)) xs else [])"
    using q1 by (auto simp: take_Cons' )
  ultimately show ?case
    using q1 q2 by (cases ?ok) auto
qed

end

end
