(* ===== verification/SpscRing.thy ===== *)
theory SpscRing
  imports QueueSpec
begin

text \<open>
  \<open>ingest/ring_buffer.hpp\<close>: the single-producer single-consumer ring. A slot of raw storage is
  \<open>None\<close>, a constructed element \<open>Some x\<close>; constructing over a live element, or taking an element
  from raw storage, is undefined behaviour. Here the operations run one at a time and the ring
  refines the bounded queue of \<open>QueueSpec\<close>; \<open>SpscConcurrent\<close> splits them into their loads and
  stores and interleaves producer and consumer.
\<close>

section \<open>State and operations\<close>

record 'a SpscRingBuffer =
  rb_capacity :: u64
  rb_mask :: u64
  rb_slots :: "'a option list"
  rb_tail :: u64
  rb_head_cached :: u64
  rb_head :: u64
  rb_tail_cached :: u64

datatype 'e throws = invalid_argument 'e

definition capacity_message :: string where
  "capacity_message = ''SpscRingBuffer capacity must be a power of two and at least 2''"

definition SpscRingBuffer_make :: "u64 \<Rightarrow> string throws + 'a SpscRingBuffer" where
  "SpscRingBuffer_make cap =
     (if cap < 2 \<or> cap AND (cap - 1) \<noteq> 0 then Inl (invalid_argument capacity_message)
      else Inr \<lparr>rb_capacity = cap, rb_mask = cap - 1, rb_slots = replicate (unat cap) None, rb_tail = 0,
             rb_head_cached = 0, rb_head = 0, rb_tail_cached = 0\<rparr>)"

definition construct_at :: "'a option list \<Rightarrow> nat \<Rightarrow> 'a \<Rightarrow> 'a option list ub" where
  "construct_at slots i x = (if i < length slots \<and> slots ! i = None then Some (slots[i := Some x]) else None)"

definition take_from :: "'a option list \<Rightarrow> nat \<Rightarrow> ('a \<times> 'a option list) ub" where
  "take_from slots i = (if i < length slots
     then (case slots ! i of None \<Rightarrow> None | Some x \<Rightarrow> Some (x, slots[i := None])) else None)"

definition emplace :: "'a \<Rightarrow> 'a SpscRingBuffer \<Rightarrow> (bool \<times> 'a SpscRingBuffer) ub" where
  "emplace x q =
     (let tail = rb_tail q;
          q = (if rb_capacity q \<le> tail - rb_head_cached q then q\<lparr>rb_head_cached := rb_head q\<rparr> else q)
      in if rb_capacity q \<le> tail - rb_head_cached q then Some (False, q)
         else do { slots \<leftarrow> construct_at (rb_slots q) (unat (tail AND rb_mask q)) x;
                   Some (True, q\<lparr>rb_slots := slots, rb_tail := tail + 1\<rparr>) })"

definition pop :: "'a SpscRingBuffer \<Rightarrow> ('a option \<times> 'a SpscRingBuffer) ub" where
  "pop q =
     (let head = rb_head q;
          q = (if head = rb_tail_cached q then q\<lparr>rb_tail_cached := rb_tail q\<rparr> else q)
      in if head = rb_tail_cached q then Some (None, q)
         else do { (x, slots) \<leftarrow> take_from (rb_slots q) (unat (head AND rb_mask q));
                   Some (Some x, q\<lparr>rb_slots := slots, rb_head := head + 1\<rparr>) })"

definition ring_size :: "'a SpscRingBuffer \<Rightarrow> u64" where
  "ring_size q = rb_tail q - rb_head q"

definition ring_empty :: "'a SpscRingBuffer \<Rightarrow> bool" where
  "ring_empty q = (ring_size q = 0)"

text \<open>The destructor destroys the elements from \<open>head\<close> to \<open>tail\<close>, one per turn: what it leaves in
  the slots. Destroying raw storage is undefined.\<close>

function destroy_from :: "'a SpscRingBuffer \<Rightarrow> u64 \<Rightarrow> 'a option list \<Rightarrow> 'a option list ub" where
  "destroy_from q head slots =
     (if head = rb_tail q then Some slots
      else do { (x, slots) \<leftarrow> take_from slots (unat (head AND rb_mask q)); destroy_from q (head + 1) slots })"
  by pat_completeness auto
termination
proof (relation "measure (\<lambda>(q, head, slots). unat (rb_tail q - head))", simp, clarsimp)
  fix q :: "'a SpscRingBuffer" and head
  assume "head \<noteq> rb_tail q"
  then have "rb_tail q - head \<noteq> 0" by simp
  then have "unat (rb_tail q - head - 1) < unat (rb_tail q - head)" by (simp add: unat_minus_one unat_gt_0)
  then show "unat (rb_tail q - (head + 1)) < unat (rb_tail q - head)" by (simp add: algebra_simps)
qed

declare destroy_from.simps [simp del]

section \<open>Indices\<close>

text \<open>The indices are counters modulo \<open>2 ^ 64\<close>. For counters no further apart than the capacity
  the wrapped difference is the difference, and masking is the remainder.\<close>

definition ring_capacity :: "u64 \<Rightarrow> nat \<Rightarrow> bool" where
  "ring_capacity cap k \<longleftrightarrow> 0 < k \<and> k < 64 \<and> unat cap = 2 ^ k"

lemma ring_capacityE:
  assumes "\<not> (cap < 2 \<or> cap AND (cap - 1) \<noteq> 0)"
  obtains k where "ring_capacity cap k"
proof -
  have "cap \<noteq> 0" using assms by auto
  moreover have "cap AND (cap - 1) = 0" using assms by simp
  ultimately obtain k where k: "k < 64" "unat cap = 2 ^ k"
    using word_and_pred_eq_0_pow2 [of cap] by auto
  moreover have "k \<noteq> 0"
    using assms k(2) by (cases "k = 0") (auto simp: word_less_nat_alt)
  ultimately show thesis using that by (auto simp: ring_capacity_def)
qed

lemma unat_diff_counters:
  assumes "a \<le> b" "b - a < 2 ^ 64"
  shows "unat (of_nat b - of_nat a :: u64) = b - a"
proof -
  have "(of_nat b - of_nat a :: u64) = of_nat (b - a)" using assms(1) by (simp add: of_nat_diff)
  then show ?thesis using assms(2) by (simp add: unat_of_nat)
qed

lemma counters_eq:
  assumes "a \<le> b" "b - a < 2 ^ 64"
  shows "(of_nat a :: u64) = of_nat b \<longleftrightarrow> a = b"
proof
  assume "(of_nat a :: u64) = of_nat b"
  then have "unat (of_nat b - of_nat a :: u64) = 0" by simp
  then show "a = b" using assms by (simp add: unat_diff_counters)
qed simp

lemma capacity_less: "ring_capacity cap k \<Longrightarrow> unat cap < 2 ^ 64"
  using unsigned_less [of cap] by simp

lemma full_test:
  assumes "ring_capacity cap k" "a \<le> b" "b - a \<le> unat cap"
  shows "cap \<le> (of_nat b - of_nat a :: u64) \<longleftrightarrow> b - a = unat cap"
  using assms capacity_less [OF assms(1)] by (auto simp: word_le_nat_alt unat_diff_counters)

lemma masked_index:
  assumes "ring_capacity cap k"
  shows "unat (of_nat n AND (cap - 1) :: u64) = n mod unat cap"
proof -
  have "cap = 2 ^ k"
  proof -
    have "cap = of_nat (unat cap)" by simp
    also have "unat cap = 2 ^ k" using assms by (simp add: ring_capacity_def)
    finally show ?thesis by simp
  qed
  then have "cap - 1 = mask k" by (simp add: mask_eq_exp_minus_1)
  then have "unat (of_nat n AND (cap - 1) :: u64) = take_bit k (take_bit 64 n)"
    by (simp add: unsigned_take_bit_eq unsigned_of_nat flip: take_bit_eq_mask)
  also have "\<dots> = take_bit k n" using assms by (simp add: ring_capacity_def min_def)
  also have "\<dots> = n mod unat cap" using assms by (simp add: ring_capacity_def take_bit_eq_mod)
  finally show ?thesis .
qed

lemma mod_eq_window:
  assumes "i mod c = j mod (c::nat)" "lo \<le> i" "i < lo + c" "lo \<le> j" "j < lo + c"
  shows "i = j"
  using assms
proof (induction i j rule: linorder_wlog)
  case (le a b)
  then have "c dvd b - a" using mod_eq_dvd_iff_nat by metis
  moreover have "b - a < c" using le by linarith
  ultimately show ?case using le(1) by (auto dest: dvd_imp_le)
qed (metis)

section \<open>The ring is a bounded queue\<close>

text \<open>The state of the ring as counters: \<open>n\<close> elements taken, \<open>length xs\<close> queued after them. The
  cached indices lag behind the real ones, by no more than the ring can hold.\<close>

definition ring_at :: "'a SpscRingBuffer \<Rightarrow> nat \<Rightarrow> 'a list \<Rightarrow> bool" where
  "ring_at q n xs \<longleftrightarrow>
     (\<exists>k. ring_capacity (rb_capacity q) k) \<and> rb_mask q = rb_capacity q - 1 \<and>
     length xs \<le> unat (rb_capacity q) \<and> length (rb_slots q) = unat (rb_capacity q) \<and>
     rb_head q = of_nat n \<and> rb_tail q = of_nat (n + length xs) \<and>
     (\<exists>hc \<le> n. rb_head_cached q = of_nat hc \<and> n + length xs - hc \<le> unat (rb_capacity q)) \<and>
     (\<exists>tc \<le> n + length xs. n \<le> tc \<and> rb_tail_cached q = of_nat tc) \<and>
     (\<forall>i < unat (rb_capacity q). rb_slots q ! ((n + i) mod unat (rb_capacity q)) =
        (if i < length xs then Some (xs ! i) else None))"

definition ring_inv :: "'a SpscRingBuffer \<Rightarrow> bool" where
  "ring_inv q \<longleftrightarrow> (\<exists>n xs. ring_at q n xs)"

definition ring_contents :: "'a SpscRingBuffer \<Rightarrow> 'a list" where
  "ring_contents q = map (\<lambda>i. the (rb_slots q ! unat ((rb_head q + of_nat i) AND rb_mask q)))
     [0..<unat (ring_size q)]"

abbreviation ring_bound :: "'a SpscRingBuffer \<Rightarrow> nat" where
  "ring_bound q \<equiv> unat (rb_capacity q)"

lemma ring_contents_at: "ring_at q n xs \<Longrightarrow> ring_contents q = xs"
proof -
  assume at: "ring_at q n xs"
  then obtain k where k: "ring_capacity (rb_capacity q) k" by (auto simp: ring_at_def)
  have mask: "rb_mask q = rb_capacity q - 1" "rb_head q = of_nat n" using at by (auto simp: ring_at_def)
  have "unat (ring_size q) = length xs"
    using at capacity_less [OF k] unat_diff_counters [of n "n + length xs"]
    by (auto simp: ring_size_def ring_at_def)
  moreover have "the (rb_slots q ! unat ((rb_head q + of_nat i) AND rb_mask q)) = xs ! i"
    if "i < length xs" for i
    using at that masked_index [OF k, of "n + i"] by (simp add: mask ring_at_def)
  ultimately show ?thesis by (auto simp: ring_contents_def intro: nth_equalityI)
qed

lemma ring_make_at:
  assumes "SpscRingBuffer_make cap = Inr q"
  shows "ring_at q 0 []" and "rb_capacity q = cap"
proof -
  have ok: "\<not> (cap < 2 \<or> cap AND (cap - 1) \<noteq> 0)"
    and q: "q = \<lparr>rb_capacity = cap, rb_mask = cap - 1, rb_slots = replicate (unat cap) None,
      rb_tail = 0, rb_head_cached = 0, rb_head = 0, rb_tail_cached = 0\<rparr>"
    using assms by (auto simp: SpscRingBuffer_make_def split: if_splits)
  obtain k where "ring_capacity cap k" using ok by (rule ring_capacityE)
  then show "ring_at q 0 []" "rb_capacity q = cap" by (auto simp: q ring_at_def)
qed

text \<open>Slot updates inside the window of indices the ring uses.\<close>

lemma window_update:
  assumes c: "0 < (c::nat)" "length sl = c" and j: "j < c"
    and at: "\<forall>i < c. sl ! ((n + i) mod c) = f i" and i: "i < c"
  shows "sl[(n + j) mod c := v] ! ((n + i) mod c) = (if i = j then v else f i)"
proof (cases "i = j")
  case True
  with c j show ?thesis by simp
next
  case False
  then have "(n + i) mod c \<noteq> (n + j) mod c"
    using mod_eq_window [of "n + i" c "n + j" n] i j by auto
  with at i False show ?thesis by simp
qed

lemma emplace_at:
  assumes at: "ring_at q n xs"
  shows "\<exists>q'. emplace x q = Some (length xs < ring_bound q, q') \<and> rb_capacity q' = rb_capacity q \<and>
    ring_at q' n (if length xs < ring_bound q then xs @ [x] else xs)"
proof -
  let ?c = "ring_bound q" and ?t = "n + length xs"
  from at obtain k hc where k: "ring_capacity (rb_capacity q) k"
    and hc: "hc \<le> n" "rb_head_cached q = of_nat hc" "?t - hc \<le> ?c" by (auto simp: ring_at_def)
  have c: "0 < ?c" using k by (simp add: ring_capacity_def)
  have st: "rb_mask q = rb_capacity q - 1" "length xs \<le> ?c" "length (rb_slots q) = ?c"
    "rb_head q = of_nat n" "rb_tail q = of_nat ?t"
    and sl: "\<forall>i < ?c. rb_slots q ! ((n + i) mod ?c) = (if i < length xs then Some (xs ! i) else None)"
    using at by (auto simp: ring_at_def)
  have t1: "rb_capacity q \<le> rb_tail q - rb_head_cached q \<longleftrightarrow> ?t - hc = ?c"
    using full_test [OF k, of hc ?t] hc by (simp add: st)
  have t2: "rb_capacity q \<le> rb_tail q - rb_head q \<longleftrightarrow> length xs = ?c"
    using full_test [OF k, of n ?t] st by (simp add: st)
  define q1 where "q1 = (if rb_capacity q \<le> rb_tail q - rb_head_cached q
      then q\<lparr>rb_head_cached := rb_head q\<rparr> else q)"
  have q1: "ring_at q1 n xs" "rb_capacity q1 = rb_capacity q" "rb_mask q1 = rb_mask q"
    "rb_slots q1 = rb_slots q" "rb_tail q1 = rb_tail q"
    using at hc by (auto simp: q1_def ring_at_def st)
  have full: "rb_capacity q1 \<le> rb_tail q1 - rb_head_cached q1 \<longleftrightarrow> length xs = ?c"
    using t1 t2 hc st(2) by (auto simp: q1_def)
  show ?thesis
  proof (cases "length xs = ?c")
    case True
    then have "emplace x q = Some (False, q1)"
      using full unfolding emplace_def Let_def q1_def [symmetric] by (simp add: q1(5)[symmetric])
    with True q1 show ?thesis by auto
  next
    case False
    let ?i = "?t mod ?c"
    have room: "length xs < ?c" using False st(2) by simp
    have idx: "unat (rb_tail q1 AND rb_mask q1) = ?i"
      using masked_index [OF k, of ?t] by (simp add: q1 st)
    have "rb_slots q ! ?i = None" using sl room by simp
    then have con: "construct_at (rb_slots q1) ?i x = Some ((rb_slots q)[?i := Some x])"
      using c st(3) by (simp add: construct_at_def q1)
    let ?q2 = "q1\<lparr>rb_slots := (rb_slots q)[?i := Some x], rb_tail := rb_tail q1 + 1\<rparr>"
    have "emplace x q = Some (True, ?q2)"
      using full False idx con unfolding emplace_def Let_def q1_def [symmetric]
      by (simp add: q1(5)[symmetric])
    moreover have slots: "(rb_slots q)[?i := Some x] ! ((n + i) mod ?c) =
        (if i < length (xs @ [x]) then Some ((xs @ [x]) ! i) else None)" if "i < ?c" for i
      using window_update [OF c st(3) room sl that, of "Some x"] by (auto simp: nth_append less_Suc_eq)
    moreover have "ring_at ?q2 n (xs @ [x])"
    proof -
      obtain hc' where hc': "hc' \<le> n" "rb_head_cached q1 = of_nat hc'" "?t - hc' \<le> ?c"
        using q1(1) by (auto simp: ring_at_def q1(2))
      moreover have "?t - hc' \<noteq> ?c"
        using full False full_test [OF k, of hc' ?t] hc' by (simp add: q1 st)
      ultimately have "\<exists>hc \<le> n. rb_head_cached ?q2 = of_nat hc \<and> n + length (xs @ [x]) - hc \<le> ?c"
        by (intro exI [of _ hc']) auto
      moreover have "\<exists>tc \<le> n + length (xs @ [x]). n \<le> tc \<and> rb_tail_cached ?q2 = of_nat tc"
        using q1(1) by (auto simp: ring_at_def intro: le_SucI)
      moreover have "rb_tail ?q2 = of_nat (n + length (xs @ [x]))" by (simp add: q1 st)
      moreover have "rb_head q1 = of_nat n" using q1(1) by (simp add: ring_at_def)
      ultimately show ?thesis
        using slots k room st unfolding ring_at_def by (simp add: q1) blast
    qed
    ultimately show ?thesis using room q1(2) by auto
  qed
qed

lemma pop_at:
  assumes at: "ring_at q n xs"
  shows "\<exists>q'. pop q = Some (if xs = [] then None else Some (hd xs), q') \<and>
    rb_capacity q' = rb_capacity q \<and> ring_at q' (if xs = [] then n else n + 1) (tl xs)"
proof -
  let ?c = "ring_bound q" and ?t = "n + length xs"
  from at obtain k tc where k: "ring_capacity (rb_capacity q) k"
    and tc: "n \<le> tc" "tc \<le> ?t" "rb_tail_cached q = of_nat tc" by (auto simp: ring_at_def)
  have c: "0 < ?c" using k by (simp add: ring_capacity_def)
  have st: "rb_mask q = rb_capacity q - 1" "length xs \<le> ?c" "length (rb_slots q) = ?c"
    "rb_head q = of_nat n" "rb_tail q = of_nat ?t"
    and sl: "\<forall>i < ?c. rb_slots q ! ((n + i) mod ?c) = (if i < length xs then Some (xs ! i) else None)"
    using at by (auto simp: ring_at_def)
  have t1: "rb_head q = rb_tail_cached q \<longleftrightarrow> n = tc"
    using counters_eq [of n tc] tc st(2) capacity_less [OF k] by (simp add: st(4))
  have t2: "rb_head q = rb_tail q \<longleftrightarrow> xs = []"
    using counters_eq [of n ?t] st(2) capacity_less [OF k] by (simp add: st(4,5))
  define q1 where "q1 = (if rb_head q = rb_tail_cached q then q\<lparr>rb_tail_cached := rb_tail q\<rparr> else q)"
  have q1: "ring_at q1 n xs" "rb_capacity q1 = rb_capacity q" "rb_mask q1 = rb_mask q"
    "rb_slots q1 = rb_slots q" "rb_head q1 = rb_head q"
    using at tc by (auto simp: q1_def ring_at_def st)
  have none: "rb_head q1 = rb_tail_cached q1 \<longleftrightarrow> xs = []"
    using t1 t2 tc by (auto simp: q1_def)
  show ?thesis
  proof (cases xs)
    case Nil
    then have "pop q = Some (None, q1)"
      using none unfolding pop_def Let_def q1_def [symmetric] by (simp add: q1(5)[symmetric])
    with Nil q1 show ?thesis by auto
  next
    case (Cons x ys)
    let ?i = "n mod ?c"
    have room: "0 < ?c" using c .
    have idx: "unat (rb_head q1 AND rb_mask q1) = ?i"
      using masked_index [OF k, of n] by (simp add: q1 st)
    have "rb_slots q ! ?i = Some x" using sl [rule_format, of 0] room Cons by simp
    then have tk: "take_from (rb_slots q1) ?i = Some (x, (rb_slots q)[?i := None])"
      using c st(3) by (simp add: take_from_def q1)
    let ?q2 = "q1\<lparr>rb_slots := (rb_slots q)[?i := None], rb_head := rb_head q1 + 1\<rparr>"
    have "pop q = Some (Some x, ?q2)"
      using none Cons idx tk unfolding pop_def Let_def q1_def [symmetric]
      by (simp add: q1(5)[symmetric])
    moreover have "ring_at ?q2 (n + 1) ys"
    proof -
      have slots: "(rb_slots q)[?i := None] ! ((n + 1 + i) mod ?c) = (if i < length ys then Some (ys ! i) else None)"
        if "i < ?c" for i
      proof (cases "i + 1 < ?c")
        case True
        then show ?thesis
          using window_update [OF c st(3) room sl True, of None] Cons by (simp add: add.assoc)
      next
        case False
        then have "i = ?c - 1" "n + 1 + i = n + ?c" using that by auto
        then show ?thesis using st Cons c by auto
      qed
      obtain hc where "hc \<le> n" "rb_head_cached q1 = of_nat hc" "?t - hc \<le> ?c"
        using q1(1) by (auto simp: ring_at_def q1(2))
      then have "\<exists>hc \<le> n + 1. rb_head_cached ?q2 = of_nat hc \<and> n + 1 + length ys - hc \<le> ?c"
        using Cons by (intro exI [of _ hc]) auto
      moreover have "\<exists>tc \<le> n + 1 + length ys. n + 1 \<le> tc \<and> rb_tail_cached ?q2 = of_nat tc"
      proof -
        obtain tc' where tc': "n \<le> tc'" "tc' \<le> ?t" "rb_tail_cached q1 = of_nat tc'"
          using q1(1) by (auto simp: ring_at_def)
        with none Cons have "tc' \<noteq> n" by (auto simp: q1 st)
        with tc' Cons show ?thesis by (intro exI [of _ tc']) auto
      qed
      moreover have "rb_head ?q2 = of_nat (n + 1)" by (simp add: q1 st)
      moreover have "rb_tail q1 = of_nat (n + 1 + length ys)" using q1(1) Cons by (simp add: ring_at_def)
      ultimately show ?thesis
        using slots k Cons st unfolding ring_at_def by (simp add: q1) blast
    qed
    ultimately show ?thesis using Cons q1(2) by auto
  qed
qed

lemma ring_inv_contents: "ring_inv q \<Longrightarrow> \<exists>n. ring_at q n (ring_contents q)"
  by (auto simp: ring_inv_def dest: ring_contents_at)

interpretation ring: bounded_queue emplace pop ring_inv ring_contents ring_bound
proof
  fix q :: "'a SpscRingBuffer" and x
  assume "ring_inv q"
  then obtain n where at: "ring_at q n (ring_contents q)" using ring_inv_contents by blast
  show "\<exists>q'. emplace x q = Some (length (ring_contents q) < ring_bound q, q') \<and> ring_inv q' \<and>
      ring_bound q' = ring_bound q \<and> ring_contents q' =
        (if length (ring_contents q) < ring_bound q then ring_contents q @ [x] else ring_contents q)"
    using emplace_at [OF at, of x] ring_contents_at by (fastforce simp: ring_inv_def)
  show "\<exists>q'. pop q = Some (if ring_contents q = [] then None else Some (hd (ring_contents q)), q') \<and>
      ring_inv q' \<and> ring_bound q' = ring_bound q \<and> ring_contents q' = tl (ring_contents q)"
    using pop_at [OF at] ring_contents_at by (fastforce simp: ring_inv_def)
  show "length (ring_contents q) \<le> ring_bound q" using at by (simp add: ring_at_def)
qed

lemma ring_make:
  assumes "SpscRingBuffer_make cap = Inr q"
  shows "ring_inv q" "ring_contents q = []" "ring_bound q = unat cap"
  using ring_make_at [OF assms] by (auto simp: ring_inv_def dest: ring_contents_at)

text \<open>The destructor finds a live element in every slot it destroys and leaves none alive.\<close>

lemma destroy_from_window:
  assumes "ring_capacity (rb_capacity q) k" "rb_mask q = rb_capacity q - 1"
    "rb_tail q = of_nat (n + m)" "m \<le> ring_bound q" "length sl = ring_bound q"
    "\<forall>i < ring_bound q. sl ! ((n + i) mod ring_bound q) = (if i < m then Some (f i) else None)"
  shows "destroy_from q (of_nat n) sl = Some (replicate (ring_bound q) None)"
  using assms
proof (induction m arbitrary: n sl f)
  case 0
  let ?c = "ring_bound q"
  have c: "0 < ?c" using 0 by (simp add: ring_capacity_def)
  have "sl ! j = None" if "j < ?c" for j
  proof -
    let ?i = "(j + (?c - n mod ?c)) mod ?c"
    have "(n + ?i) mod ?c = (n mod ?c + (j + (?c - n mod ?c))) mod ?c"
      by (metis mod_add_left_eq mod_add_right_eq)
    also have "n mod ?c + (j + (?c - n mod ?c)) = j + ?c"
      using c mod_less_divisor [of ?c n] by linarith
    finally have "(n + ?i) mod ?c = j" using that by simp
    then show ?thesis using 0(6) c by (metis mod_less_divisor not_less_zero)
  qed
  then have "sl = replicate ?c None" using 0(5) by (auto intro: nth_equalityI)
  then show ?case using 0 by (subst destroy_from.simps) simp
next
  case (Suc m)
  let ?c = "ring_bound q"
  have c: "0 < ?c" using Suc.prems by (simp add: ring_capacity_def)
  have "(of_nat n :: u64) \<noteq> of_nat (n + Suc m)"
    using counters_eq [of n "n + Suc m"] Suc.prems capacity_less [OF Suc.prems(1)] by simp
  moreover have idx: "unat (of_nat n AND rb_mask q) = n mod ?c"
    using masked_index [OF Suc.prems(1)] Suc.prems by simp
  moreover have "take_from sl (n mod ?c) = Some (f 0, sl[n mod ?c := None])"
    using Suc.prems(5,6) c by (auto simp: take_from_def split: option.splits dest: spec [of _ 0])
  moreover have "destroy_from q (of_nat (n + 1)) (sl[n mod ?c := None]) = Some (replicate ?c None)"
  proof (rule Suc.IH [where f = "\<lambda>i. f (i + 1)"])
    show "\<forall>i < ?c. sl[n mod ?c := None] ! ((n + 1 + i) mod ?c) = (if i < m then Some (f (i + 1)) else None)"
    proof (intro allI impI)
      fix i assume i: "i < ?c"
      show "sl[n mod ?c := None] ! ((n + 1 + i) mod ?c) = (if i < m then Some (f (i + 1)) else None)"
      proof (cases "i + 1 < ?c")
        case True
        then show ?thesis
          using window_update [OF c Suc.prems(5) c Suc.prems(6) True, of None] by (simp add: add.assoc)
      next
        case False
        then have wrap: "n + 1 + i = n + ?c" and "\<not> i < m" using i Suc.prems(4) by auto
        then show ?thesis using Suc.prems(5) c unfolding wrap by simp
      qed
    qed
  qed (use Suc.prems in auto)
  ultimately show ?case
    using Suc.prems(3) by (subst destroy_from.simps) (simp add: ac_simps)
qed

lemma destroy_all: "ring_at q n xs \<Longrightarrow>
    destroy_from q (rb_head q) (rb_slots q) = Some (replicate (ring_bound q) None)"
  using destroy_from_window [of q _ n "length xs" "rb_slots q" "\<lambda>i. xs ! i"]
  by (auto simp: ring_at_def)

end
