(* ===== verification/Serializer.thy ===== *)
theory Serializer
  imports CoreTypes
begin

text \<open>
  \<open>ingest/serializer.hpp\<close>: the wire format of exported batches. A batch is a 16-byte header and the
  24-byte images of its samples, protected by CRC-32C. The CPU is a parameter (\<open>Cpu\<close>): whether it
  has SSE4.2 and its two CRC instructions, whose documented behaviour is \<open>sse42_documented\<close>. The
  last section shows what the checksum promises: the table, the instruction path and the
  bit-by-bit definition agree, and no change within four consecutive bytes goes unnoticed.
\<close>

section \<open>Data\<close>

record TelemetrySample =
  timestamp_ms :: u64
  t_value :: double
  tag_id :: u32
  quality :: u8
  reserved :: "u8 \<times> u8 \<times> u8"

record BatchHeader =
  magic :: u32
  version :: u16
  flags :: u16
  count :: u32
  payload_crc32c :: u32

datatype DecodeStatus = DS_ok | DS_too_short | DS_bad_magic | DS_unsupported_version | DS_truncated
  | DS_crc_mismatch | DS_misaligned

text \<open>The in-memory layout of the two structs on a little-endian host.\<close>

definition sample_image :: "TelemetrySample \<Rightarrow> u8 list" where
  "sample_image s = le_bytes 8 (timestamp_ms s) @ le_bytes 8 (t_value s) @ le_bytes 4 (tag_id s) @
     [quality s, fst (reserved s), fst (snd (reserved s)), snd (snd (reserved s))]"

definition sample_of :: "u8 list \<Rightarrow> TelemetrySample" where
  "sample_of bs = \<lparr>timestamp_ms = of_le (take 8 bs), t_value = of_le (take 8 (drop 8 bs)),
     tag_id = of_le (take 4 (drop 16 bs)), quality = bs ! 20, reserved = (bs ! 21, bs ! 22, bs ! 23)\<rparr>"

definition header_image :: "BatchHeader \<Rightarrow> u8 list" where
  "header_image h = le_bytes 4 (magic h) @ le_bytes 2 (version h) @ le_bytes 2 (flags h) @
     le_bytes 4 (count h) @ le_bytes 4 (payload_crc32c h)"

definition header_of :: "u8 list \<Rightarrow> BatchHeader" where
  "header_of bs = \<lparr>magic = of_le (take 4 bs), version = of_le (take 2 (drop 4 bs)),
     flags = of_le (take 2 (drop 6 bs)), count = of_le (take 4 (drop 8 bs)),
     payload_crc32c = of_le (take 4 (drop 12 bs))\<rparr>"

definition payload_image :: "TelemetrySample list \<Rightarrow> u8 list" where
  "payload_image ss = concat (map sample_image ss)"

fun samples_of :: "nat \<Rightarrow> u8 list \<Rightarrow> TelemetrySample list" where
  "samples_of 0 bs = []"
| "samples_of (Suc n) bs = sample_of (take 24 bs) # samples_of n (drop 24 bs)"

section \<open>CRC-32C\<close>

definition kCrc32cPolynomial :: u32 where "kCrc32cPolynomial = 0x82F63B78"

text \<open>One turn of the inner loop of \<open>make_crc32c_table\<close>.\<close>

definition crc_shift :: "u32 \<Rightarrow> u32" where
  "crc_shift crc = (if crc AND 1 \<noteq> 0 then drop_bit 1 crc XOR kCrc32cPolynomial else drop_bit 1 crc)"

definition make_crc32c_table :: "u32 list" where
  "make_crc32c_table = map (\<lambda>i. (crc_shift ^^ 8) (of_nat i)) [0..<256]"

definition kCrc32cTable :: "u32 list" where "kCrc32cTable = make_crc32c_table"

definition crc_table_step :: "u32 \<Rightarrow> u8 \<Rightarrow> u32" where
  "crc_table_step crc b = kCrc32cTable ! unat ((crc XOR ucast b) AND 0xFF) XOR drop_bit 8 crc"

definition crc32c_software :: "u8 list \<Rightarrow> u32" where
  "crc32c_software bs = foldl crc_table_step 0xFFFFFFFF bs XOR 0xFFFFFFFF"

text \<open>The machine: the CPUID answer and the SSE4.2 instructions.\<close>

record Cpu =
  has_sse42 :: bool
  mm_crc32_u8 :: "u32 \<Rightarrow> u8 \<Rightarrow> u32"
  mm_crc32_u64 :: "u64 \<Rightarrow> u64 \<Rightarrow> u64"

text \<open>The loop over 8-byte chunks and the loop over the bytes left, on the remaining input.\<close>

fun sse42_chunks :: "Cpu \<Rightarrow> u64 \<Rightarrow> u8 list \<Rightarrow> u64 \<times> u8 list" where
  "sse42_chunks cpu crc bs =
     (if 8 \<le> length bs then sse42_chunks cpu (mm_crc32_u64 cpu crc (of_le (take 8 bs))) (drop 8 bs)
      else (crc, bs))"

declare sse42_chunks.simps [simp del]

definition crc32c_sse42 :: "Cpu \<Rightarrow> u8 list \<Rightarrow> u32" where
  "crc32c_sse42 cpu bs =
     (let (crc, rest) = sse42_chunks cpu 0xFFFFFFFF bs
      in foldl (mm_crc32_u8 cpu) (ucast crc) rest XOR 0xFFFFFFFF)"

definition crc32c :: "Cpu \<Rightarrow> u8 list \<Rightarrow> u32" where
  "crc32c cpu bs = (if has_sse42 cpu then crc32c_sse42 cpu bs else crc32c_software bs)"

definition hardware_crc_available :: "Cpu \<Rightarrow> bool" where
  "hardware_crc_available cpu = has_sse42 cpu"

section \<open>The codec\<close>

definition kMagic :: u32 where "kMagic = 0x434C5041"
definition kVersion :: u16 where "kVersion = 2"

definition required_buffer_size :: "nat \<Rightarrow> nat" where
  "required_buffer_size n = 16 + n * 24"

definition batch_header :: "Cpu \<Rightarrow> TelemetrySample list \<Rightarrow> BatchHeader" where
  "batch_header cpu samples = \<lparr>magic = kMagic, version = kVersion, flags = 0,
     count = of_nat (length samples), payload_crc32c = crc32c cpu (payload_image samples)\<rparr>"

text \<open>\<open>serialize(samples, out)\<close>: the bytes written and the buffer afterwards.\<close>

definition serialize :: "Cpu \<Rightarrow> TelemetrySample list \<Rightarrow> u8 list \<Rightarrow> nat \<times> u8 list" where
  "serialize cpu samples out =
     (let total = required_buffer_size (length samples)
      in if length out < total \<or> 0xFFFFFFFF < length samples then (0, out)
         else (total, header_image (batch_header cpu samples) @ payload_image samples @ drop total out))"

definition serialize_alloc :: "Cpu \<Rightarrow> TelemetrySample list \<Rightarrow> u8 list" where
  "serialize_alloc cpu samples =
     snd (serialize cpu samples (replicate (required_buffer_size (length samples)) 0))"

text \<open>\<open>peek\<close> writes its two output arguments only on the paths that get there.\<close>

definition peek :: "u8 list \<Rightarrow> BatchHeader \<Rightarrow> nat \<Rightarrow> DecodeStatus \<times> BatchHeader \<times> nat" where
  "peek data header batch_bytes =
     (if length data < 16 then (DS_too_short, header, batch_bytes)
      else let header = header_of (take 16 data) in
        if magic header \<noteq> kMagic then (DS_bad_magic, header, batch_bytes)
        else if version header \<noteq> kVersion then (DS_unsupported_version, header, batch_bytes)
        else let batch_bytes = required_buffer_size (unat (count header))
             in (if length data < batch_bytes then DS_truncated else DS_ok, header, batch_bytes))"

definition zero_header :: BatchHeader where
  "zero_header = \<lparr>magic = 0, version = 0, flags = 0, count = 0, payload_crc32c = 0\<rparr>"

text \<open>\<open>decode_view\<close> on data at address \<open>addr\<close>: \<open>None\<close> leaves the caller's span untouched.\<close>

definition decode_view :: "Cpu \<Rightarrow> nat \<Rightarrow> u8 list \<Rightarrow> DecodeStatus \<times> TelemetrySample list option" where
  "decode_view cpu addr data =
     (let (status, header, batch_bytes) = peek data zero_header 0
      in if status \<noteq> DS_ok then (status, None)
         else let payload = take (batch_bytes - 16) (drop 16 data)
              in if crc32c cpu payload \<noteq> payload_crc32c header then (DS_crc_mismatch, None)
                 else if (addr + 16) mod 8 \<noteq> 0 then (DS_misaligned, None)
                 else (DS_ok, Some (samples_of (unat (count header)) payload)))"

definition decode_copy ::
  "Cpu \<Rightarrow> u8 list \<Rightarrow> TelemetrySample list \<Rightarrow> DecodeStatus \<times> TelemetrySample list" where
  "decode_copy cpu data out =
     (let (status, header, batch_bytes) = peek data zero_header 0
      in if status \<noteq> DS_ok then (status, out)
         else let payload = take (batch_bytes - 16) (drop 16 data)
              in if crc32c cpu payload \<noteq> payload_crc32c header then (DS_crc_mismatch, out)
                 else (DS_ok, out @ samples_of (unat (count header)) payload))"

section \<open>Images\<close>

lemma length_sample_image [image_simps, simp]: "length (sample_image s) = 24"
  by (simp add: sample_image_def)

lemma length_header_image [image_simps, simp]: "length (header_image h) = 16"
  by (simp add: header_image_def)

lemma length_payload_image [image_simps, simp]: "length (payload_image ss) = 24 * length ss"
  by (simp add: payload_image_def length_concat_map_const)

lemma payload_image_simps [simp]:
  "payload_image [] = []"
  "payload_image (s # ss) = sample_image s @ payload_image ss"
  "payload_image (xs @ ys) = payload_image xs @ payload_image ys"
  by (simp_all add: payload_image_def)

lemma sample_of_image [image_simps, simp]: "sample_of (sample_image s) = s"
  by (cases s) (simp add: sample_of_def sample_image_def of_le_le_bytes nth_append)

lemma sample_image_of [image_simps]:
  assumes "length bs = 24"
  shows "sample_image (sample_of bs) = bs"
proof -
  have split: "bs = take 8 bs @ take 8 (drop 8 bs) @ take 4 (drop 16 bs) @ drop 20 bs"
    by (simp add: take_drop_append [of 20 16 4] take_drop_append [of 16 8 8])
  have "drop 20 bs = [bs ! 20, bs ! 21, bs ! 22, bs ! 23]"
    using assms by (simp add: list_eq_iff_nth_eq less_Suc_eq numeral_eq_Suc nth_Cons')
  then show ?thesis
    using assms split le_bytes_of_le [of "take 8 bs", where 'a = 64]
      le_bytes_of_le [of "take 8 (drop 8 bs)", where 'a = 64]
      le_bytes_of_le [of "take 4 (drop 16 bs)", where 'a = 32]
    by (simp add: sample_image_def sample_of_def)
qed

lemma header_of_image [image_simps, simp]: "header_of (header_image h) = h"
  by (cases h) (simp add: header_of_def header_image_def of_le_le_bytes)

lemma header_image_of [image_simps]:
  assumes "length bs = 16"
  shows "header_image (header_of bs) = bs"
proof -
  have "bs = take 4 bs @ take 2 (drop 4 bs) @ take 2 (drop 6 bs) @ take 4 (drop 8 bs) @ drop 12 bs"
    by (simp add: take_drop_append [of 12 8 4] take_drop_append [of 8 6 2] take_drop_append [of 6 4 2])
  then show ?thesis
    using assms le_bytes_of_le [of "take 4 bs", where 'a = 32]
      le_bytes_of_le [of "take 2 (drop 4 bs)", where 'a = 16]
      le_bytes_of_le [of "take 2 (drop 6 bs)", where 'a = 16]
      le_bytes_of_le [of "take 4 (drop 8 bs)", where 'a = 32]
      le_bytes_of_le [of "drop 12 bs", where 'a = 32]
    by (simp add: header_image_def header_of_def)
qed

lemma samples_of_payload [image_simps, simp]:
  "samples_of (length ss) (payload_image ss @ rest) = ss"
  by (induction ss) auto

lemma length_samples_of [simp]: "length (samples_of n bs) = n"
  by (induction n arbitrary: bs) auto

lemma payload_image_samples_of [image_simps]:
  "length bs = 24 * n \<Longrightarrow> payload_image (samples_of n bs) = bs"
  by (induction n arbitrary: bs) (auto simp: sample_image_of)

section \<open>What the checksum computes\<close>

text \<open>The definition of CRC-32C, one bit at a time: XOR the byte into the register and shift eight
  times. The documented behaviour of the instructions: \<open>CRC32 r32, r/m8\<close> folds one byte into the
  register, \<open>CRC32 r64, r/m64\<close> the eight bytes of its operand, least significant first, with the
  upper half of the result zero.\<close>

definition crc_byte :: "u32 \<Rightarrow> u8 \<Rightarrow> u32" where
  "crc_byte c b = (crc_shift ^^ 8) (c XOR ucast b)"

definition crc32c_spec :: "u8 list \<Rightarrow> u32" where
  "crc32c_spec bs = foldl crc_byte 0xFFFFFFFF bs XOR 0xFFFFFFFF"

definition sse42_documented :: "Cpu \<Rightarrow> bool" where
  "sse42_documented cpu \<longleftrightarrow> (has_sse42 cpu \<longrightarrow>
     (\<forall>c b. mm_crc32_u8 cpu c b = crc_byte c b) \<and>
     (\<forall>c w. mm_crc32_u64 cpu c w = ucast (foldl crc_byte (ucast c) (le_bytes 8 w))))"

lemma crc_shift_bit: "n < 32 \<Longrightarrow>
    bit (crc_shift c) n \<longleftrightarrow> bit c (Suc n) \<noteq> (bit c 0 \<and> bit kCrc32cPolynomial n)"
proof -
  have "c AND 1 \<noteq> 0 \<longleftrightarrow> bit c 0" by (auto simp: and_one_eq bit_0 even_iff_mod_2_eq_zero)
  then show ?thesis by (auto simp: crc_shift_def bit_xor_iff bit_drop_bit_eq)
qed

lemma crc_shift_xor: "crc_shift (x XOR y) = crc_shift x XOR crc_shift y"
  by (rule bit_word_eqI) (auto simp: crc_shift_bit bit_xor_iff)

lemma crc_shift_pow_xor: "(crc_shift ^^ n) (x XOR y) = (crc_shift ^^ n) x XOR (crc_shift ^^ n) y"
  by (induction n) (simp_all add: crc_shift_xor)

lemma crc_shift_even: "\<not> bit c 0 \<Longrightarrow> crc_shift c = drop_bit 1 c"
  by (rule bit_word_eqI) (auto simp: crc_shift_bit bit_drop_bit_eq)

lemma crc_shift_pow_high:
  "(\<forall>i < n. \<not> bit c i) \<Longrightarrow> (crc_shift ^^ n) c = drop_bit n c"
proof (induction n arbitrary: c)
  case (Suc n)
  have "\<forall>i < n. \<not> bit (drop_bit 1 c) i" using Suc.prems by (auto simp: bit_drop_bit_eq)
  then show ?case using Suc.IH [of "drop_bit 1 c"] Suc.prems
    by (simp add: funpow_swap1 crc_shift_even del: funpow.simps) (simp add: funpow_swap1 crc_shift_even)
qed simp

text \<open>The top bit of the polynomial is set, so a shift loses nothing.\<close>

lemma crc_shift_zero: "crc_shift c = 0 \<Longrightarrow> c = 0"
proof -
  assume z: "crc_shift c = 0"
  have "\<not> bit (crc_shift c) 31" by (simp add: z)
  then have b0: "\<not> bit c 0"
    using bit_imp_le_length [of c 32] by (auto simp: crc_shift_bit kCrc32cPolynomial_def)
  have "\<not> bit c n" for n
    using b0 crc_shift_bit [of "n - 1" c] bit_imp_le_length [of c n] z
    by (cases n) (auto simp: kCrc32cPolynomial_def)
  then show "c = 0" by (intro bit_word_eqI) simp
qed

lemma crc_shift_pow_zero: "(crc_shift ^^ n) c = 0 \<Longrightarrow> c = 0"
  by (induction n) (auto dest: crc_shift_zero)

lemma crc_shift_pow_inject: "(crc_shift ^^ n) x = (crc_shift ^^ n) y \<longleftrightarrow> x = y"
proof
  assume "(crc_shift ^^ n) x = (crc_shift ^^ n) y"
  then have "(crc_shift ^^ n) (x XOR y) = 0" by (simp add: crc_shift_pow_xor)
  then have "x XOR y = 0" by (rule crc_shift_pow_zero)
  then have "(x XOR y) XOR y = 0 XOR y" by (rule arg_cong)
  then show "x = y" by (simp add: xor.assoc)
qed simp

lemma crc_byte_inject: "crc_byte c b = crc_byte c' b \<longleftrightarrow> c = c'"
proof -
  have "c = c'" if "c XOR ucast b = c' XOR ucast b"
    using arg_cong [OF that, of "\<lambda>x. x XOR ucast b"] by (simp add: xor.assoc)
  then show ?thesis by (auto simp: crc_byte_def crc_shift_pow_inject)
qed

lemma foldl_crc_byte_inject: "foldl crc_byte c bs = foldl crc_byte c' bs \<longleftrightarrow> c = c'"
  by (induction bs arbitrary: c c') (auto simp: crc_byte_inject)

text \<open>The table step is the byte step, and up to four bytes at once are one word.\<close>

lemma crc_table_step_byte: "crc_table_step c b = crc_byte c b"
proof -
  let ?x = "c XOR ucast b" let ?lo = "?x AND mask 8" and ?hi = "?x AND NOT (mask 8)"
  have ff: "(0xFF :: u32) = mask 8" by (simp add: mask_eq_exp_minus_1)
  have "unat ?lo < 256" 
    using take_bit_nat_less_exp [of 8 "unat ?x"]
    by (simp only: unsigned_take_bit_eq flip: take_bit_eq_mask) simp
  then have "kCrc32cTable ! unat ?lo = (crc_shift ^^ 8) ?lo"
    by (simp add: kCrc32cTable_def make_crc32c_table_def)
  moreover have "(crc_shift ^^ 8) ?hi = drop_bit 8 ?hi"
    by (intro crc_shift_pow_high) (auto simp: bit_and_iff bit_not_iff bit_mask_iff)
  moreover have "drop_bit 8 ?hi = drop_bit 8 c"
    by (rule bit_word_eqI)
      (auto simp: bit_drop_bit_eq bit_and_iff bit_not_iff bit_xor_iff bit_ucast_iff bit_mask_iff
        dest: bit_imp_le_length)
  moreover have "?lo XOR ?hi = ?x"
    by (rule bit_word_eqI) (auto simp: bit_and_iff bit_not_iff bit_xor_iff)
  ultimately show ?thesis
    using crc_shift_pow_xor [of 8 ?lo ?hi] by (simp add: crc_table_step_def crc_byte_def ff)
qed

lemma crc32c_software_spec: "crc32c_software bs = crc32c_spec bs"
proof -
  have "foldl crc_table_step c bs = foldl crc_byte c bs" for c
    by (induction bs arbitrary: c) (simp_all add: crc_table_step_byte)
  then show ?thesis by (simp add: crc32c_software_def crc32c_spec_def)
qed

lemma foldl_crc_byte_word:
  "length bs \<le> 4 \<Longrightarrow> foldl crc_byte c bs = (crc_shift ^^ (8 * length bs)) (c XOR of_le bs)"
proof (induction bs arbitrary: c)
  case (Cons b bs)
  let ?z = "of_le bs :: u32"
  have small: "bit ?z i \<Longrightarrow> i < 24" for i
    using Cons.prems of_le_bit [of bs i, where 'a = 32] by auto
  have "(crc_shift ^^ 8) (push_bit 8 ?z) = drop_bit 8 (push_bit 8 ?z)"
    by (intro crc_shift_pow_high) (simp add: bit_push_bit_iff)
  also have "\<dots> = ?z"
    by (rule bit_word_eqI) (auto simp: bit_drop_bit_eq bit_push_bit_iff dest: small)
  finally have "(crc_shift ^^ 8) (push_bit 8 ?z) = ?z" .
  moreover have "c XOR of_le (b # bs) = (c XOR ucast b) XOR push_bit 8 ?z"
    by (rule bit_word_eqI)
      (auto simp: bit_xor_iff bit_or_iff bit_ucast_iff bit_push_bit_iff dest: bit_imp_le_length)
  ultimately have "(crc_shift ^^ 8) (c XOR of_le (b # bs)) = crc_byte c b XOR ?z"
    by (simp only: crc_shift_pow_xor crc_byte_def)
  moreover have "8 * length (b # bs) = 8 * length bs + 8" by simp
  ultimately show ?case using Cons
    by (simp only: funpow_add o_apply) (simp del: of_le.simps funpow.simps)
qed simp

text \<open>The instruction path: eight bytes at a time, then one at a time.\<close>

lemma ucast_u32_u64 [simp]: "ucast (ucast (c :: u32) :: u64) = c"
  by (rule bit_word_eqI) (auto simp: bit_ucast_iff dest: bit_imp_le_length)

lemma sse42_chunks_spec:
  assumes "sse42_documented cpu" "has_sse42 cpu"
  shows "foldl crc_byte (ucast (fst (sse42_chunks cpu c bs))) (snd (sse42_chunks cpu c bs)) =
    foldl crc_byte (ucast c) bs"
proof (induction bs arbitrary: c rule: length_induct)
  case (1 bs)
  show ?case
  proof (cases "8 \<le> length bs")
    case True
    let ?c = "mm_crc32_u64 cpu c (of_le (take 8 bs))"
    have "le_bytes 8 (of_le (take 8 bs) :: u64) = take 8 bs"
      using le_bytes_of_le [of "take 8 bs", where 'a = 64] True by simp
    then have "?c = ucast (foldl crc_byte (ucast c) (take 8 bs))"
      using assms by (simp add: sse42_documented_def)
    then have "foldl crc_byte (ucast ?c) (drop 8 bs) = foldl crc_byte (ucast c) (take 8 bs @ drop 8 bs)"
      by (simp only: ucast_u32_u64 foldl_append)
    then show ?thesis
      using 1 True by (subst (1 2) sse42_chunks.simps) simp
  next
    case False
    then show ?thesis by (simp add: sse42_chunks.simps)
  qed
qed

lemma crc32c_spec: "sse42_documented cpu \<Longrightarrow> crc32c cpu bs = crc32c_spec bs"
proof -
  assume doc: "sse42_documented cpu"
  have "mm_crc32_u8 cpu = crc_byte" if "has_sse42 cpu"
    using doc that by (simp add: sse42_documented_def fun_eq_iff)
  then have "crc32c_sse42 cpu bs = crc32c_spec bs" if "has_sse42 cpu"
    using sse42_chunks_spec [OF doc that, where c = "0xFFFFFFFF" and bs = bs] that
    by (simp add: crc32c_sse42_def crc32c_spec_def case_prod_beta)
  then show ?thesis by (simp add: crc32c_def crc32c_software_spec)
qed

section \<open>Batches\<close>

text \<open>The batch of a list of samples, and the reader's view of a buffer that starts with one.\<close>

definition batch_image :: "TelemetrySample list \<Rightarrow> u8 list" where
  "batch_image ss = header_image \<lparr>magic = kMagic, version = kVersion, flags = 0,
     count = of_nat (length ss), payload_crc32c = crc32c_spec (payload_image ss)\<rparr> @ payload_image ss"

lemma length_batch_image [simp]: "length (batch_image ss) = required_buffer_size (length ss)"
  by (simp add: batch_image_def required_buffer_size_def)

lemma serialize_batch:
  assumes "sse42_documented cpu" "length ss \<le> 0xFFFFFFFF" "required_buffer_size (length ss) \<le> length out"
  shows "serialize cpu ss out = (length (batch_image ss), batch_image ss @ drop (length (batch_image ss)) out)"
  using assms by (simp add: serialize_def Let_def batch_image_def batch_header_def crc32c_spec
      required_buffer_size_def mult.commute)

lemma serialize_alloc_batch:
  "sse42_documented cpu \<Longrightarrow> length ss \<le> 0xFFFFFFFF \<Longrightarrow> serialize_alloc cpu ss = batch_image ss"
  by (simp add: serialize_alloc_def serialize_batch)

text \<open>What \<open>decode_copy\<close> and \<open>decode_view\<close> accept, read off the header.\<close>

definition accepts :: "u8 list \<Rightarrow> bool" where
  "accepts data \<longleftrightarrow> 16 \<le> length data \<and> magic (header_of (take 16 data)) = kMagic \<and>
     version (header_of (take 16 data)) = kVersion \<and>
     required_buffer_size (unat (count (header_of (take 16 data)))) \<le> length data \<and>
     crc32c_spec (take (24 * unat (count (header_of (take 16 data)))) (drop 16 data)) =
       payload_crc32c (header_of (take 16 data))"

lemma decode_copy_accepts:
  assumes "sse42_documented cpu"
  shows "decode_copy cpu data out =
    (if accepts data
     then (DS_ok, out @ samples_of (unat (count (header_of (take 16 data))))
            (take (24 * unat (count (header_of (take 16 data)))) (drop 16 data)))
     else (fst (decode_copy cpu data out), out))"
    and "fst (decode_copy cpu data out) = DS_ok \<longleftrightarrow> accepts data"
  by (auto simp: decode_copy_def peek_def Let_def accepts_def crc32c_spec [OF assms]
      required_buffer_size_def mult.commute)

lemma header_batch_image:
  "header_of (take 16 (batch_image ss @ rest)) = \<lparr>magic = kMagic, version = kVersion, flags = 0,
     count = of_nat (length ss), payload_crc32c = crc32c_spec (payload_image ss)\<rparr>"
  by (simp add: batch_image_def)

lemma unat_count: "length ss \<le> 0xFFFFFFFF \<Longrightarrow> unat (of_nat (length ss) :: u32) = length ss"
  by (intro unat_of_nat_less) simp

lemma accepts_batch_image: "length ss \<le> 0xFFFFFFFF \<Longrightarrow> accepts (batch_image ss @ rest)"
  unfolding accepts_def header_batch_image
  by (simp add: unat_count required_buffer_size_def batch_image_def)

lemma decode_copy_batch:
  assumes "sse42_documented cpu" "length ss \<le> 0xFFFFFFFF"
  shows "decode_copy cpu (batch_image ss @ rest) out = (DS_ok, out @ ss)"
proof -
  have "decode_copy cpu (batch_image ss @ rest) out = (DS_ok, out @ samples_of (length ss)
      (take (24 * length ss) (drop 16 (batch_image ss @ rest))))"
    using decode_copy_accepts(1) [OF assms(1), of "batch_image ss @ rest" out]
      accepts_batch_image [OF assms(2), of rest]
    unfolding header_batch_image by (simp add: unat_count [OF assms(2)])
  then show ?thesis
    using samples_of_payload [of ss "[]"] by (simp add: batch_image_def)
qed

lemma accepts_imp_batch:
  assumes "accepts data" "flags (header_of (take 16 data)) = 0"
  shows "\<exists>ss. length ss = unat (count (header_of (take 16 data))) \<and>
    data = batch_image ss @ drop (length (batch_image ss)) data"
proof -
  let ?h = "header_of (take 16 data)"
  let ?n = "unat (count ?h)"
  let ?p = "take (24 * ?n) (drop 16 data)"
  let ?ss = "samples_of ?n ?p"
  have len: "length ?p = 24 * ?n" using assms(1) by (auto simp: accepts_def required_buffer_size_def min_def)
  then have p: "payload_image ?ss = ?p" by (rule payload_image_samples_of)
  have "?h = \<lparr>magic = kMagic, version = kVersion, flags = 0, count = of_nat (length ?ss),
      payload_crc32c = crc32c_spec (payload_image ?ss)\<rparr>"
    using assms unfolding p by (cases ?h) (simp add: accepts_def)
  then have "batch_image ?ss = header_image ?h @ ?p"
    by (simp only: batch_image_def p)
  also have "header_image ?h = take 16 data"
    using assms(1) by (intro header_image_of) (simp add: accepts_def)
  finally have "batch_image ?ss = take (16 + 24 * ?n) data"
    by (simp add: take_add)
  moreover have "length (batch_image ?ss) = 16 + 24 * ?n" by (simp add: required_buffer_size_def)
  ultimately have "data = batch_image ?ss @ drop (length (batch_image ?ss)) data"
    by (metis append_take_drop_id)
  then show ?thesis by (intro exI [of _ ?ss]) simp
qed

text \<open>A cut batch is recognised before its samples are looked at.\<close>

lemma peek_prefix:
  assumes "length ss \<le> 0xFFFFFFFF" "n < length (batch_image ss)"
  shows "fst (peek (take n (batch_image ss)) h b) = (if n < 16 then DS_too_short else DS_truncated)"
proof (cases "n < 16")
  case True
  then have "length (take n (batch_image ss)) < 16" by simp
  with True show ?thesis by (simp add: peek_def)
next
  case False
  then have "take 16 (take n (batch_image ss)) = take 16 (batch_image ss @ [])"
    by (simp add: min_def)
  then have "header_of (take 16 (take n (batch_image ss))) = \<lparr>magic = kMagic, version = kVersion,
      flags = 0, count = of_nat (length ss), payload_crc32c = crc32c_spec (payload_image ss)\<rparr>"
    using header_batch_image [of ss "[]"] by simp
  then show ?thesis
    using False assms by (simp add: peek_def Let_def unat_count)
qed

text \<open>Damage within four consecutive payload bytes changes the checksum.\<close>

lemma crc32c_burst:
  assumes "length x = length y" "length x \<le> 4" "x \<noteq> y"
  shows "crc32c_spec (a @ x @ b) \<noteq> crc32c_spec (a @ y @ b)"
proof
  assume eq: "crc32c_spec (a @ x @ b) = crc32c_spec (a @ y @ b)"
  let ?c = "foldl crc_byte 0xFFFFFFFF a"
  have "foldl crc_byte 0xFFFFFFFF (a @ x @ b) = foldl crc_byte 0xFFFFFFFF (a @ y @ b)"
    using arg_cong [OF eq, of "\<lambda>v. v XOR 0xFFFFFFFF"] by (simp add: crc32c_spec_def xor.assoc)
  then have "foldl crc_byte ?c x = foldl crc_byte ?c y"
    by (simp add: foldl_crc_byte_inject)
  then have "?c XOR of_le x = ?c XOR of_le y"
    using assms by (simp add: foldl_crc_byte_word crc_shift_pow_inject)
  from arg_cong [OF this, of "\<lambda>v. ?c XOR v"] have "of_le x = (of_le y :: u32)"
    by (simp flip: xor.assoc)
  then have "le_bytes (length x) (of_le x :: u32) = le_bytes (length y) (of_le y :: u32)"
    using assms(1) by simp
  moreover have "le_bytes (length x) (of_le x :: u32) = x" "le_bytes (length y) (of_le y :: u32) = y"
    using assms by (intro le_bytes_of_le; simp)+
  ultimately show False using assms(3) by simp
qed

section \<open>Properties\<close>

text \<open>Machines for the witnesses: one without SSE4.2, one whose instructions do what they are
  documented to do.\<close>

definition old_cpu :: Cpu where
  "old_cpu = \<lparr>has_sse42 = False, mm_crc32_u8 = \<lambda>c b. c, mm_crc32_u64 = \<lambda>c w. c\<rparr>"

definition new_cpu :: Cpu where
  "new_cpu = \<lparr>has_sse42 = True, mm_crc32_u8 = crc_byte,
     mm_crc32_u64 = \<lambda>c w. ucast (foldl crc_byte (ucast c) (le_bytes 8 w))\<rparr>"

lemma documented_cpus: "sse42_documented old_cpu" "sse42_documented new_cpu"
  by (simp_all add: sse42_documented_def old_cpu_def new_cpu_def)



text \<open>C17. Batches round-trip between machines: \<open>serialize\<close> into a large enough buffer, whatever
  follows in it, is decoded by \<open>decode_copy\<close> at any alignment and by \<open>decode_view\<close> at an 8-byte
  aligned address to exactly the samples written; into a buffer that is too small nothing is
  written.\<close>

theorem serialize_decode_roundtrip:
  assumes "sse42_documented writer" "sse42_documented reader" "length ss \<le> 0xFFFFFFFF"
  shows "if length out < required_buffer_size (length ss) then serialize writer ss out = (0, out)
    else let (n, buffer) = serialize writer ss out in
      n = required_buffer_size (length ss) \<and> drop n buffer = drop n out \<and>
      decode_copy reader buffer acc = (DS_ok, acc @ ss) \<and>
      (addr mod 8 = 0 \<longrightarrow> decode_view reader addr buffer = (DS_ok, Some ss)) \<and>
      (addr mod 8 \<noteq> 0 \<longrightarrow> decode_view reader addr buffer = (DS_misaligned, None))"
proof (cases "length out < required_buffer_size (length ss)")
  case True
  then show ?thesis by (simp add: serialize_def)
next
  case False
  obtain rest where rest: "rest = drop (length (batch_image ss)) out" by simp
  have ser: "serialize writer ss out = (length (batch_image ss), batch_image ss @ rest)"
    using False assms unfolding rest by (intro serialize_batch) simp_all
  have copy: "decode_copy reader (batch_image ss @ rest) acc = (DS_ok, acc @ ss)" for acc
    using assms by (intro decode_copy_batch)
  have align: "(addr + 16) mod 8 = addr mod 8"
    using mod_mult_self2 [of addr 8 2] by simp
  have "decode_view reader addr d = (if fst (decode_copy reader d []) \<noteq> DS_ok
      then (fst (decode_copy reader d []), None)
      else if addr mod 8 \<noteq> 0 then (DS_misaligned, None) else (DS_ok, Some (snd (decode_copy reader d []))))"
    for d
    unfolding decode_view_def decode_copy_def Let_def align by (auto split: prod.splits)
  then have "decode_view reader addr (batch_image ss @ rest) =
      (if addr mod 8 \<noteq> 0 then (DS_misaligned, None) else (DS_ok, Some ss))"
    by (simp add: copy)
  moreover have "drop (required_buffer_size (length ss)) out = rest" by (simp add: rest)
  ultimately show ?thesis using False by (simp add: ser copy)
qed

theorem serialize_decode_roundtrip_witness:
  "decode_copy old_cpu (snd (serialize new_cpu [sample_of (replicate 24 7)] (replicate 50 0))) [] =
     (DS_ok, [sample_of (replicate 24 7)])"
  using serialize_decode_roundtrip [OF documented_cpus(2,1), of "[sample_of (replicate 24 7)]"
      "replicate 50 0" "[]" 0]
  by (simp add: required_buffer_size_def split: prod.splits)

text \<open>A batch that is cut short anywhere is reported as cut short and delivers no sample.\<close>

theorem decode_truncated_batch:
  assumes "sse42_documented cpu" "length ss \<le> 0xFFFFFFFF" "n < required_buffer_size (length ss)"
  shows "decode_copy reader (take n (serialize_alloc cpu ss)) out =
    (if n < 16 then DS_too_short else DS_truncated, out)"
proof -
  have "fst (peek (take n (batch_image ss)) zero_header 0) = (if n < 16 then DS_too_short else DS_truncated)"
    using assms by (intro peek_prefix) simp_all
  then show ?thesis
    using assms by (auto simp: serialize_alloc_batch decode_copy_def split: prod.splits)
qed

theorem decode_truncated_batch_witness:
  "decode_copy old_cpu (take 20 (serialize_alloc new_cpu [sample_of (replicate 24 7)])) [] =
     (DS_truncated, [])"
  using decode_truncated_batch [OF documented_cpus(2), of "[sample_of (replicate 24 7)]" 20 old_cpu "[]"]
  by (simp add: required_buffer_size_def)

text \<open>C18. Damage to the samples is never accepted when it lies within four consecutive bytes: a
  stored batch with any such change in its payload is reported as a checksum mismatch, and nothing
  is appended.\<close>

theorem decode_detects_burst:
  assumes "sse42_documented writer" "sse42_documented reader" "length ss \<le> 0xFFFFFFFF"
    and "payload_image ss = a @ x @ b" "length y = length x" "length x \<le> 4" "y \<noteq> x"
  shows "decode_copy reader (take 16 (serialize_alloc writer ss) @ a @ y @ b) out = (DS_crc_mismatch, out)"
proof -
  let ?d = "take 16 (batch_image ss) @ a @ y @ b"
  have len: "length (a @ y @ b) = 24 * length ss"
    using arg_cong [OF assms(4), of length] assms(5) by simp
  have h: "header_of (take 16 ?d) = \<lparr>magic = kMagic, version = kVersion, flags = 0,
     count = of_nat (length ss), payload_crc32c = crc32c_spec (payload_image ss)\<rparr>"
    using header_batch_image [of ss "[]"] by (simp add: required_buffer_size_def)
  have "crc32c_spec (a @ y @ b) \<noteq> crc32c_spec (payload_image ss)"
    unfolding assms(4) using assms(5-7) by (intro crc32c_burst) simp_all
  then have "decode_copy reader ?d out = (DS_crc_mismatch, out)"
    using len assms(3) unfolding decode_copy_def peek_def Let_def h
    by (simp add: unat_count required_buffer_size_def crc32c_spec [OF assms(2)])
  then show ?thesis using assms(1,3) by (simp add: serialize_alloc_batch)
qed

theorem decode_detects_burst_witness:
  "fst (decode_copy old_cpu (take 16 (serialize_alloc new_cpu [sample_of (replicate 24 7)]) @
     replicate 20 7 @ [9, 9, 9, 9]) []) = DS_crc_mismatch"
proof -
  have "payload_image [sample_of (replicate 24 7)] = replicate 20 7 @ replicate 4 7 @ []"
    using sample_image_of [of "replicate 24 7"] replicate_add [of 20 4 "7 :: u8"] by simp
  moreover have "[9, 9, 9, 9] \<noteq> replicate 4 (7 :: u8)" by (simp add: numeral_eq_Suc)
  ultimately show ?thesis
    using decode_detects_burst [OF documented_cpus(2,1), of "[sample_of (replicate 24 7)]"
        "replicate 20 7" "replicate 4 7" "[]" "[9, 9, 9, 9]" "[]"]
    by simp
qed

end
