(* ===== verification/Ingestor.thy ===== *)
theory Ingestor
  imports SpscRing Serializer
begin

text \<open>
  \<open>ingest/ingestor.cpp\<close>, \<open>ingest/metrics.hpp\<close>: the producer's \<open>submit\<close> and the consumer thread, whose
  loop is cut at the points where the producer can act: reading the stop flag, each pop, and the
  decision what to do with the batch (\<open>consumer_step\<close>). The clock and the stop flag are inputs of a
  step; the sink is a function on a world of its own that may throw. \<open>accepted\<close> and \<open>handed\<close> are
  ghost state: the samples \<open>submit\<close> took, and every batch given to the sink with its outcome.
\<close>

section \<open>Options and counters\<close>

record IngestorOptions =
  queue_capacity :: u64
  batch_size :: u64
  flush_interval :: int \<comment> \<open>milliseconds\<close>

definition default_IngestorOptions :: IngestorOptions where
  "default_IngestorOptions = \<lparr>queue_capacity = 65536, batch_size = 1000, flush_interval = 1000\<rparr>"

definition validate_options :: "IngestorOptions \<Rightarrow> string throws + unit" where
  "validate_options opts =
     (let capacity = queue_capacity opts
      in if capacity < 2 \<or> capacity AND (capacity - 1) \<noteq> 0
         then Inl (invalid_argument ''ingest: queue_capacity must be a power of two and at least 2'')
         else if batch_size opts = 0 \<or> capacity < batch_size opts
         then Inl (invalid_argument ''ingest: batch_size must be between 1 and queue_capacity'')
         else if flush_interval opts \<le> 0
         then Inl (invalid_argument ''ingest: flush_interval must be positive'')
         else Inr ())"

record Counters =
  ingested :: u64
  dropped :: u64
  batches_sent :: u64
  batches_failed :: u64

definition zero_counters :: Counters where
  "zero_counters = \<lparr>ingested = 0, dropped = 0, batches_sent = 0, batches_failed = 0\<rparr>"

definition record_ingested :: "Counters \<Rightarrow> Counters" where
  "record_ingested c = c\<lparr>ingested := ingested c + 1\<rparr>"
definition record_dropped :: "Counters \<Rightarrow> Counters" where
  "record_dropped c = c\<lparr>dropped := dropped c + 1\<rparr>"
definition record_batch_sent :: "Counters \<Rightarrow> Counters" where
  "record_batch_sent c = c\<lparr>batches_sent := batches_sent c + 1\<rparr>"
definition record_batch_failed :: "Counters \<Rightarrow> Counters" where
  "record_batch_failed c = c\<lparr>batches_failed := batches_failed c + 1\<rparr>"

section \<open>State\<close>

text \<open>The sink takes the bytes of a batch; \<open>False\<close> is a throw.\<close>

type_synonym 'w sink = "u8 list \<Rightarrow> 'w \<Rightarrow> bool \<times> 'w"

datatype loop_point = At_top | At_drain bool bool | At_act bool bool | At_done

record 'w Ingestor =
  ing_options :: IngestorOptions
  queue :: "TelemetrySample SpscRingBuffer"
  counters :: Counters
  running :: bool
  loop_pc :: loop_point \<comment> \<open>the flags: \<open>stopping\<close>, and whether this round popped anything\<close>
  batch :: "TelemetrySample list"
  encoded :: "u8 list"
  last_flush :: int
  idle_rounds :: u32
  world :: 'w
  accepted :: "TelemetrySample list"
  handed :: "(u8 list \<times> bool) list"

definition Ingestor_make :: "IngestorOptions \<Rightarrow> bool \<Rightarrow> 'w \<Rightarrow> string throws + 'w Ingestor" where
  "Ingestor_make opts sink_present w =
     (case validate_options opts of Inl e \<Rightarrow> Inl e
      | Inr _ \<Rightarrow> (case SpscRingBuffer_make (queue_capacity opts) of Inl e \<Rightarrow> Inl e
      | Inr q \<Rightarrow> if \<not> sink_present then Inl (invalid_argument ''ingest: a batch sink is required'')
          else Inr \<lparr>ing_options = opts, queue = q, counters = zero_counters, running = False,
            loop_pc = At_done, batch = [], encoded = [], last_flush = 0, idle_rounds = 0, world = w,
            accepted = [], handed = []\<rparr>))"

section \<open>Operations\<close>

text \<open>\<open>start\<close> launches the consumer thread: its prologue sizes the buffer and reads the clock.\<close>

definition ing_start :: "int \<Rightarrow> 'w Ingestor \<Rightarrow> 'w Ingestor" where
  "ing_start now s =
     (if running s then s
      else s\<lparr>running := True, loop_pc := At_top, batch := [],
             encoded := replicate (required_buffer_size (unat (batch_size (ing_options s)))) 0,
             last_flush := now, idle_rounds := 0\<rparr>)"

definition submit :: "TelemetrySample \<Rightarrow> 'w Ingestor \<Rightarrow> (bool \<times> 'w Ingestor) ub" where
  "submit sample s = do {
     (ok, q) \<leftarrow> emplace sample (queue s);
     Some (if ok then (True, s\<lparr>queue := q, counters := record_ingested (counters s),
                               accepted := accepted s @ [sample]\<rparr>)
           else (False, s\<lparr>queue := q, counters := record_dropped (counters s)\<rparr>)) }"

definition send_batch :: "Cpu \<Rightarrow> 'w sink \<Rightarrow> 'w Ingestor \<Rightarrow> 'w Ingestor" where
  "send_batch cpu sink s =
     (let (bytes, enc) = serialize cpu (batch s) (encoded s);
          s = s\<lparr>encoded := enc, batch := []\<rparr>;
          (ok, w) = sink (take bytes enc) (world s);
          s = s\<lparr>world := w, handed := handed s @ [(take bytes enc, ok)]\<rparr>
      in if ok then s\<lparr>counters := record_batch_sent (counters s)\<rparr>
         else s\<lparr>counters := record_batch_failed (counters s)\<rparr>)"

text \<open>What follows the drain: \<open>now\<close> in nanoseconds; \<open>std::chrono\<close> compares the interval exactly.\<close>

definition consumer_act :: "Cpu \<Rightarrow> 'w sink \<Rightarrow> int \<Rightarrow> bool \<Rightarrow> bool \<Rightarrow> 'w Ingestor \<Rightarrow> 'w Ingestor" where
  "consumer_act cpu sink now stopping popped_any s =
     (let full = unat (batch_size (ing_options s)) \<le> length (batch s);
          due = batch s \<noteq> [] \<and> flush_interval (ing_options s) * 1000000 \<le> now - last_flush s
      in if full \<or> due
         then (send_batch cpu sink s)\<lparr>last_flush := now, idle_rounds := 0, loop_pc := At_top\<rparr>
         else if stopping
         then if ring_empty (queue s)
              then (if batch s \<noteq> [] then send_batch cpu sink s else s)\<lparr>loop_pc := At_done\<rparr>
              else s\<lparr>loop_pc := At_top\<rparr>
         else if \<not> popped_any
         then s\<lparr>idle_rounds := (if idle_rounds s < 1024 then idle_rounds s + 1 else idle_rounds s),
                loop_pc := At_top\<rparr>
         else s\<lparr>idle_rounds := 0, loop_pc := At_top\<rparr>)"

text \<open>One step of the consumer thread; \<open>stop\<close> and \<open>now\<close> are what it would read.\<close>

definition consumer_step :: "Cpu \<Rightarrow> 'w sink \<Rightarrow> bool \<Rightarrow> int \<Rightarrow> 'w Ingestor \<Rightarrow> 'w Ingestor ub" where
  "consumer_step cpu sink stop now s =
     (case loop_pc s of
        At_done \<Rightarrow> Some s
      | At_top \<Rightarrow> Some (s\<lparr>loop_pc := At_drain stop False\<rparr>)
      | At_drain stopping any \<Rightarrow>
          if length (batch s) < unat (batch_size (ing_options s))
          then do { (sample, q) \<leftarrow> pop (queue s);
                    Some (case sample of None \<Rightarrow> s\<lparr>queue := q, loop_pc := At_act stopping any\<rparr>
                          | Some x \<Rightarrow> s\<lparr>queue := q, batch := batch s @ [x],
                                        loop_pc := At_drain stopping True\<rparr>) }
          else Some (s\<lparr>loop_pc := At_act stopping any\<rparr>)
      | At_act stopping any \<Rightarrow> Some (consumer_act cpu sink now stopping any s))"

text \<open>Runs of the two threads: the producer submits, the consumer takes a step.\<close>

datatype ing_event = Ev_submit TelemetrySample | Ev_consumer bool int

fun ing_run :: "Cpu \<Rightarrow> 'w sink \<Rightarrow> ing_event list \<Rightarrow> 'w Ingestor \<Rightarrow> 'w Ingestor ub" where
  "ing_run cpu sink [] s = Some s"
| "ing_run cpu sink (Ev_submit x # es) s =
     (case submit x s of None \<Rightarrow> None | Some (_, s') \<Rightarrow> ing_run cpu sink es s')"
| "ing_run cpu sink (Ev_consumer stop now # es) s =
     (case consumer_step cpu sink stop now s of None \<Rightarrow> None | Some s' \<Rightarrow> ing_run cpu sink es s')"

text \<open>The shape of the idle back-off: spin, then yield, then sleep.\<close>

datatype back_off_action = Relax | Yield | Sleep_1ms

definition back_off :: "u32 \<Rightarrow> back_off_action" where
  "back_off rounds = (if rounds < 64 then Relax else if rounds < 128 then Yield else Sleep_1ms)"

section \<open>The invariant\<close>

text \<open>What the sink was given decodes to whole batches, and with the batch in progress and the
  queue it is exactly what was accepted.\<close>

definition delivered :: "'w Ingestor \<Rightarrow> TelemetrySample list list \<Rightarrow> bool" where
  "delivered s bs \<longleftrightarrow> map fst (handed s) = map batch_image bs \<and>
     (\<forall>b \<in> set bs. b \<noteq> [] \<and> length b \<le> unat (batch_size (ing_options s)))"

definition ing_inv :: "'w Ingestor \<Rightarrow> bool" where
  "ing_inv s \<longleftrightarrow> ring_inv (queue s) \<and> 0 < batch_size (ing_options s) \<and>
     batch_size (ing_options s) \<le> 0xFFFFFFFF \<and>
     length (batch s) \<le> unat (batch_size (ing_options s)) \<and>
     required_buffer_size (unat (batch_size (ing_options s))) \<le> length (encoded s) \<and>
     (\<exists>bs. delivered s bs \<and> accepted s = concat bs @ batch s @ ring_contents (queue s))"

lemma submit_spec:
  assumes "ring_inv (queue s)"
  shows "\<exists>q. ring_inv q \<and> submit x s =
    Some (if length (ring_contents (queue s)) < ring_bound (queue s)
          then (True, s\<lparr>queue := q, counters := record_ingested (counters s), accepted := accepted s @ [x]\<rparr>)
          else (False, s\<lparr>queue := q, counters := record_dropped (counters s)\<rparr>)) \<and>
    ring_contents q = (if length (ring_contents (queue s)) < ring_bound (queue s)
      then ring_contents (queue s) @ [x] else ring_contents (queue s)) \<and> ring_bound q = ring_bound (queue s)"
  using ring.enq_law [OF assms, of x] by (auto simp: submit_def)

lemma submit_inv:
  assumes "ing_inv s" "submit x s = Some (ok, s')"
  shows "ing_inv s'"
proof -
  have "ring_inv (queue s)" using assms by (simp add: ing_inv_def)
  from submit_spec [OF this, of x] assms show ?thesis
    by (auto simp: ing_inv_def delivered_def split: if_splits)
qed

lemma send_batch_spec:
  assumes doc: "sse42_documented cpu" and inv: "ing_inv s"
  shows "\<exists>ok w c. send_batch cpu sink s = s\<lparr>encoded := batch_image (batch s) @ drop (length (batch_image (batch s))) (encoded s),
    batch := [], world := w, handed := handed s @ [(batch_image (batch s), ok)], counters := c\<rparr> \<and>
    sink (batch_image (batch s)) (world s) = (ok, w)"
proof -
  have "length (batch s) \<le> unat (batch_size (ing_options s))"
    "unat (batch_size (ing_options s)) \<le> 0xFFFFFFFF"
    using inv by (auto simp: ing_inv_def word_le_nat_alt)
  then have "length (batch s) \<le> 0xFFFFFFFF" by linarith
  moreover have "required_buffer_size (length (batch s)) \<le> length (encoded s)"
    using inv by (auto simp: ing_inv_def required_buffer_size_def)
  ultimately have ser: "serialize cpu (batch s) (encoded s) = (length (batch_image (batch s)),
      batch_image (batch s) @ drop (length (batch_image (batch s))) (encoded s))"
    by (rule serialize_batch [OF doc])
  obtain ok w where "sink (batch_image (batch s)) (world s) = (ok, w)" by fastforce
  with ser show ?thesis
    by (cases ok) (auto simp: send_batch_def simp del: length_batch_image)
qed

lemma send_batch_inv:
  assumes "sse42_documented cpu" "ing_inv s" "batch s \<noteq> []"
  shows "ing_inv (send_batch cpu sink s)"
proof -
  from send_batch_spec [OF assms(1,2), of sink] obtain ok w c where
    eq: "send_batch cpu sink s = s\<lparr>encoded := batch_image (batch s) @ drop (length (batch_image (batch s))) (encoded s),
      batch := [], world := w, handed := handed s @ [(batch_image (batch s), ok)], counters := c\<rparr>" by blast
  from assms(2) obtain bs where bs: "delivered s bs"
    "accepted s = concat bs @ batch s @ ring_contents (queue s)" by (auto simp: ing_inv_def)
  have "delivered (send_batch cpu sink s) (bs @ [batch s])"
    using bs(1) assms by (auto simp: delivered_def eq ing_inv_def)
  moreover have "required_buffer_size (length (batch s)) \<le> length (encoded s)"
    using assms(2) by (auto simp: ing_inv_def required_buffer_size_def)
  ultimately show ?thesis
    using assms(2) bs(2) unfolding ing_inv_def
    by (auto simp: eq intro!: exI [of _ "bs @ [batch s]"])
qed

lemma ing_inv_cong:
  "ing_inv (s\<lparr>last_flush := t\<rparr>) = ing_inv s" "ing_inv (s\<lparr>idle_rounds := i\<rparr>) = ing_inv s"
  "ing_inv (s\<lparr>loop_pc := pc\<rparr>) = ing_inv s"
  by (simp_all add: ing_inv_def delivered_def)

lemma consumer_act_inv:
  assumes "sse42_documented cpu" "ing_inv s"
  shows "ing_inv (consumer_act cpu sink now stopping any s)"
proof -
  have "batch s \<noteq> []" if "unat (batch_size (ing_options s)) \<le> length (batch s)"
    using that assms(2) by (auto simp: ing_inv_def word_less_nat_alt)
  then show ?thesis
    using assms send_batch_inv [OF assms] by (auto simp: consumer_act_def Let_def ing_inv_cong)
qed

lemma consumer_step_spec:
  assumes doc: "sse42_documented cpu" and inv: "ing_inv s"
  shows "\<exists>s'. consumer_step cpu sink stop now s = Some s' \<and> ing_inv s'"
proof (cases "loop_pc s")
  case (At_drain stopping any)
  have "ring_inv (queue s)" using inv by (simp add: ing_inv_def)
  from ring.deq_law [OF this] inv At_drain show ?thesis
    by (cases "ring_contents (queue s)")
      (auto simp: consumer_step_def ing_inv_def delivered_def)
qed (use assms consumer_act_inv [OF assms] in \<open>auto simp: consumer_step_def ing_inv_cong\<close>)

lemma ing_run_inv:
  assumes "sse42_documented cpu" "ing_inv s"
  shows "\<exists>s'. ing_run cpu sink es s = Some s' \<and> ing_inv s'"
  using assms(2)
proof (induction es arbitrary: s)
  case Nil
  then show ?case by simp
next
  case (Cons e es)
  show ?case
  proof (cases e)
    case (Ev_submit x)
    have "ring_inv (queue s)" using Cons.prems by (simp add: ing_inv_def)
    from submit_spec [OF this, of x] obtain r where r: "submit x s = Some r" by blast
    then have "ing_inv (snd r)" using submit_inv [OF Cons.prems, of x "fst r" "snd r"] by simp
    from Cons.IH [OF this] r Ev_submit show ?thesis by (cases r) auto
  next
    case (Ev_consumer stop now)
    then show ?thesis using consumer_step_spec [OF assms(1) Cons.prems, of sink stop now] Cons.IH by auto
  qed
qed

section \<open>Starting and draining\<close>

lemma Ingestor_make_ready:
  assumes "Ingestor_make opts sp w = Inr s" "batch_size opts \<le> 0xFFFFFFFF"
  shows "ing_inv (ing_start now s)" "loop_pc (ing_start now s) = At_top"
    "accepted (ing_start now s) = []" "handed (ing_start now s) = []"
    "ing_options (ing_start now s) = opts" "ring_bound (queue (ing_start now s)) = unat (queue_capacity opts)"
proof -
  have v: "validate_options opts = Inr ()"
    using assms by (auto simp: Ingestor_make_def split: sum.splits)
  obtain q where q: "SpscRingBuffer_make (queue_capacity opts) = Inr q" and s: "s =
      \<lparr>ing_options = opts, queue = q, counters = zero_counters, running = False,
       loop_pc = At_done, batch = [], encoded = [], last_flush = 0, idle_rounds = 0, world = w,
       accepted = [], handed = []\<rparr>"
    using assms by (auto simp: Ingestor_make_def split: sum.splits if_splits)
  have "0 < batch_size opts" using v by (auto simp: validate_options_def Let_def word_gt_0 split: if_splits)
  then show "ing_inv (ing_start now s)" "loop_pc (ing_start now s) = At_top"
    "accepted (ing_start now s) = []" "handed (ing_start now s) = []"
    "ing_options (ing_start now s) = opts" "ring_bound (queue (ing_start now s)) = unat (queue_capacity opts)"
    using ring_make [OF q] assms(2) by (auto simp: s ing_start_def ing_inv_def delivered_def)
qed

text \<open>After the stop flag is set and the producer is silent, every step brings the thread closer to
  its end: each pop, each batch sent, each turn of the loop.\<close>

fun pc_rank :: "loop_point \<Rightarrow> nat" where
  "pc_rank At_top = 3"
| "pc_rank (At_drain stopping any) = 2"
| "pc_rank (At_act stopping any) = 1"
| "pc_rank At_done = 0"

definition drain_measure :: "'w Ingestor \<Rightarrow> nat" where
  "drain_measure s = 5 * length (ring_contents (queue s)) + 4 * length (batch s) + pc_rank (loop_pc s)"

text \<open>Where the stopping thread can be: it read the flag, and it leaves the drain only with a full
  batch or an empty queue.\<close>

fun stopping_pc :: "'w Ingestor \<Rightarrow> loop_point \<Rightarrow> bool" where
  "stopping_pc s At_top = True"
| "stopping_pc s (At_drain stopping any) = stopping"
| "stopping_pc s (At_act stopping any) = (stopping \<and>
     (length (batch s) = unat (batch_size (ing_options s)) \<or> ring_contents (queue s) = []))"
| "stopping_pc s At_done = (batch s = [] \<and> ring_contents (queue s) = [])"

lemma ring_empty_iff: "ring_inv q \<Longrightarrow> ring_empty q \<longleftrightarrow> ring_contents q = []"
  by (auto simp: ring_empty_def ring_contents_def unsigned_eq_0_iff)

lemma send_batch_progress:
  assumes "sse42_documented cpu" "ing_inv s"
  shows "batch (send_batch cpu sink s) = []" "queue (send_batch cpu sink s) = queue s"
    "ing_options (send_batch cpu sink s) = ing_options s"
    "accepted (send_batch cpu sink s) = accepted s"
  using send_batch_spec [OF assms, of sink] by auto

lemma stopping_step:
  assumes doc: "sse42_documented cpu" and inv: "ing_inv s" and stopping: "stopping_pc s (loop_pc s)"
    and step: "consumer_step cpu sink True now s = Some s'"
  shows "stopping_pc s' (loop_pc s')" and "loop_pc s \<noteq> At_done \<Longrightarrow> drain_measure s' < drain_measure s"
    and "loop_pc s = At_done \<Longrightarrow> s' = s" and "accepted s' = accepted s"
proof -
  have ring: "ring_inv (queue s)" using inv by (simp add: ing_inv_def)
  note sent = send_batch_progress [OF doc inv, of sink]
  have bs: "0 < unat (batch_size (ing_options s))"
    using inv by (auto simp: ing_inv_def word_less_nat_alt)
  have "stopping_pc s' (loop_pc s') \<and> (loop_pc s \<noteq> At_done \<longrightarrow> drain_measure s' < drain_measure s) \<and>
      (loop_pc s = At_done \<longrightarrow> s' = s) \<and> accepted s' = accepted s"
  proof (cases "loop_pc s")
    case At_top
    then show ?thesis using step by (auto simp: consumer_step_def drain_measure_def)
  next
    case (At_drain st any)
    show ?thesis
    proof (cases "length (batch s) < unat (batch_size (ing_options s))")
      case True
      with ring.deq_law [OF ring] At_drain step stopping show ?thesis
        by (cases "ring_contents (queue s)") (auto simp: consumer_step_def drain_measure_def)
    next
      case False
      with inv have "length (batch s) = unat (batch_size (ing_options s))" by (auto simp: ing_inv_def)
      with False At_drain step stopping show ?thesis
        by (auto simp: consumer_step_def drain_measure_def)
    qed
  next
    case (At_act st any)
    with step have s': "s' = consumer_act cpu sink now st any s" by (simp add: consumer_step_def)
    have "st" using stopping At_act by simp
    moreover have "batch s \<noteq> []" if "unat (batch_size (ing_options s)) \<le> length (batch s)"
      using that bs by auto
    ultimately show ?thesis
      using stopping At_act sent ring_empty_iff [OF ring]
      by (cases "batch s") (auto simp: s' consumer_act_def Let_def drain_measure_def)
  next
    case At_done
    then show ?thesis using step stopping by (auto simp: consumer_step_def)
  qed
  then show "stopping_pc s' (loop_pc s')" "loop_pc s \<noteq> At_done \<Longrightarrow> drain_measure s' < drain_measure s"
    "loop_pc s = At_done \<Longrightarrow> s' = s" "accepted s' = accepted s" by blast+
qed

lemma stopping_run:
  assumes "sse42_documented cpu" "ing_inv s" "stopping_pc s (loop_pc s)" "drain_measure s \<le> length ts"
  shows "\<exists>s'. ing_run cpu sink (map (Ev_consumer True) ts) s = Some s' \<and> ing_inv s' \<and>
    loop_pc s' = At_done \<and> batch s' = [] \<and> ring_contents (queue s') = [] \<and> accepted s' = accepted s"
  using assms(2-)
proof (induction ts arbitrary: s)
  case Nil
  then have "loop_pc s = At_done"
    by (cases "loop_pc s") (auto simp: drain_measure_def)
  with Nil show ?case by auto
next
  case (Cons t ts)
  from consumer_step_spec [OF assms(1) Cons.prems(1), of sink True t] obtain s1 where
    s1: "consumer_step cpu sink True t s = Some s1" "ing_inv s1" by blast
  note step = stopping_step [OF assms(1) Cons.prems(1,2) s1(1)]
  have "drain_measure s1 \<le> length ts"
  proof (cases "loop_pc s = At_done")
    case True
    then have "drain_measure s1 = 0" using step(3) Cons.prems(2) by (simp add: drain_measure_def)
    then show ?thesis by simp
  qed (use step(2) Cons.prems(3) in auto)
  from Cons.IH [OF s1(2) step(1) this] s1(1) step(4) show ?case by auto
qed

section \<open>Properties\<close>

lemma ing_step_options:
  assumes "sse42_documented cpu" "ing_inv s"
  shows "submit x s = Some (ok, s') \<Longrightarrow> ing_options s' = ing_options s \<and> ring_bound (queue s') = ring_bound (queue s)"
    and "consumer_step cpu sink stop now s = Some s' \<Longrightarrow>
      ing_options s' = ing_options s \<and> ring_bound (queue s') = ring_bound (queue s)"
proof -
  have ring: "ring_inv (queue s)" using assms(2) by (simp add: ing_inv_def)
  show "submit x s = Some (ok, s') \<Longrightarrow> ing_options s' = ing_options s \<and> ring_bound (queue s') = ring_bound (queue s)"
    using submit_spec [OF ring, of x] by (auto split: if_splits)
  have p: "ring_bound q = ring_bound (queue s)" if "pop (queue s) = Some (x, q)" for x q
    using ring.deq_law [OF ring] that by auto
  show "consumer_step cpu sink stop now s = Some s' \<Longrightarrow>
      ing_options s' = ing_options s \<and> ring_bound (queue s') = ring_bound (queue s)"
    using send_batch_progress [OF assms, of sink] p
    by (auto simp: consumer_step_def consumer_act_def Let_def split: loop_point.splits if_splits
        Option.bind_splits option.splits)
qed

lemma ing_run_options:
  assumes "sse42_documented cpu" "ing_inv s" "ing_run cpu sink es s = Some s'"
  shows "ing_options s' = ing_options s \<and> ring_bound (queue s') = ring_bound (queue s)"
  using assms(2,3)
proof (induction es arbitrary: s)
  case (Cons e es)
  show ?case
  proof (cases e)
    case (Ev_submit x)
    with Cons.prems(2) obtain ok s1 where s1: "submit x s = Some (ok, s1)" "ing_run cpu sink es s1 = Some s'"
      by (auto split: option.splits)
    with Cons.IH [OF submit_inv [OF Cons.prems(1) s1(1)] s1(2)] ing_step_options(1) [OF assms(1) Cons.prems(1) s1(1)]
    show ?thesis by simp
  next
    case (Ev_consumer stop now)
    with Cons.prems(2) obtain s1 where s1: "consumer_step cpu sink stop now s = Some s1" "ing_run cpu sink es s1 = Some s'"
      by (auto split: option.splits)
    have "ing_inv s1" using consumer_step_spec [OF assms(1) Cons.prems(1), of sink stop now] s1(1) by auto
    with Cons.IH [OF this s1(2)] ing_step_options(2) [OF assms(1) Cons.prems(1) s1(1)] show ?thesis by simp
  qed
qed simp

text \<open>What the sink's world is after a run: anything that each call of the sink on a handed batch
  preserves. A run hands over at most one batch per event.\<close>

lemma send_batch_sink:
  assumes "sse42_documented cpu" "ing_inv s"
  shows "handed (send_batch cpu sink s) = handed s @ [(batch_image (batch s), fst (sink (batch_image (batch s)) (world s)))]"
    and "world (send_batch cpu sink s) = snd (sink (batch_image (batch s)) (world s))"
  using send_batch_spec [OF assms, of sink] by auto

lemma consumer_step_sink:
  assumes "sse42_documented cpu" "ing_inv s" "consumer_step cpu sink stop now s = Some s'"
  shows "(handed s' = handed s \<and> world s' = world s) \<or>
    (\<exists>b. handed s' = handed s @ [(b, fst (sink b (world s)))] \<and> world s' = snd (sink b (world s)))"
  using assms(3) send_batch_sink [OF assms(1,2), of sink]
  by (auto simp: consumer_step_def consumer_act_def Let_def split: loop_point.splits if_splits
      Option.bind_splits option.splits)

lemma ing_run_sink:
  assumes doc: "sse42_documented cpu" and inv: "ing_inv s" and run: "ing_run cpu sink es s = Some s'"
    and keeps: "\<And>w h b. P w h \<Longrightarrow> P (snd (sink b w)) (h @ [(b, fst (sink b w))])" and start: "P (world s) (handed s)"
  shows "P (world s') (handed s') \<and> length (handed s') \<le> length (handed s) + length es"
  using inv run start
proof (induction es arbitrary: s)
  case Nil
  then show ?case by simp
next
  case (Cons e es)
  show ?case
  proof (cases e)
    case (Ev_submit x)
    with Cons.prems(2) obtain ok s1 where s1: "submit x s = Some (ok, s1)" "ing_run cpu sink es s1 = Some s'"
      by (auto split: option.splits)
    have "world s1 = world s" "handed s1 = handed s"
      using s1(1) by (auto simp: submit_def split: Option.bind_splits if_splits)
    with Cons.IH [OF submit_inv [OF Cons.prems(1) s1(1)] s1(2)] Cons.prems(3) show ?thesis by simp
  next
    case (Ev_consumer stop now)
    with Cons.prems(2) obtain s1 where s1: "consumer_step cpu sink stop now s = Some s1" "ing_run cpu sink es s1 = Some s'"
      by (auto split: option.splits)
    have i: "ing_inv s1" using consumer_step_spec [OF doc Cons.prems(1), of sink stop now] s1(1) by auto
    from consumer_step_sink [OF doc Cons.prems(1) s1(1)] have "P (world s1) (handed s1)"
      "length (handed s1) \<le> Suc (length (handed s))"
      using Cons.prems(3) keeps by auto
    with Cons.IH [OF i s1(2)] show ?thesis by auto
  qed
qed

text \<open>C14. Nothing is lost, duplicated or reordered between \<open>submit\<close> and the sink, for every
  interleaving of producer and consumer and whatever the sink does: no step faults, what was
  accepted is, in order, the batches handed to the sink, the batch in progress and the queue, and
  every batch handed over is the encoding of 1 to \<open>batch_size\<close> samples.\<close>

theorem ingestor_conserves_samples:
  assumes "sse42_documented cpu" and "Ingestor_make opts True w = Inr s" and "batch_size opts \<le> 0xFFFFFFFF"
  shows "\<exists>s'. ing_run cpu sink es (ing_start now s) = Some s' \<and>
    (\<exists>bs. map fst (handed s') = map batch_image bs \<and>
       accepted s' = concat bs @ batch s' @ ring_contents (queue s') \<and>
       (\<forall>b \<in> set bs. b \<noteq> [] \<and> length b \<le> unat (batch_size (ing_options s'))))"
  using ing_run_inv [OF assms(1) Ingestor_make_ready(1) [OF assms(2,3)], of sink es now]
  by (auto simp: ing_inv_def delivered_def)

definition demo_options :: IngestorOptions where
  "demo_options = \<lparr>queue_capacity = 4, batch_size = 2, flush_interval = 5\<rparr>"

lemma demo_make: "Ingestor_make demo_options True () = Inr (projr (Ingestor_make demo_options True ()))"
  by (simp add: Ingestor_make_def validate_options_def demo_options_def SpscRingBuffer_make_def)

theorem ingestor_conserves_samples_witness:
  "\<exists>s'. ing_run old_cpu (\<lambda>_ w. (True, w)) [Ev_submit (sample_of (replicate 24 7)), Ev_consumer False 0]
      (ing_start 0 (projr (Ingestor_make demo_options True ()))) = Some s'"
proof -
  have small: "batch_size demo_options \<le> 0xFFFFFFFF" by (simp add: demo_options_def)
  from ingestor_conserves_samples [OF documented_cpus(1) demo_make small,
      where sink = "\<lambda>_ w. (True, w)" and now = 0] show ?thesis by blast
qed

text \<open>C15. \<open>stop\<close> drains: once the stop flag is set and the producer is silent, the consumer thread
  ends within a number of steps bounded by what is queued, whatever the clock and the sink do, and
  then every accepted sample has been handed to the sink.\<close>

theorem ingestor_stop_drains:
  assumes "sse42_documented cpu" and "ing_inv s" and "loop_pc s = At_top"
    and "5 * length (ring_contents (queue s)) + 4 * length (batch s) + 3 \<le> length ts"
  shows "\<exists>s' bs. ing_run cpu sink (map (Ev_consumer True) ts) s = Some s' \<and> loop_pc s' = At_done \<and>
    map fst (handed s') = map batch_image bs \<and> concat bs = accepted s"
proof -
  from stopping_run [OF assms(1,2), of ts sink] obtain s' where s': "loop_pc s' = At_done"
    "ing_run cpu sink (map (Ev_consumer True) ts) s = Some s'" "ing_inv s'"
    "batch s' = []" "ring_contents (queue s') = []" "accepted s' = accepted s"
    using assms(3,4) by (auto simp: drain_measure_def)
  then show ?thesis by (auto simp: ing_inv_def delivered_def)
qed

theorem ingestor_stop_drains_witness:
  "\<exists>s'. ing_run old_cpu (\<lambda>_ w. (False, w)) (map (Ev_consumer True) [1, 2, 3])
      (ing_start 0 (projr (Ingestor_make demo_options True ()))) = Some s' \<and> loop_pc s' = At_done"
proof -
  let ?s = "ing_start 0 (projr (Ingestor_make demo_options True ()))"
  have small: "batch_size demo_options \<le> 0xFFFFFFFF" by (simp add: demo_options_def)
  note ready = Ingestor_make_ready [OF demo_make small, of 0]
  have "batch ?s = []" "ring_contents (queue ?s) = []"
    using ready by (auto simp: ing_inv_def)
  then show ?thesis
    using ingestor_stop_drains [OF documented_cpus(1) ready(1,2), of "[1, 2, 3]" "\<lambda>_ w. (False, w)"]
    by auto
qed

end
