(* ===== verification/Segment.thy ===== *)
theory Segment
  imports Serializer Json
begin

text \<open>
  \<open>ingest/segment.cpp\<close>, the file format: the tag table, the segment header and the reader. A file is
  the list of its bytes; the checksums and the JSON library are those of \<open>Serializer\<close> and \<open>Json\<close>.
  The reader's loop recurses on its position. \<open>SegmentWriter\<close> holds the writer.
\<close>

section \<open>Data\<close>

record SegmentHeader =
  seg_magic :: u32
  seg_version :: u16
  seg_flags :: u16
  created_ms :: u64 \<comment> \<open>\<open>int64_t\<close>\<close>
  tag_table_bytes :: u32
  tag_table_crc32c :: u32
  seg_reserved :: u64

definition kSegmentMagic :: u32 where "kSegmentMagic = 0x47535049"
definition kSegmentVersion :: u16 where "kSegmentVersion = 1"
definition kSegmentExtension :: string where "kSegmentExtension = ''.ipseg''"
definition kPartialSuffix :: string where "kPartialSuffix = ''.part''"

record TagInfo =
  tag_info_id :: u32
  tag_sensor_id :: string
  tag_device_id :: string
  tag_name :: string
  tag_unit :: string

definition segment_header_image :: "SegmentHeader \<Rightarrow> u8 list" where
  "segment_header_image h = le_bytes 4 (seg_magic h) @ le_bytes 2 (seg_version h) @
     le_bytes 2 (seg_flags h) @ le_bytes 8 (created_ms h) @ le_bytes 4 (tag_table_bytes h) @
     le_bytes 4 (tag_table_crc32c h) @ le_bytes 8 (seg_reserved h)"

definition segment_header_of :: "u8 list \<Rightarrow> SegmentHeader" where
  "segment_header_of bs = \<lparr>seg_magic = of_le (take 4 bs), seg_version = of_le (take 2 (drop 4 bs)),
     seg_flags = of_le (take 2 (drop 6 bs)), created_ms = of_le (take 8 (drop 8 bs)),
     tag_table_bytes = of_le (take 4 (drop 16 bs)), tag_table_crc32c = of_le (take 4 (drop 20 bs)),
     seg_reserved = of_le (take 8 (drop 24 bs))\<rparr>"

section \<open>Tag table\<close>

definition tag_json :: "'j Json \<Rightarrow> TagInfo \<Rightarrow> 'j" where
  "tag_json J t = j_object J [(''id'', j_uint J (ucast (tag_info_id t))),
     (''sensor'', j_string J (tag_sensor_id t)), (''device'', j_string J (tag_device_id t)),
     (''name'', j_string J (tag_name t)), (''unit'', j_string J (tag_unit t))]"

definition encode_tag_table :: "'j Json \<Rightarrow> TagInfo list \<Rightarrow> string + string" where
  "encode_tag_table J tags =
     j_dump J (j_object J [(''format'', j_string J ''ironpulse-export''),
                           (''tags'', j_array J (map (tag_json J) tags))])"

text \<open>\<open>decode_tag_table\<close>: any library exception becomes the one error.\<close>

definition decode_tag :: "'j Json \<Rightarrow> 'j \<Rightarrow> string + TagInfo" where
  "decode_tag J item =
     (case j_at J item ''id'' of Inl e \<Rightarrow> Inl e | Inr i \<Rightarrow>
     (case j_get_u32 J i of Inl e \<Rightarrow> Inl e | Inr n \<Rightarrow>
     (case j_at J item ''sensor'' of Inl e \<Rightarrow> Inl e | Inr s \<Rightarrow>
     (case j_get_string J s of Inl e \<Rightarrow> Inl e | Inr sensor \<Rightarrow>
     (case j_value J item ''device'' [] of Inl e \<Rightarrow> Inl e | Inr device \<Rightarrow>
     (case j_value J item ''name'' [] of Inl e \<Rightarrow> Inl e | Inr nm \<Rightarrow>
     (case j_value J item ''unit'' [] of Inl e \<Rightarrow> Inl e | Inr un \<Rightarrow>
       Inr \<lparr>tag_info_id = n, tag_sensor_id = sensor, tag_device_id = device, tag_name = nm,
            tag_unit = un\<rparr>)))))))"

fun decode_tags :: "'j Json \<Rightarrow> 'j list \<Rightarrow> string + TagInfo list" where
  "decode_tags J [] = Inr []"
| "decode_tags J (x # xs) =
     (case decode_tag J x of Inl e \<Rightarrow> Inl e | Inr t \<Rightarrow>
     (case decode_tags J xs of Inl e \<Rightarrow> Inl e | Inr ts \<Rightarrow> Inr (t # ts)))"

definition decode_tag_table :: "'j Json \<Rightarrow> string \<Rightarrow> string + TagInfo list" where
  "decode_tag_table J text =
     (case (case j_parse J text of Inl e \<Rightarrow> Inl e | Inr doc \<Rightarrow>
            (case j_at J doc ''tags'' of Inl e \<Rightarrow> Inl e | Inr lst \<Rightarrow> decode_tags J (j_elems J lst))) of
        Inl e \<Rightarrow> Inl (''malformed tag table: '' @ e) | Inr tags \<Rightarrow> Inr tags)"

section \<open>Reader\<close>

definition align8 :: "nat \<Rightarrow> nat" where
  "align8 n = (n + 7) - (n + 7) mod 8"

record SegmentReadResult =
  tags :: "TagInfo list"
  res_created_ms :: u64
  batches :: u64
  samples :: u64
  corrupt_batches :: u64
  truncated_tail :: bool
  error :: string
  delivered_batches :: "TelemetrySample list list" \<comment> \<open>the calls of \<open>on_batch\<close>\<close>

definition empty_result :: SegmentReadResult where
  "empty_result = \<lparr>tags = [], res_created_ms = 0, batches = 0, samples = 0, corrupt_batches = 0,
     truncated_tail = False, error = [], delivered_batches = []\<rparr>"

definition read_at :: "u8 list \<Rightarrow> nat \<Rightarrow> nat \<Rightarrow> u8 list" where
  "read_at data off n = take n (drop off data)"

text \<open>The scan for the next batch header on an 8-byte boundary.\<close>

function resync :: "u8 list \<Rightarrow> nat \<Rightarrow> nat" where
  "resync data pos =
     (if pos + 16 \<le> length data
      then if (of_le (read_at data pos 4) :: u32) = kMagic then pos else resync data (pos + 8)
      else pos)"
  by pat_completeness auto
termination
  by (relation "measure (\<lambda>(data, pos). length data - pos)") auto

declare resync.simps [simp del]

lemma resync_ge: "pos \<le> resync data pos"
proof (induction data pos rule: resync.induct)
  case (1 data pos)
  then show ?case by (subst resync.simps) auto
qed

lemma peek_bytes:
  assumes "peek d h b = (st, h', n)" "16 \<le> length d" "st \<noteq> DS_bad_magic" "st \<noteq> DS_unsupported_version"
  shows "16 \<le> n"
  using assms by (auto simp: peek_def Let_def required_buffer_size_def split: if_splits)

function read_batches :: "Cpu \<Rightarrow> u8 list \<Rightarrow> nat \<Rightarrow> SegmentReadResult \<Rightarrow> SegmentReadResult" where
  "read_batches cpu data pos r =
     (if length data \<le> pos then r
      else if length data - pos < 16 then r\<lparr>truncated_tail := True\<rparr>
      else let (status, h, batch_bytes) = peek (read_at data pos 16) zero_header 0
        in if status = DS_bad_magic \<or> status = DS_unsupported_version
           then read_batches cpu data (resync data (pos + 8)) (r\<lparr>corrupt_batches := corrupt_batches r + 1\<rparr>)
           else if length data < pos + batch_bytes then r\<lparr>truncated_tail := True\<rparr>
           else let payload = read_at data (pos + 16) (batch_bytes - 16);
                    ss = samples_of (unat (count h)) payload
                in read_batches cpu data (pos + batch_bytes)
                     (if crc32c cpu payload = payload_crc32c h
                      then r\<lparr>batches := batches r + 1, samples := samples r + of_nat (length ss),
                             delivered_batches := delivered_batches r @ [ss]\<rparr>
                      else r\<lparr>corrupt_batches := corrupt_batches r + 1\<rparr>))"
  by pat_completeness auto
termination
proof (relation "measure (\<lambda>(cpu, data, pos, r). length data - pos)", simp, goal_cases)
  case (1 cpu data pos r x st y h n)
  then show ?case using resync_ge [of "pos + 8" data] by simp
next
  case (2 cpu data pos r x st y h n payload ss)
  then have pk: "peek (read_at data pos 16) zero_header 0 = (st, h, n)" by simp
  have "16 \<le> n" by (rule peek_bytes [OF pk]) (use 2 in \<open>simp_all add: read_at_def\<close>)
  with 2 show ?case by simp
qed

declare read_batches.simps [simp del]

text \<open>\<open>path\<close> is only printed; \<open>None\<close> is a file that cannot be opened.\<close>

definition read_segment :: "'j Json \<Rightarrow> Cpu \<Rightarrow> string \<Rightarrow> u8 list option \<Rightarrow> SegmentReadResult" where
  "read_segment J cpu path data =
     (let fail = (\<lambda>msg. empty_result\<lparr>error := msg\<rparr>) in
      case data of None \<Rightarrow> fail (''cannot open '' @ path)
      | Some data \<Rightarrow>
        if length data < 32 then fail ''file is too short to be a segment''
        else let h = segment_header_of (take 32 data) in
        if seg_magic h \<noteq> kSegmentMagic then fail ''not an Ironpulse export segment (bad magic)''
        else if seg_version h \<noteq> kSegmentVersion
        then fail (''unsupported segment version '' @ dec_nat (unat (seg_version h)))
        else if length data < 32 + unat (tag_table_bytes h)
        then fail ''tag table extends past the end of the file''
        else let table = take (unat (tag_table_bytes h)) (drop 32 data) in
        if crc32c cpu table \<noteq> tag_table_crc32c h then fail ''tag table is damaged''
        else case decode_tag_table J (text_of table) of
          Inl e \<Rightarrow> fail e
        | Inr ts \<Rightarrow> read_batches cpu data (align8 (32 + length table))
            (empty_result\<lparr>tags := ts, res_created_ms := created_ms h\<rparr>))"

section \<open>Tag tables round-trip\<close>

lemma decode_tag_json: "json_documented J \<Longrightarrow> decode_tag J (tag_json J t) = Inr t"
  by (simp add: decode_tag_def tag_json_def json_documented_def j_value_def)

lemma decode_encode_tag_table:
  assumes doc: "json_documented J" and enc: "encode_tag_table J ts = Inr text"
  shows "decode_tag_table J text = Inr ts"
proof -
  have "decode_tags J (map (tag_json J) ts) = Inr ts"
    by (induction ts) (simp_all add: decode_tag_json [OF doc])
  moreover have "j_parse J text = Inr (j_object J [(''format'', j_string J ''ironpulse-export''),
      (''tags'', j_array J (map (tag_json J) ts))])"
    using enc doc by (simp add: encode_tag_table_def json_documented_def)
  ultimately show ?thesis using doc by (simp add: decode_tag_table_def json_documented_def)
qed

section \<open>The prefix of a segment\<close>

definition segment_prefix :: "Cpu \<Rightarrow> u64 \<Rightarrow> u8 list \<Rightarrow> u8 list" where
  "segment_prefix cpu created table =
     segment_header_image \<lparr>seg_magic = kSegmentMagic, seg_version = kSegmentVersion, seg_flags = 0,
       created_ms = created, tag_table_bytes = of_nat (length table),
       tag_table_crc32c = crc32c cpu table, seg_reserved = 0\<rparr> @ table @
     replicate (align8 (32 + length table) - (32 + length table)) 0"

lemma length_segment_header_image [simp, image_simps]: "length (segment_header_image h) = 32"
  by (simp add: segment_header_image_def)

lemma segment_header_of_image [simp, image_simps]: "segment_header_of (segment_header_image h) = h"
  by (cases h) (simp add: segment_header_of_def segment_header_image_def of_le_le_bytes)

lemma align8_bounds: "n \<le> align8 n" "align8 n < n + 8" "align8 n mod 8 = 0"
proof -
  have "(n + 7) mod 8 \<le> 7" using mod_less_divisor [of 8 "n + 7"] by linarith
  then show "n \<le> align8 n" "align8 n < n + 8" by (auto simp: align8_def)
  show "align8 n mod 8 = 0" unfolding align8_def minus_mod_eq_mult_div by simp
qed

lemma length_segment_prefix [simp]: "length (segment_prefix cpu c table) = align8 (32 + length table)"
  using align8_bounds(1) [of "32 + length table"] by (simp add: segment_prefix_def)

lemma read_segment_prefix:
  assumes "json_documented J" "encode_tag_table J ts = Inr text" "length text < 2 ^ 32"
  shows "read_segment J cpu path (Some (segment_prefix cpu c (bytes_of text) @ rest)) =
    read_batches cpu (segment_prefix cpu c (bytes_of text) @ rest)
      (length (segment_prefix cpu c (bytes_of text))) (empty_result\<lparr>tags := ts, res_created_ms := c\<rparr>)"
proof -
  let ?table = "bytes_of text"
  let ?h = "\<lparr>seg_magic = kSegmentMagic, seg_version = kSegmentVersion, seg_flags = 0,
       created_ms = c, tag_table_bytes = of_nat (length ?table),
       tag_table_crc32c = crc32c cpu ?table, seg_reserved = 0\<rparr>"
  have n: "unat (of_nat (length text) :: u32) = length text"
    using assms(3) by (intro unat_of_nat_less) simp
  let ?data = "segment_prefix cpu c ?table @ rest"
  have data: "?data = segment_header_image ?h @ ?table @
      replicate (align8 (32 + length ?table) - (32 + length ?table)) 0 @ rest"
    by (simp add: segment_prefix_def)
  have "take 32 ?data = segment_header_image ?h" "drop 32 ?data = ?table @
      replicate (align8 (32 + length ?table) - (32 + length ?table)) 0 @ rest"
    unfolding data by simp_all
  then show ?thesis
    using decode_encode_tag_table [OF assms(1,2)] align8_bounds(1) [of "32 + length text"]
    unfolding read_segment_def Let_def by (simp add: n)
qed

section \<open>Reading back what a writer leaves\<close>

text \<open>The regions of a segment: a batch as written, a batch whose payload was damaged later.\<close>

datatype region = Intact "TelemetrySample list" | Damaged "TelemetrySample list" "u8 list"

fun region_image :: "region \<Rightarrow> u8 list" where
  "region_image (Intact ss) = batch_image ss"
| "region_image (Damaged ss p) = take 16 (batch_image ss) @ p"

fun region_ok :: "region \<Rightarrow> bool" where
  "region_ok (Intact ss) = (length ss \<le> 0xFFFFFFFF)"
| "region_ok (Damaged ss p) = (length ss \<le> 0xFFFFFFFF \<and> length p = 24 * length ss \<and>
     crc32c_spec p \<noteq> crc32c_spec (payload_image ss))"

fun region_result :: "SegmentReadResult \<Rightarrow> region \<Rightarrow> SegmentReadResult" where
  "region_result r (Intact ss) = r\<lparr>batches := batches r + 1, samples := samples r + of_nat (length ss),
     delivered_batches := delivered_batches r @ [ss]\<rparr>"
| "region_result r (Damaged ss p) = r\<lparr>corrupt_batches := corrupt_batches r + 1\<rparr>"

lemma peek_batch_header:
  assumes "length ss \<le> 0xFFFFFFFF" "take 16 d = take 16 (batch_image ss)" "16 \<le> length d"
  shows "peek d h b = (if length d < required_buffer_size (length ss) then DS_truncated else DS_ok,
    \<lparr>magic = kMagic, version = kVersion, flags = 0, count = of_nat (length ss),
     payload_crc32c = crc32c_spec (payload_image ss)\<rparr>, required_buffer_size (length ss))"
proof -
  have "header_of (take 16 d) = \<lparr>magic = kMagic, version = kVersion, flags = 0,
      count = of_nat (length ss), payload_crc32c = crc32c_spec (payload_image ss)\<rparr>"
    using header_batch_image [of ss "[]"] assms(2) by simp
  then show ?thesis using assms(1,3) by (simp add: peek_def unat_count)
qed

lemma read_batches_region:
  assumes doc: "sse42_documented cpu" and ok: "region_ok g"
  shows "read_batches cpu (pre @ region_image g @ rest) (length pre) r =
    read_batches cpu (pre @ region_image g @ rest) (length pre + length (region_image g)) (region_result r g)"
proof -
  obtain ss p where img: "region_image g = take 16 (batch_image ss) @ p"
    and len: "length ss \<le> 0xFFFFFFFF" "length p = 24 * length ss"
    and res: "region_result r g = (if crc32c_spec p = crc32c_spec (payload_image ss)
      then r\<lparr>batches := batches r + 1, samples := samples r + of_nat (length ss),
             delivered_batches := delivered_batches r @ [samples_of (length ss) p]\<rparr>
      else r\<lparr>corrupt_batches := corrupt_batches r + 1\<rparr>)"
  proof (cases g)
    case (Intact ss)
    have "batch_image ss = take 16 (batch_image ss) @ payload_image ss" by (simp add: batch_image_def)
    then show thesis
      using that [of ss "payload_image ss"] Intact ok samples_of_payload [of ss "[]"] by simp
  next
    case (Damaged ss p)
    then show thesis using that [of ss p] ok by simp
  qed
  define d where "d = pre @ region_image g @ rest"
  have n: "length (region_image g) = required_buffer_size (length ss)"
    using len by (simp add: img required_buffer_size_def)
  have "length (take 16 (batch_image ss)) = 16" by (simp add: required_buffer_size_def)
  then have hd: "read_at d (length pre) 16 = take 16 (batch_image ss)"
    and pl: "read_at d (length pre + 16) (required_buffer_size (length ss) - 16) = p"
    using len by (simp_all add: d_def read_at_def img required_buffer_size_def)
  have "read_batches cpu d (length pre) r = read_batches cpu d (length pre + length (region_image g))
      (if crc32c cpu p = crc32c_spec (payload_image ss)
       then r\<lparr>batches := batches r + 1, samples := samples r + of_nat (length ss),
              delivered_batches := delivered_batches r @ [samples_of (length ss) p]\<rparr>
       else r\<lparr>corrupt_batches := corrupt_batches r + 1\<rparr>)"
  proof -
    have "16 \<le> required_buffer_size (length ss)" by (simp add: required_buffer_size_def)
    then have c: "\<not> length d \<le> length pre" "\<not> length d - length pre < 16"
      "\<not> length d < length pre + required_buffer_size (length ss)"
      using n by (auto simp: d_def)
    obtain st where "peek (take 16 (batch_image ss)) zero_header 0 = (st,
        \<lparr>magic = kMagic, version = kVersion, flags = 0, count = of_nat (length ss),
         payload_crc32c = crc32c_spec (payload_image ss)\<rparr>, required_buffer_size (length ss))"
      "st \<noteq> DS_bad_magic" "st \<noteq> DS_unsupported_version"
      using peek_batch_header [OF len(1), of "take 16 (batch_image ss)" zero_header 0]
      by (auto simp: required_buffer_size_def)
    then show ?thesis
      unfolding n using c by (subst read_batches.simps) (simp add: hd pl unat_count len Let_def)
  qed
  then show ?thesis by (simp add: d_def res crc32c_spec [OF doc])
qed

lemma read_batches_regions:
  assumes "sse42_documented cpu" "\<forall>g \<in> set gs. region_ok g"
  shows "read_batches cpu (pre @ concat (map region_image gs) @ rest) (length pre) r =
    read_batches cpu (pre @ concat (map region_image gs) @ rest)
      (length pre + length (concat (map region_image gs))) (foldl region_result r gs)"
  using assms(2)
proof (induction gs arbitrary: pre r)
  case (Cons g gs)
  show ?case
    using read_batches_region [OF assms(1), of g pre "concat (map region_image gs) @ rest" r]
      Cons.IH [of "pre @ region_image g" "region_result r g"] Cons.prems
    by (simp add: add.assoc)
qed simp

text \<open>What is left of a batch when the writer was stopped in the middle of it.\<close>

lemma read_batches_tail:
  assumes "length ss \<le> 0xFFFFFFFF" "n < required_buffer_size (length ss)"
  shows "read_batches cpu (pre @ take n (batch_image ss)) (length pre) r =
    (if n = 0 then r else r\<lparr>truncated_tail := True\<rparr>)"
proof (cases "16 \<le> n")
  case True
  let ?d = "pre @ take n (batch_image ss)"
  have "read_at ?d (length pre) 16 = take 16 (batch_image ss)"
    using True by (simp add: read_at_def min_def)
  moreover have "length ?d = length pre + n" using assms(2) by simp
  ultimately show ?thesis
    using True assms peek_batch_header [OF assms(1), of "take 16 (batch_image ss)" zero_header 0]
    by (subst read_batches.simps) (simp add: required_buffer_size_def split: if_splits)
next
  case False
  then show ?thesis using assms(2) by (subst read_batches.simps) auto
qed

definition intact_of :: "region list \<Rightarrow> TelemetrySample list list" where
  "intact_of gs = concat (map (\<lambda>g. case g of Intact ss \<Rightarrow> [ss] | Damaged _ _ \<Rightarrow> []) gs)"

lemma foldl_region_result:
  "delivered_batches (foldl region_result r gs) = delivered_batches r @ intact_of gs \<and>
   batches (foldl region_result r gs) = batches r + of_nat (length (intact_of gs)) \<and>
   samples (foldl region_result r gs) = samples r + of_nat (length (concat (intact_of gs))) \<and>
   corrupt_batches (foldl region_result r gs) = corrupt_batches r + of_nat (length gs - length (intact_of gs)) \<and>
   length (intact_of gs) \<le> length gs \<and>
   tags (foldl region_result r gs) = tags r \<and> error (foldl region_result r gs) = error r \<and>
   res_created_ms (foldl region_result r gs) = res_created_ms r \<and>
   truncated_tail (foldl region_result r gs) = truncated_tail r"
proof (induction gs arbitrary: r)
  case (Cons g gs)
  show ?case using Cons.IH [of "region_result r g"]
    by (cases g) (auto simp: intact_of_def Suc_diff_le algebra_simps)
qed (simp add: intact_of_def)

text \<open>Arbitrary bytes: what is delivered was accepted somewhere.\<close>

lemma read_batches_sound:
  assumes "sse42_documented cpu" and "ss \<in> set (delivered_batches (read_batches cpu data pos r))"
  shows "ss \<in> set (delivered_batches r) \<or> (\<exists>pos. accepts (drop pos data) \<and>
      length ss = unat (count (header_of (take 16 (drop pos data)))) \<and>
      payload_image ss = take (24 * length ss) (drop (pos + 16) data))"
  using assms
proof (induction cpu data pos r rule: read_batches.induct)
  case (1 cpu data pos r)
  note doc = "1.prems"(1)
  obtain st h n where pk: "peek (read_at data pos 16) zero_header 0 = (st, h, n)"
    by (cases "peek (read_at data pos 16) zero_header 0") auto
  consider "length data \<le> pos \<or> length data - pos < 16" | (bad) "pos + 16 \<le> length data"
      "st = DS_bad_magic \<or> st = DS_unsupported_version"
    | (cut) "pos + 16 \<le> length data" "st \<noteq> DS_bad_magic" "st \<noteq> DS_unsupported_version" "length data < pos + n"
    | (whole) "pos + 16 \<le> length data" "st \<noteq> DS_bad_magic" "st \<noteq> DS_unsupported_version" "pos + n \<le> length data"
    by linarith
  then show ?case
  proof cases
    case 1
    then show ?thesis using "1.prems" by (subst (asm) read_batches.simps) (auto split: if_splits)
  next
    case bad
    then have "\<not> length data \<le> pos" "\<not> length data - pos < 16" by linarith+
    then have "read_batches cpu data pos r = read_batches cpu data (resync data (pos + 8))
        (r\<lparr>corrupt_batches := corrupt_batches r + 1\<rparr>)"
      using pk bad(2) by (subst read_batches.simps) auto
    then have "ss \<in> set (delivered_batches (read_batches cpu data (resync data (pos + 8))
        (r\<lparr>corrupt_batches := corrupt_batches r + 1\<rparr>)))"
      using "1.prems" by simp
    with "1.IH"(1) [OF _ _ pk [symmetric] refl refl _ doc] bad show ?thesis by auto
  next
    case cut
    then have "\<not> length data \<le> pos" "\<not> length data - pos < 16" by linarith+
    then have "read_batches cpu data pos r = r\<lparr>truncated_tail := True\<rparr>"
      using pk cut by (subst read_batches.simps) auto
    then show ?thesis using "1.prems" by simp
  next
    case whole
    define p where "p = read_at data (pos + 16) (n - 16)"
    define xs where "xs = samples_of (unat (count h)) p"
    let ?r = "if crc32c cpu p = payload_crc32c h
      then r\<lparr>batches := batches r + 1, samples := samples r + of_nat (length xs),
             delivered_batches := delivered_batches r @ [xs]\<rparr>
      else r\<lparr>corrupt_batches := corrupt_batches r + 1\<rparr>"
    from whole have "\<not> length data \<le> pos" "\<not> length data - pos < 16" "\<not> length data < pos + n"
      by linarith+
    then have "read_batches cpu data pos r = read_batches cpu data (pos + n) ?r"
      using pk whole by (subst read_batches.simps) (auto simp: Let_def p_def xs_def)
    then have "ss \<in> set (delivered_batches (read_batches cpu data (pos + n) ?r))"
      using "1.prems" by simp
    with "1.IH"(2) [OF _ _ pk [symmetric] refl refl _ _ p_def xs_def doc] whole
    have "ss \<in> set (delivered_batches ?r) \<or> (\<exists>pos. accepts (drop pos data) \<and>
      length ss = unat (count (header_of (take 16 (drop pos data)))) \<and>
      payload_image ss = take (24 * length ss) (drop (pos + 16) data))" by auto
    moreover have "accepts (drop pos data) \<and> length xs = unat (count (header_of (take 16 (drop pos data)))) \<and>
        payload_image xs = take (24 * length xs) (drop (pos + 16) data)"
      if "crc32c cpu p = payload_crc32c h"
    proof -
      have len: "length (read_at data pos 16) = 16" using whole by (simp add: read_at_def)
      have h: "h = header_of (read_at data pos 16)" "magic h = kMagic" "version h = kVersion"
        "n = required_buffer_size (unat (count h))"
        using pk whole len by (auto simp: peek_def Let_def split: if_splits)
      then have p: "p = take (24 * unat (count h)) (drop (pos + 16) data)"
        by (simp add: p_def read_at_def required_buffer_size_def mult.commute)
      have "length p = 24 * unat (count h)" using whole h by (simp add: p required_buffer_size_def)
      then have "payload_image xs = p" by (simp add: xs_def payload_image_samples_of)
      then show ?thesis
        using that h whole p
        by (auto simp: accepts_def read_at_def xs_def required_buffer_size_def add.commute crc32c_spec [OF doc])
    qed
    ultimately show ?thesis by (auto split: if_splits)
  qed
qed

section \<open>Properties\<close>

lemma read_segment_regions:
  assumes "json_documented J" "sse42_documented cpu" "encode_tag_table J ts = Inr text"
    "length text < 2 ^ 32" "\<forall>g \<in> set gs. region_ok g" "length torn \<le> 0xFFFFFFFF"
    "n < required_buffer_size (length torn)"
  shows "let res = read_segment J cpu path (Some (segment_prefix cpu created (bytes_of text) @
        concat (map region_image gs) @ take n (batch_image torn)))
    in tags res = ts \<and> res_created_ms res = created \<and> error res = [] \<and>
      delivered_batches res = intact_of gs \<and> batches res = of_nat (length (intact_of gs)) \<and>
      samples res = of_nat (length (concat (intact_of gs))) \<and>
      corrupt_batches res = of_nat (length gs - length (intact_of gs)) \<and> truncated_tail res = (n \<noteq> 0)"
proof -
  let ?pre = "segment_prefix cpu created (bytes_of text)"
  let ?tail = "take n (batch_image torn)"
  let ?r = "empty_result\<lparr>tags := ts, res_created_ms := created\<rparr>"
  have "read_segment J cpu path (Some (?pre @ concat (map region_image gs) @ ?tail)) =
      read_batches cpu (?pre @ concat (map region_image gs) @ ?tail) (length ?pre) ?r"
    by (rule read_segment_prefix) (use assms in auto)
  also have "\<dots> = read_batches cpu ((?pre @ concat (map region_image gs)) @ ?tail)
      (length (?pre @ concat (map region_image gs))) (foldl region_result ?r gs)"
    using read_batches_regions [OF assms(2,5), of ?pre ?tail ?r] by simp
  also have "\<dots> = (if n = 0 then foldl region_result ?r gs
      else (foldl region_result ?r gs)\<lparr>truncated_tail := True\<rparr>)"
    by (rule read_batches_tail [OF assms(6,7)])
  finally show ?thesis
    using foldl_region_result [of ?r gs] by (auto simp: empty_result_def Let_def)
qed

text \<open>C21. A segment reads back as it was written: after the header and tag table, every intact batch
  is delivered, in order; batches whose payload was damaged later are skipped and counted, without
  losing their neighbours; and a last batch cut anywhere by a crash is reported as a truncated tail
  and delivers nothing. The tag table comes back as the writer's tags.\<close>

theorem read_segment_recovers:
  assumes "json_documented J" "sse42_documented cpu" "encode_tag_table J ts = Inr text"
    "length text < 2 ^ 32" "\<forall>g \<in> set gs. region_ok g" "length torn \<le> 0xFFFFFFFF"
    "n < required_buffer_size (length torn)"
  shows "let res = read_segment J cpu path (Some (segment_prefix cpu created (bytes_of text) @
        concat (map region_image gs) @ take n (batch_image torn)))
    in tags res = ts \<and> res_created_ms res = created \<and> error res = [] \<and>
      delivered_batches res = intact_of gs \<and> batches res = of_nat (length (intact_of gs)) \<and>
      samples res = of_nat (length (concat (intact_of gs))) \<and>
      corrupt_batches res = of_nat (length gs - length (intact_of gs)) \<and> truncated_tail res = (n \<noteq> 0)"
  using assms by (rule read_segment_regions)

text \<open>One intact batch, one damaged one and a cut third, after an empty tag table.\<close>

definition demo_sample :: TelemetrySample where
  "demo_sample = sample_of (replicate 24 7)"

lemma demo_damaged: "region_ok (Damaged [demo_sample] (replicate 20 7 @ [9, 9, 9, 9]))"
proof -
  have img: "payload_image [demo_sample] = replicate 20 7 @ replicate 4 7 @ []"
    using sample_image_of [of "replicate 24 7"] replicate_add [of 20 4 "7 :: u8"]
    by (simp add: demo_sample_def)
  have "[9, 9, 9, 9] \<noteq> replicate 4 (7 :: u8)" by (simp add: numeral_eq_Suc)
  then have "crc32c_spec (replicate 20 7 @ [9, 9, 9, 9] @ []) \<noteq> crc32c_spec (replicate 20 7 @ replicate 4 7 @ [])"
    by (intro crc32c_burst) auto
  then show ?thesis by (simp only: region_ok.simps img) simp
qed

lemma length_jv_dump: "j_dump jv_lib v = Inr (replicate (to_nat v) CHR ''x'')"
  by (simp add: jv_lib_def)

text \<open>A library with a short text form for the one document the witness writes.\<close>

definition short_lib :: "jvalue Json" where
  "short_lib = jv_lib\<lparr>j_dump := \<lambda>v. if v = J_object [(''format'', J_string ''ironpulse-export''), (''tags'', J_array [])]
       then Inr ''x'' else Inl ''unsupported'',
     j_parse := \<lambda>s. Inr (J_object [(''format'', J_string ''ironpulse-export''), (''tags'', J_array [])])\<rparr>"

lemma json_documented_short_lib: "json_documented short_lib"
  using json_documented_jv_lib by (simp add: json_documented_def short_lib_def)

theorem read_segment_recovers_witness:
  "delivered_batches (read_segment short_lib old_cpu ''f'' (Some (segment_prefix new_cpu 5 (bytes_of ''x'') @
     concat (map region_image [Intact [demo_sample], Damaged [demo_sample] (replicate 20 7 @ [9, 9, 9, 9])]) @
     take 20 (batch_image [demo_sample])))) = [[demo_sample]]"
proof -
  have enc: "encode_tag_table short_lib [] = Inr ''x''"
    by (simp add: encode_tag_table_def short_lib_def jv_lib_def)
  have same: "segment_prefix new_cpu 5 t = segment_prefix old_cpu 5 t" for t
    using crc32c_spec [OF documented_cpus(1)] crc32c_spec [OF documented_cpus(2)]
    by (simp add: segment_prefix_def)
  from read_segment_recovers [OF json_documented_short_lib documented_cpus(1) enc, of
      "[Intact [demo_sample], Damaged [demo_sample] (replicate 20 7 @ [9, 9, 9, 9])]" "[demo_sample]" 20
      "''f''" 5]
  show ?thesis
    using demo_damaged unfolding same
    by (simp add: Let_def intact_of_def required_buffer_size_def del: region_ok.simps(2))
qed

text \<open>Whatever bytes a file holds, the reader terminates and delivers only samples that some
  place in the file vouches for: the payload of a complete batch with valid magic, version and
  checksum.\<close>

theorem read_segment_sound:
  assumes "sse42_documented cpu" and "ss \<in> set (delivered_batches (read_segment J cpu path (Some data)))"
  shows "\<exists>pos. accepts (drop pos data) \<and> length ss = unat (count (header_of (take 16 (drop pos data)))) \<and>
    payload_image ss = take (24 * length ss) (drop (pos + 16) data)"
proof -
  have "ss \<in> set (delivered_batches r) \<or> (\<exists>pos. accepts (drop pos data) \<and>
      length ss = unat (count (header_of (take 16 (drop pos data)))) \<and>
      payload_image ss = take (24 * length ss) (drop (pos + 16) data))"
    if "ss \<in> set (delivered_batches (read_batches cpu data pos r))" for pos r
    using that by (rule read_batches_sound [OF assms(1)])
  moreover have "delivered_batches (read_segment J cpu path (Some data)) = [] \<or> (\<exists>pos r.
      read_segment J cpu path (Some data) = read_batches cpu data pos r \<and> delivered_batches r = [])"
    by (cases "decode_tag_table J (text_of (take (unat (tag_table_bytes
          (segment_header_of (take 32 data)))) (drop 32 data)))")
      (auto simp: read_segment_def Let_def empty_result_def intro!: exI)
  ultimately show ?thesis using assms(2) by fastforce
qed

theorem read_segment_sound_witness:
  "\<exists>pos. accepts (drop pos (segment_prefix old_cpu 5 (bytes_of ''x'') @ region_image (Intact [demo_sample]))) \<and>
     payload_image [demo_sample] = take 24 (drop (pos + 16)
       (segment_prefix old_cpu 5 (bytes_of ''x'') @ region_image (Intact [demo_sample])))"
proof -
  let ?data = "segment_prefix old_cpu 5 (bytes_of ''x'') @ region_image (Intact [demo_sample])"
  have enc: "encode_tag_table short_lib [] = Inr ''x''"
    by (simp add: encode_tag_table_def short_lib_def jv_lib_def)
  from read_segment_regions [OF json_documented_short_lib documented_cpus(1) enc, of
      "[Intact [demo_sample]]" "[]" 0 "''f''" 5]
  have "delivered_batches (read_segment short_lib old_cpu ''f'' (Some ?data)) = [[demo_sample]]"
    by (simp add: Let_def intact_of_def required_buffer_size_def)
  then have "[demo_sample] \<in> set (delivered_batches (read_segment short_lib old_cpu ''f'' (Some ?data)))"
    by simp
  from read_segment_sound [OF documented_cpus(1) this] show ?thesis by (auto simp del: region_image.simps)
qed

end
