(* ===== verification/SegmentWriter.thy ===== *)
theory SegmentWriter
  imports Segment "HOL-Library.AList" "HOL-Library.Multiset"
begin

text \<open>
  \<open>ingest/segment.cpp\<close>, the writer: start-up recovery, rotation, the disk budget, and writing a batch.
  The export directory is an association list from file names to contents, in the order a directory
  iterator would give; the clock and every outcome of the operating system (creating, writing,
  renaming, removing a file) are inputs of an operation (\<open>Io\<close>). A thrown \<open>std::runtime_error\<close> is
  returned beside the state it leaves.
\<close>

section \<open>State\<close>

type_synonym dir = "(string \<times> u8 list) list"

record SegmentWriter =
  max_segment_bytes :: u64
  max_total_bytes :: u64
  tag_table :: "u8 list"
  is_open :: bool
  partial_path :: string
  final_path :: string
  segment_bytes :: u64
  sequence :: u64
  recovered :: nat
  bytes_written :: u64
  segments_completed :: u64
  segments_deleted :: u64
  files :: dir

text \<open>What the operating system does: \<open>None\<close> is a write that succeeds, \<open>Some n\<close> one that fails after
  \<open>n\<close> bytes.\<close>

record Io =
  io_now_ms :: int
  io_create :: bool
  io_header :: "nat option"
  io_write :: "nat option"
  io_rename :: "string \<Rightarrow> bool"
  io_remove :: "string \<Rightarrow> bool"

definition good_io :: "int \<Rightarrow> Io" where
  "good_io now = \<lparr>io_now_ms = now, io_create = True, io_header = None, io_write = None,
     io_rename = \<lambda>_. True, io_remove = \<lambda>_. True\<rparr>"

definition rename_file :: "string \<Rightarrow> string \<Rightarrow> dir \<Rightarrow> dir" where
  "rename_file old new d = (case map_of d old of None \<Rightarrow> d
     | Some bs \<Rightarrow> AList.update new bs (AList.delete old d))"

definition append_file :: "string \<Rightarrow> u8 list \<Rightarrow> dir \<Rightarrow> dir" where
  "append_file name bs d = (case map_of d name of None \<Rightarrow> d
     | Some old \<Rightarrow> AList.update name (old @ bs) d)"

definition written :: "nat option \<Rightarrow> u8 list \<Rightarrow> u8 list" where
  "written outcome bs = (case outcome of None \<Rightarrow> bs | Some n \<Rightarrow> take n bs)"

section \<open>File names\<close>

text \<open>The civil date of a day count, for \<open>gmtime_r\<close> and \<open>strftime("%Y%m%dT%H%M%S")\<close>.\<close>

definition civil_from_days :: "int \<Rightarrow> int \<times> int \<times> int" where
  "civil_from_days days =
     (let z = days + 719468;
          era = z div 146097;
          doe = z mod 146097;
          yoe = (doe - doe div 1460 + doe div 36524 - doe div 146096) div 365;
          doy = doe - (365 * yoe + yoe div 4 - yoe div 100);
          mp = (5 * doy + 2) div 153;
          d = doy - (153 * mp + 2) div 5 + 1;
          m = (if mp < 10 then mp + 3 else mp - 9);
          y = yoe + era * 400
      in (if m \<le> 2 then y + 1 else y, m, d))"

definition utc_stamp :: "int \<Rightarrow> string" where
  "utc_stamp seconds =
     (let (y, m, d) = civil_from_days (seconds div 86400);
          r = seconds mod 86400;
          two = (\<lambda>i. pad0 2 (dec_nat (nat i)))
      in dec_int y @ two m @ two d @ ''T'' @ two (r div 3600) @ two (r mod 3600 div 60) @ two (r mod 60))"

text \<open>\<open>%03d\<close> of a possibly negative \<open>int\<close>.\<close>

definition fmt_03d :: "int \<Rightarrow> string" where
  "fmt_03d i = (if i < 0 then CHR ''-'' # pad0 2 (dec_nat (nat (- i))) else pad0 3 (dec_nat (nat i)))"

definition segment_stem :: "int \<Rightarrow> u64 \<Rightarrow> string" where
  "segment_stem created seq_no = ''telemetry-'' @ utc_stamp (c_div created 1000) @ ''-'' @
     fmt_03d (c_mod created 1000) @ ''Z-'' @ pad0 6 (dec_nat (unat seq_no))"

section \<open>Operations\<close>

definition finish_segment :: "Io \<Rightarrow> SegmentWriter \<Rightarrow> SegmentWriter" where
  "finish_segment io s =
     (if \<not> is_open s then s
      else s\<lparr>is_open := False,
             files := (if io_rename io (partial_path s)
                       then rename_file (partial_path s) (final_path s) (files s) else files s),
             segments_completed := segments_completed s + 1, segment_bytes := 0\<rparr>)"

definition close_writer :: "Io \<Rightarrow> SegmentWriter \<Rightarrow> SegmentWriter" where
  "close_writer io s = finish_segment io s"

definition is_finished_name :: "string \<Rightarrow> bool" where
  "is_finished_name name \<longleftrightarrow> starts_with name ''telemetry-'' \<and> ends_with name kSegmentExtension"

text \<open>The deletion loop over the finished segments in name order, with the running total.\<close>

fun delete_oldest :: "Io \<Rightarrow> u64 \<Rightarrow> (string \<times> u64) list \<Rightarrow> u64 \<Rightarrow> SegmentWriter \<Rightarrow> SegmentWriter" where
  "delete_oldest io reserve [] tot s = s"
| "delete_oldest io reserve ((name, bytes) # rest) tot s =
     (if tot + reserve \<le> max_total_bytes s then s
      else if io_remove io name
      then delete_oldest io reserve rest (tot - bytes)
             (s\<lparr>files := AList.delete name (files s), segments_deleted := segments_deleted s + 1\<rparr>)
      else delete_oldest io reserve rest tot s)"

definition finished_segments :: "SegmentWriter \<Rightarrow> (string \<times> u64) list" where
  "finished_segments s = map (\<lambda>(name, bs). (name, of_nat (length bs)))
     (filter (\<lambda>(name, bs). is_finished_name name) (files s))"

definition enforce_total_limit :: "Io \<Rightarrow> u64 \<Rightarrow> SegmentWriter \<Rightarrow> SegmentWriter" where
  "enforce_total_limit io reserve s =
     (if max_total_bytes s = 0 then s
      else let finished = finished_segments s;
               tot = foldl (\<lambda>t (_, bytes). t + bytes) (segment_bytes s) finished
           in delete_oldest io reserve (sort_key fst finished) tot s)"

text \<open>The \<open>do\<close> loop of \<open>open_segment\<close>: the next sequence number whose file names are both free.
  The fuel bounds the turns; with a directory of \<open>n\<close> files, \<open>n + 1\<close> turns suffice.\<close>

fun free_sequence :: "nat \<Rightarrow> dir \<Rightarrow> int \<Rightarrow> u64 \<Rightarrow> u64 option" where
  "free_sequence 0 d created seq_no = None"
| "free_sequence (Suc fuel) d created seq_no =
     (let next = seq_no + 1;
          final = segment_stem created next @ kSegmentExtension
      in if map_of d final \<noteq> None \<or> map_of d (final @ kPartialSuffix) \<noteq> None
         then free_sequence fuel d created next else Some next)"

definition open_segment :: "Cpu \<Rightarrow> Io \<Rightarrow> SegmentWriter \<Rightarrow> (SegmentWriter \<times> string option) ub" where
  "open_segment cpu io s =
     (let created = io_now_ms io in
      case free_sequence (length (files s) + 1) (files s) created (sequence s) of None \<Rightarrow> None
      | Some seq_no \<Rightarrow>
        let final = segment_stem created seq_no @ kSegmentExtension;
            partial = final @ kPartialSuffix;
            s = s\<lparr>sequence := seq_no, final_path := final, partial_path := partial\<rparr>
        in if \<not> io_create io then Some (s, Some (''cannot create export segment '' @ partial))
           else let prefix = segment_prefix cpu (of_int created) (tag_table s);
                    s = s\<lparr>is_open := True,
                          files := AList.update partial (written (io_header io) prefix) (files s)\<rparr>
                in if io_header io \<noteq> None
                   then Some (finish_segment io s,
                     Some (''cannot write export segment header to '' @ partial))
                   else Some (s\<lparr>segment_bytes := of_nat (length prefix),
                     bytes_written := bytes_written s + of_nat (length prefix)\<rparr>, None))"

definition append_batch :: "Io \<Rightarrow> u8 list \<Rightarrow> SegmentWriter \<Rightarrow> SegmentWriter \<times> string option" where
  "append_batch io b s =
     (let s = s\<lparr>files := append_file (partial_path s) (written (io_write io) b) (files s)\<rparr>
      in if io_write io \<noteq> None
         then (finish_segment io s, Some (''write to export segment '' @ final_path s @ '' failed''))
         else (s\<lparr>segment_bytes := segment_bytes s + of_nat (length b),
                 bytes_written := bytes_written s + of_nat (length b)\<rparr>, None))"

definition write_batch :: "Cpu \<Rightarrow> Io \<Rightarrow> u8 list \<Rightarrow> SegmentWriter \<Rightarrow> (SegmentWriter \<times> string option) ub" where
  "write_batch cpu io b s =
     (let reopen = (\<lambda>s. open_segment cpu io (enforce_total_limit io (max_segment_bytes s) s)) in
      case (if \<not> is_open s then reopen s
            else if max_segment_bytes s < segment_bytes s + of_nat (length b)
            then reopen (finish_segment io s)
            else Some (s, None)) of
        None \<Rightarrow> None
      | Some (s, Some e) \<Rightarrow> Some (s, Some e)
      | Some (s, None) \<Rightarrow> Some (append_batch io b s))"

text \<open>The constructor: finalise what a crash left behind, then apply the limit. \<open>create_directories\<close>
  and the tag table's \<open>dump\<close> can throw.\<close>

definition recover :: "Io \<Rightarrow> dir \<Rightarrow> nat \<times> dir" where
  "recover io d =
     foldl (\<lambda>(n, d) name. if ends_with name (kSegmentExtension @ kPartialSuffix) \<and> io_rename io name
         then (n + 1, rename_file name (take (length name - length kPartialSuffix) name) d)
         else (n, d))
       (0, d) (map fst d)"

definition SegmentWriter_make ::
  "'j Json \<Rightarrow> Io \<Rightarrow> u64 \<Rightarrow> u64 \<Rightarrow> TagInfo list \<Rightarrow> dir \<Rightarrow> string + SegmentWriter" where
  "SegmentWriter_make J io max_segment max_total ts d =
     (case encode_tag_table J ts of Inl e \<Rightarrow> Inl e
      | Inr table \<Rightarrow>
        let (n, d) = recover io d
        in Inr (enforce_total_limit io 0
          \<lparr>max_segment_bytes = max_segment, max_total_bytes = max_total, tag_table = bytes_of table,
           is_open = False, partial_path = [], final_path = [], segment_bytes = 0, sequence = 0,
           recovered = n, bytes_written = 0, segments_completed = 0, segments_deleted = 0,
           files = d\<rparr>))"

section \<open>Fresh names\<close>

lemma segment_stem_inject: "segment_stem c a = segment_stem c b \<longleftrightarrow> a = b"
  by (simp add: segment_stem_def flip: word_eq_iff_unsigned)

lemma free_sequence_Some:
  "free_sequence fuel d c q = Some r \<Longrightarrow> map_of d (segment_stem c r @ kSegmentExtension) = None \<and>
     map_of d (segment_stem c r @ kSegmentExtension @ kPartialSuffix) = None"
  by (induction fuel arbitrary: q) (auto simp: Let_def split: if_splits)

lemma free_sequence_None:
  "free_sequence fuel d c q = None \<Longrightarrow> \<forall>i \<in> {1..fuel}. \<exists>p \<in> {[], kPartialSuffix}.
     segment_stem c (q + of_nat i) @ kSegmentExtension @ p \<in> fst ` set d"
proof (induction fuel arbitrary: q)
  case (Suc fuel)
  show ?case
  proof
    fix i assume i: "i \<in> {1..Suc fuel}"
    from Suc.prems have taken: "map_of d (segment_stem c (q + 1) @ kSegmentExtension) \<noteq> None \<or>
        map_of d (segment_stem c (q + 1) @ kSegmentExtension @ kPartialSuffix) \<noteq> None"
      and rest: "free_sequence fuel d c (q + 1) = None"
      by (auto simp: Let_def split: if_splits)
    show "\<exists>p \<in> {[], kPartialSuffix}. segment_stem c (q + of_nat i) @ kSegmentExtension @ p \<in> fst ` set d"
    proof (cases "i = 1")
      case True
      then show ?thesis using taken by (auto simp: map_of_eq_None_iff)
    next
      case False
      then have "i - 1 \<in> {1..fuel}" "q + 1 + of_nat (i - 1) = q + of_nat i" using i by auto
      with Suc.IH [OF rest] show ?thesis by metis
    qed
  qed
qed simp

text \<open>Every taken sequence number takes a file of its own, so the loop ends.\<close>

lemma free_sequence_total:
  assumes "length d < 2 ^ 63"
  shows "\<exists>r. free_sequence (length d + 1) d c q = Some r"
proof (rule ccontr)
  assume "\<nexists>r. free_sequence (length d + 1) d c q = Some r"
  then have "free_sequence (length d + 1) d c q = None" by (cases "free_sequence (length d + 1) d c q") auto
  note taken = free_sequence_None [OF this]
  have "\<forall>i \<in> {1..length d + 1}. \<exists>p. p \<in> {[], kPartialSuffix} \<and>
      segment_stem c (q + of_nat i) @ kSegmentExtension @ p \<in> fst ` set d"
    using taken unfolding Bex_def .
  from bchoice [OF this] obtain f where f0: "\<forall>i \<in> {1..length d + 1}. f i \<in> {[], kPartialSuffix} \<and>
      segment_stem c (q + of_nat i) @ kSegmentExtension @ f i \<in> fst ` set d" by (elim exE)
  define g where "g i = segment_stem c (q + of_nat i) @ kSegmentExtension @ f i" for i
  have f: "f i \<in> {[], kPartialSuffix}" "g i \<in> fst ` set d" if "i \<in> {1..length d + 1}" for i
    using f0 that by (simp_all add: g_def)
  have "inj_on g {1..length d + 1}"
  proof (rule inj_onI)
    fix i j assume ij: "i \<in> {1..length d + 1}" "j \<in> {1..length d + 1}" and eq: "g i = g j"
    have last: "last (g k) = (if f k = [] then CHR ''g'' else CHR ''t'')" if "k \<in> {1..length d + 1}" for k
      using f(1) [OF that] by (auto simp: g_def kSegmentExtension_def kPartialSuffix_def)
    have "f i = f j"
      using f(1) [OF ij(1)] f(1) [OF ij(2)] last [OF ij(1)] last [OF ij(2)] eq
      by (auto split: if_splits)
    then have "segment_stem c (q + of_nat i) = segment_stem c (q + of_nat j)" using eq by (simp add: g_def)
    then have eq': "(of_nat i :: u64) = of_nat j" unfolding segment_stem_inject by simp
    have "i < 2 ^ LENGTH(64)" "j < 2 ^ LENGTH(64)" using ij assms by simp_all
    from this [THEN unat_of_nat_less] eq' show "i = j" by metis
  qed
  then have "card {1..length d + 1} \<le> card (fst ` set d)"
    using f(2) by (intro card_inj_on_le [of g]) auto
  also have "\<dots> \<le> length d" using card_image_le [of "set d" fst] card_length [of d] by simp
  finally show False by simp
qed

section \<open>The disk budget\<close>

definition bytes_in :: "(string \<times> u64) list \<Rightarrow> nat" where
  "bytes_in fs = sum_list (map (unat \<circ> snd) fs)"

lemma delete_oldest_files:
  "\<exists>D \<subseteq> fst ` set fs. map_of (files (delete_oldest io reserve fs tot s)) =
      (map_of (files s)) |` (- D) \<and>
    delete_oldest io reserve fs tot s = s\<lparr>files := files (delete_oldest io reserve fs tot s),
      segments_deleted := segments_deleted (delete_oldest io reserve fs tot s)\<rparr>"
proof (induction fs arbitrary: tot s)
  case Nil
  then show ?case by (auto intro!: exI [of _ "{}"])
next
  case (Cons f fs)
  obtain name bytes where f: "f = (name, bytes)" by force
  consider "tot + reserve \<le> max_total_bytes s" | "\<not> tot + reserve \<le> max_total_bytes s" "io_remove io name"
    | "\<not> tot + reserve \<le> max_total_bytes s" "\<not> io_remove io name" by blast
  then show ?case
  proof cases
    case 1
    then show ?thesis by (auto simp: f intro!: exI [of _ "{}"])
  next
    case 2
    let ?s = "s\<lparr>files := AList.delete name (files s), segments_deleted := segments_deleted s + 1\<rparr>"
    from Cons.IH [of "tot - bytes" ?s] obtain D where
      D: "D \<subseteq> fst ` set fs" "map_of (files (delete_oldest io reserve fs (tot - bytes) ?s)) =
        (map_of (files ?s)) |` (- D)" "delete_oldest io reserve fs (tot - bytes) ?s =
        ?s\<lparr>files := files (delete_oldest io reserve fs (tot - bytes) ?s),
          segments_deleted := segments_deleted (delete_oldest io reserve fs (tot - bytes) ?s)\<rparr>" by blast
    have "map_of (files ?s) |` (- D) = map_of (files s) |` (- insert name D)"
      by (auto simp: delete_conv' restrict_map_def fun_eq_iff)
    with 2 D show ?thesis by (simp add: f) (intro exI [of _ "insert name D"], auto)
  next
    case 3
    with Cons.IH [of tot s] show ?thesis by (auto simp: f)
  qed
qed

text \<open>When removal works, what is deleted is a prefix of the list, and the shortest that meets the
  budget.\<close>

lemma delete_oldest_prefix:
  assumes "\<forall>n. io_remove io n" "bytes_in fs \<le> unat tot" "unat tot + unat reserve < 2 ^ 64"
  shows "\<exists>k \<le> length fs. map_of (files (delete_oldest io reserve fs tot s)) =
      (map_of (files s)) |` (- fst ` set (take k fs)) \<and>
    (k = length fs \<or> unat tot - bytes_in (take k fs) + unat reserve \<le> unat (max_total_bytes s)) \<and>
    (\<forall>j < k. unat (max_total_bytes s) < unat tot - bytes_in (take j fs) + unat reserve)"
  using assms
proof (induction fs arbitrary: tot s)
  case Nil
  then show ?case by (auto simp: restrict_map_def)
next
  case (Cons f fs)
  obtain name bytes where f: "f = (name, bytes)" by force
  have nowrap: "unat (tot + reserve) = unat tot + unat reserve"
    using Cons.prems(3) by (simp add: unat_word_ariths)
  show ?case
  proof (cases "tot + reserve \<le> max_total_bytes s")
    case True
    then have "unat tot + unat reserve \<le> unat (max_total_bytes s)" by (simp add: word_le_nat_alt nowrap)
    with True show ?thesis by (intro exI [of _ 0]) (auto simp: f bytes_in_def restrict_map_def)
  next
    case False
    then have over: "unat (max_total_bytes s) < unat tot + unat reserve"
      by (simp add: word_le_nat_alt nowrap)
    let ?s = "s\<lparr>files := AList.delete name (files s), segments_deleted := segments_deleted s + 1\<rparr>"
    have le: "unat bytes \<le> unat tot" using Cons.prems(2) by (simp add: f bytes_in_def)
    then have sub: "unat (tot - bytes) = unat tot - unat bytes"
      by (simp add: unat_sub_if_size word_le_nat_alt)
    have "\<exists>k \<le> length fs. map_of (files (delete_oldest io reserve fs (tot - bytes) ?s)) =
        (map_of (files ?s)) |` (- fst ` set (take k fs)) \<and>
      (k = length fs \<or> unat (tot - bytes) - bytes_in (take k fs) + unat reserve \<le> unat (max_total_bytes ?s)) \<and>
      (\<forall>j < k. unat (max_total_bytes ?s) < unat (tot - bytes) - bytes_in (take j fs) + unat reserve)"
      using Cons.prems by (intro Cons.IH) (auto simp: sub f bytes_in_def)
    then obtain k where k: "k \<le> length fs" "map_of (files (delete_oldest io reserve fs (tot - bytes) ?s)) =
        (map_of (files ?s)) |` (- fst ` set (take k fs))"
      "k = length fs \<or> unat tot - unat bytes - bytes_in (take k fs) + unat reserve \<le> unat (max_total_bytes s)"
      "\<forall>j < k. unat (max_total_bytes s) < unat tot - unat bytes - bytes_in (take j fs) + unat reserve"
      by (auto simp: sub)
    have "map_of (files ?s) |` (- fst ` set (take k fs)) =
        map_of (files s) |` (- fst ` set (take (Suc k) (f # fs)))"
      by (auto simp: delete_conv' restrict_map_def fun_eq_iff f)
    moreover have "unat (max_total_bytes s) < unat tot - bytes_in (take j (f # fs)) + unat reserve"
      if "j < Suc k" for j
      using that k(4) over by (cases j) (auto simp: bytes_in_def f)
    ultimately show ?thesis
      using False Cons.prems(1) k(1-3) by (intro exI [of _ "Suc k"]) (auto simp: f bytes_in_def)
  qed
qed

lemma foldl_total:
  "unat t + bytes_in fs < 2 ^ 64 \<Longrightarrow> unat (foldl (\<lambda>t (_, b). t + b) t fs) = unat t + bytes_in fs"
proof (induction fs arbitrary: t)
  case (Cons f fs)
  have "unat (t + snd f) = unat t + unat (snd f)"
    using Cons.prems by (simp add: unat_word_ariths bytes_in_def)
  with Cons show ?case by (cases f) (simp add: bytes_in_def)
qed (simp add: bytes_in_def)

lemma bytes_in_mset: "mset xs = mset ys \<Longrightarrow> bytes_in xs = bytes_in ys"
  unfolding bytes_in_def by (metis mset_map sum_mset_sum_list)

lemma finished_segments_names: "fst ` set (finished_segments s) \<subseteq> {n. is_finished_name n}"
  by (auto simp: finished_segments_def)

section \<open>Writing without loss\<close>

text \<open>The writer's own files: \<open>hist\<close> are the segments it finished (name, creation time, batches),
  the open segment has the batches \<open>cur\<close>; everything else is as it was in \<open>d0\<close>.\<close>

definition seg_content :: "Cpu \<Rightarrow> SegmentWriter \<Rightarrow> int \<Rightarrow> u8 list list \<Rightarrow> u8 list" where
  "seg_content cpu s c g = segment_prefix cpu (of_int c) (tag_table s) @ concat g"

definition writer_at ::
  "Cpu \<Rightarrow> dir \<Rightarrow> (string \<times> int \<times> u8 list list) list \<Rightarrow> int \<Rightarrow> u8 list list \<Rightarrow> SegmentWriter \<Rightarrow> bool" where
  "writer_at cpu d0 hist c cur s \<longleftrightarrow> max_total_bytes s = 0 \<and>
     (\<forall>(n, c, g) \<in> set hist. map_of (files s) n = Some (seg_content cpu s c g)) \<and>
     distinct (map fst hist) \<and> (\<forall>n \<in> fst ` set hist. map_of d0 n = None) \<and>
     (\<forall>n. n \<notin> fst ` set hist \<longrightarrow> (is_open s \<longrightarrow> n \<noteq> partial_path s) \<longrightarrow> map_of (files s) n = map_of d0 n) \<and>
     (is_open s \<longrightarrow> map_of (files s) (partial_path s) = Some (seg_content cpu s c cur) \<and>
        map_of (files s) (final_path s) = None \<and> partial_path s \<noteq> final_path s \<and>
        partial_path s \<notin> fst ` set hist \<and> map_of d0 (partial_path s) = None) \<and>
     (\<not> is_open s \<longrightarrow> cur = []) \<and>
     length (files s) \<le> length d0 + length hist + (if is_open s then 1 else 0)"

lemma writer_at_hist:
  "writer_at cpu d0 hist c cur s \<Longrightarrow> (n, c', g) \<in> set hist \<Longrightarrow>
     map_of (files s) n = Some (seg_content cpu s c' g)"
  by (auto simp: writer_at_def)

lemma writer_at_fresh:
  assumes "writer_at cpu d0 hist c cur s" "(n, c', g) \<in> set hist"
  shows "map_of d0 n = None"
proof -
  have "\<forall>n \<in> fst ` set hist. map_of d0 n = None" using assms(1) unfolding writer_at_def by (elim conjE)
  from bspec [OF this imageI [OF assms(2), of fst]] show ?thesis by simp
qed

lemma writer_at_open:
  assumes "writer_at cpu d0 hist c cur s" "is_open s" "(n, c', g) \<in> set hist"
  shows "n \<noteq> partial_path s"
proof -
  have "partial_path s \<notin> fst ` set hist" using assms(1,2) by (simp add: writer_at_def)
  with imageI [OF assms(3), of fst] show ?thesis by (metis fst_conv)
qed

lemma writer_at_others:
  "writer_at cpu d0 hist c cur s \<Longrightarrow> n \<notin> fst ` set hist \<Longrightarrow> is_open s \<longrightarrow> n \<noteq> partial_path s \<Longrightarrow>
     map_of (files s) n = map_of d0 n"
  by (auto simp: writer_at_def)

lemma length_update: "length (AList.update k v al) \<le> Suc (length al)"
  by (induction al) auto

lemma length_update_same: "map_of al k \<noteq> None \<Longrightarrow> length (AList.update k v al) = length al"
  by (induction al) (auto split: if_splits)

lemma length_delete_less: "map_of al k \<noteq> None \<Longrightarrow> length (AList.delete k al) < length al"
proof (induction al)
  case (Cons a al)
  have "length (AList.delete k al) \<le> length al" by (rule length_delete_le)
  with Cons show ?case by (auto split: if_splits simp: less_Suc_eq_le)
qed simp

lemma finish_at:
  assumes at: "writer_at cpu d0 hist c cur s" and op: "is_open s"
  shows "writer_at cpu d0 (hist @ [(final_path s, c, cur)]) 0 [] (finish_segment (good_io now) s)"
    and "\<not> is_open (finish_segment (good_io now) s)"
    and "tag_table (finish_segment (good_io now) s) = tag_table s"
    and "sequence (finish_segment (good_io now) s) = sequence s"
proof -
  let ?s = "finish_segment (good_io now) s"
  have c: "map_of (files s) (partial_path s) = Some (seg_content cpu s c cur)"
    "map_of (files s) (final_path s) = None" "partial_path s \<noteq> final_path s"
    "partial_path s \<notin> fst ` set hist" "map_of d0 (partial_path s) = None"
    and fs: "length (files s) \<le> length d0 + length hist + 1"
    and hist: "\<forall>(n, c, g) \<in> set hist. map_of (files s) n = Some (seg_content cpu s c g)"
    using at op by (auto simp: writer_at_def)
  have new: "final_path s \<notin> fst ` set hist" using hist c(2) by force
  have d0: "map_of d0 (final_path s) = None" using at op c(2,3) new by (auto simp: writer_at_def)
  have s': "?s = s\<lparr>is_open := False, files := AList.update (final_path s) (seg_content cpu s c cur)
      (AList.delete (partial_path s) (files s)), segments_completed := segments_completed s + 1,
      segment_bytes := 0\<rparr>"
    using op c(1) by (simp add: finish_segment_def good_io_def rename_file_def)
  have files: "map_of (files ?s) = (map_of (files s))(partial_path s := None, final_path s \<mapsto> seg_content cpu s c cur)"
    by (simp add: s' update_conv' delete_conv' fun_eq_iff)
  have "length (files ?s) \<le> length (files s)"
    using length_update [of "final_path s" _ "AList.delete (partial_path s) (files s)"]
      length_delete_less [of "files s" "partial_path s"] c(1)
    by (auto simp: s' intro: order_trans Suc_leI)
  moreover have "seg_content cpu ?s = seg_content cpu s" by (simp add: s' seg_content_def fun_eq_iff)
  moreover have "\<not> is_open ?s" "max_total_bytes ?s = max_total_bytes s" by (simp_all add: s')
  moreover have "\<forall>(n, c, g) \<in> set (hist @ [(final_path s, c, cur)]). map_of (files ?s) n = Some (seg_content cpu s c g)"
  proof -
    have "n \<noteq> final_path s \<and> n \<noteq> partial_path s" if "(n, c', g) \<in> set hist" for n c' g
      using imageI [OF that, of fst] new c(4) by (metis fst_conv)
    then show ?thesis using writer_at_hist [OF at] by (force simp: files)
  qed
  moreover have "\<forall>n. n \<notin> fst ` set (hist @ [(final_path s, c, cur)]) \<longrightarrow> map_of (files ?s) n = map_of d0 n"
    using writer_at_others [OF at] c(5) by (auto simp: files)
  moreover have "max_total_bytes s = 0" "distinct (map fst hist)" "\<forall>n \<in> fst ` set hist. map_of d0 n = None"
    using at by (simp_all add: writer_at_def)
  ultimately show "writer_at cpu d0 (hist @ [(final_path s, c, cur)]) 0 [] ?s"
    using new d0 fs unfolding writer_at_def by simp
  show "\<not> is_open ?s" "tag_table ?s = tag_table s" "sequence ?s = sequence s" by (simp_all add: s')
qed

lemma open_at:
  assumes at: "writer_at cpu d0 hist c [] s" and cl: "\<not> is_open s"
    and room: "length d0 + length hist < 2 ^ 63"
  shows "\<exists>s'. open_segment cpu (good_io now) s = Some (s', None) \<and> is_open s' \<and>
    tag_table s' = tag_table s \<and> writer_at cpu d0 hist now [] s'"
proof -
  have "length (files s) < 2 ^ 63" using at cl room by (simp add: writer_at_def)
  from free_sequence_total [OF this] obtain r where
    r: "free_sequence (length (files s) + 1) (files s) now (sequence s) = Some r" by blast
  let ?f = "segment_stem now r @ kSegmentExtension" let ?p = "?f @ kPartialSuffix"
  have free: "map_of (files s) ?f = None" "map_of (files s) ?p = None"
    using free_sequence_Some [OF r] by simp_all
  have hist: "\<forall>(n, c, g) \<in> set hist. map_of (files s) n = Some (seg_content cpu s c g)"
    using at by (simp add: writer_at_def)
  have new: "?p \<notin> fst ` set hist" "?f \<notin> fst ` set hist" using hist free by force+
  have d0: "map_of d0 ?p = None" using at cl free new by (auto simp: writer_at_def)
  let ?pre = "segment_prefix cpu (of_int now) (tag_table s)"
  let ?s = "s\<lparr>sequence := r, final_path := ?f, partial_path := ?p, is_open := True,
     files := AList.update ?p ?pre (files s), segment_bytes := of_nat (length ?pre),
     bytes_written := bytes_written s + of_nat (length ?pre)\<rparr>"
  have "open_segment cpu (good_io now) s = Some (?s, None)"
    using r by (simp add: open_segment_def Let_def good_io_def written_def del: free_sequence.simps)
  moreover have "?p \<noteq> ?f" by (simp add: kPartialSuffix_def)
  moreover have "seg_content cpu ?s = seg_content cpu s" by (simp add: seg_content_def fun_eq_iff)
  moreover have "length (AList.update ?p ?pre (files s)) \<le> length d0 + length hist + 1"
    using length_update [of ?p ?pre "files s"] at cl by (simp add: writer_at_def)
  moreover have "map_of (files ?s) = (map_of (files s))(?p \<mapsto> ?pre)" by (simp add: update_conv')
  moreover have "\<forall>(n, c, g) \<in> set hist. ((map_of (files s))(?p \<mapsto> ?pre)) n = Some (seg_content cpu s c g)"
    using hist new(1) by (force simp del: append_assoc)
  moreover have "?pre = seg_content cpu s now []" by (simp add: seg_content_def)
  ultimately have "writer_at cpu d0 hist now [] ?s"
    using at cl free new d0 unfolding writer_at_def by (simp del: append_assoc)
  with \<open>open_segment cpu (good_io now) s = Some (?s, None)\<close> show ?thesis by auto
qed

lemma append_at:
  assumes at: "writer_at cpu d0 hist c cur s" and op: "is_open s"
  shows "\<exists>s'. append_batch (good_io now) b s = (s', None) \<and> is_open s' \<and> tag_table s' = tag_table s \<and>
    writer_at cpu d0 hist c (cur @ [b]) s'"
proof -
  let ?old = "seg_content cpu s c cur"
  have c: "map_of (files s) (partial_path s) = Some ?old" using at op by (simp add: writer_at_def)
  let ?s = "s\<lparr>files := AList.update (partial_path s) (?old @ b) (files s),
     segment_bytes := segment_bytes s + of_nat (length b),
     bytes_written := bytes_written s + of_nat (length b)\<rparr>"
  have "append_batch (good_io now) b s = (?s, None)"
    using c by (simp add: append_batch_def good_io_def written_def append_file_def)
  moreover have "seg_content cpu ?s = seg_content cpu s" by (simp add: seg_content_def fun_eq_iff)
  moreover have "map_of (files ?s) = (map_of (files s))(partial_path s \<mapsto> seg_content cpu s c (cur @ [b]))"
    by (simp add: update_conv' seg_content_def)
  moreover have "length (AList.update (partial_path s) (?old @ b) (files s)) = length (files s)"
    using c by (intro length_update_same) simp
  moreover have "\<forall>(n, c, g) \<in> set hist. ((map_of (files s))(partial_path s \<mapsto> seg_content cpu s c' (cur @ [b]))) n
      = Some (seg_content cpu s c g)" for c'
    using writer_at_hist [OF at] writer_at_open [OF at op] by auto
  ultimately have "writer_at cpu d0 hist c (cur @ [b]) ?s"
    using at op unfolding writer_at_def by (simp add: eq_commute [of "final_path s"])
  with \<open>append_batch (good_io now) b s = (?s, None)\<close> show ?thesis using op by auto
qed

text \<open>Writing a list of batches, each at its own time, and closing.\<close>

fun write_all :: "Cpu \<Rightarrow> (int \<times> u8 list) list \<Rightarrow> SegmentWriter \<Rightarrow> (SegmentWriter \<times> string option) ub" where
  "write_all cpu [] s = Some (s, None)"
| "write_all cpu ((now, b) # bs) s =
     (case write_batch cpu (good_io now) b s of None \<Rightarrow> None
      | Some (s', Some e) \<Rightarrow> Some (s', Some e) | Some (s', None) \<Rightarrow> write_all cpu bs s')"

lemma write_batch_at:
  assumes at: "writer_at cpu d0 hist c cur s" and room: "length d0 + length hist + 1 < 2 ^ 63"
  shows "\<exists>s' hist' c' cur'. write_batch cpu (good_io now) b s = Some (s', None) \<and> is_open s' \<and>
    tag_table s' = tag_table s \<and> writer_at cpu d0 hist' c' cur' s' \<and> length hist' \<le> Suc (length hist) \<and>
    concat (map (snd \<circ> snd) hist') @ cur' = concat (map (snd \<circ> snd) hist) @ cur @ [b]"
proof -
  have lim: "max_total_bytes s = 0" using at by (simp add: writer_at_def)
  note wb = write_batch_def Let_def enforce_total_limit_def
  consider (closed) "\<not> is_open s" | (full) "is_open s" "max_segment_bytes s < segment_bytes s + of_nat (length b)"
    | (fits) "is_open s" "\<not> max_segment_bytes s < segment_bytes s + of_nat (length b)" by blast
  then show ?thesis
  proof cases
    case closed
    then have cur: "cur = []" using at by (simp add: writer_at_def)
    from open_at [OF at [unfolded cur] closed, of now] room obtain s1 where
      s1: "open_segment cpu (good_io now) s = Some (s1, None)" "is_open s1" "tag_table s1 = tag_table s"
        "writer_at cpu d0 hist now [] s1" by auto
    from append_at [OF s1(4,2), of now b] obtain s2 where
      s2: "append_batch (good_io now) b s1 = (s2, None)" "is_open s2" "tag_table s2 = tag_table s1"
        "writer_at cpu d0 hist now ([] @ [b]) s2" by blast
    have "write_batch cpu (good_io now) b s = Some (s2, None)"
      using closed lim s1(1) s2(1) by (simp add: wb)
    with s1 s2 cur show ?thesis by fastforce
  next
    case full
    let ?f = "finish_segment (good_io now) s" let ?hist = "hist @ [(final_path s, c, cur)]"
    note fin = finish_at [OF at full(1), of now]
    have lim': "max_total_bytes ?f = 0" using fin(1) by (simp add: writer_at_def)
    from open_at [OF fin(1,2), of now] room obtain s1 where
      s1: "open_segment cpu (good_io now) ?f = Some (s1, None)" "is_open s1" "tag_table s1 = tag_table ?f"
        "writer_at cpu d0 ?hist now [] s1" by auto
    from append_at [OF s1(4,2), of now b] obtain s2 where
      s2: "append_batch (good_io now) b s1 = (s2, None)" "is_open s2" "tag_table s2 = tag_table s1"
        "writer_at cpu d0 ?hist now ([] @ [b]) s2" by blast
    have "write_batch cpu (good_io now) b s = Some (s2, None)"
      using full lim' s1(1) s2(1) by (simp add: wb)
    with s1 s2 fin show ?thesis
      by (intro exI [of _ s2] exI [of _ ?hist] exI [of _ now] exI [of _ "[b]"]) simp
  next
    case fits
    from append_at [OF at fits(1), of now b] obtain s2 where
      s2: "append_batch (good_io now) b s = (s2, None)" "is_open s2" "tag_table s2 = tag_table s"
        "writer_at cpu d0 hist c (cur @ [b]) s2" by blast
    have "write_batch cpu (good_io now) b s = Some (s2, None)"
      using fits s2(1) by (simp add: wb)
    with s2 show ?thesis
      by (intro exI [of _ s2] exI [of _ hist] exI [of _ c] exI [of _ "cur @ [b]"]) simp
  qed
qed

lemma write_all_at:
  assumes "writer_at cpu d0 hist c cur s" "length d0 + length hist + length bs < 2 ^ 63"
  shows "\<exists>s' hist' c' cur'. write_all cpu bs s = Some (s', None) \<and> tag_table s' = tag_table s \<and>
    writer_at cpu d0 hist' c' cur' s' \<and>
    concat (map (snd \<circ> snd) hist') @ cur' = concat (map (snd \<circ> snd) hist) @ cur @ map snd bs"
  using assms
proof (induction bs arbitrary: s hist c cur)
  case Nil
  then show ?case by auto
next
  case (Cons nb bs)
  obtain now b where nb: "nb = (now, b)" by force
  from write_batch_at [OF Cons.prems(1), of now b] Cons.prems(2) obtain s1 hist1 c1 cur1 where
    s1: "write_batch cpu (good_io now) b s = Some (s1, None)" "tag_table s1 = tag_table s"
      "writer_at cpu d0 hist1 c1 cur1 s1" "length hist1 \<le> Suc (length hist)"
      "concat (map (snd \<circ> snd) hist1) @ cur1 = concat (map (snd \<circ> snd) hist) @ cur @ [b]" by auto
  have "length d0 + length hist1 + length bs < 2 ^ 63" using s1(4) Cons.prems(2) by simp
  from Cons.IH [OF s1(3) this] obtain s' hist' c' cur' where
    "write_all cpu bs s1 = Some (s', None)" "tag_table s' = tag_table s1" "writer_at cpu d0 hist' c' cur' s'"
    "concat (map (snd \<circ> snd) hist') @ cur' = concat (map (snd \<circ> snd) hist1) @ cur1 @ map snd bs" by blast
  moreover have "concat (map (snd \<circ> snd) hist1) @ cur1 @ map snd bs =
      concat (map (snd \<circ> snd) hist) @ cur @ map snd (nb # bs)"
    using arg_cong [OF s1(5), of "\<lambda>x. x @ map snd bs"] by (simp add: nb)
  ultimately show ?case using s1(1,2)
    by (intro exI [of _ s'] exI [of _ hist'] exI [of _ c'] exI [of _ cur']) (simp add: nb comp_def)
qed

definition demo_writer :: SegmentWriter where
  "demo_writer = \<lparr>max_segment_bytes = 100, max_total_bytes = 3, tag_table = [], is_open = False,
     partial_path = [], final_path = [], segment_bytes = 0, sequence = 0, recovered = 0,
     bytes_written = 0, segments_completed = 0, segments_deleted = 0,
     files = [(''telemetry-b.ipseg'', [1, 2]), (''telemetry-a.ipseg'', [3, 4]), (''notes.txt'', [5])]\<rparr>"

section \<open>Properties\<close>



text \<open>The disk budget is enforced with as little deletion as possible: only finished
  \<open>telemetry-*.ipseg\<close> files are deleted, in name order, which is age order; deletion stops as soon
  as the budget with its reserve is met, and goes on until then or until no finished segment is
  left. Nothing else in the directory changes.\<close>

theorem enforce_total_limit_minimal:
  assumes "max_total_bytes s \<noteq> 0" and "\<forall>n. io_remove io n"
    and "unat (segment_bytes s) + bytes_in (finished_segments s) + unat reserve < 2 ^ 64"
  shows "\<exists>k \<le> length (finished_segments s). let order = sort_key fst (finished_segments s);
      left = (\<lambda>j. unat (segment_bytes s) + bytes_in (finished_segments s) - bytes_in (take j order) + unat reserve)
    in map_of (files (enforce_total_limit io reserve s)) = (map_of (files s)) |` (- fst ` set (take k order)) \<and>
      (\<forall>n \<in> fst ` set (take k order). is_finished_name n) \<and>
      (k = length order \<or> left k \<le> unat (max_total_bytes s)) \<and>
      (\<forall>j < k. unat (max_total_bytes s) < left j)"
proof -
  let ?fs = "finished_segments s" and ?order = "sort_key fst (finished_segments s)"
  let ?tot = "foldl (\<lambda>t (_, b). t + b) (segment_bytes s) ?fs"
  have tot: "unat ?tot = unat (segment_bytes s) + bytes_in ?fs"
    using assms(3) by (intro foldl_total) simp
  have same: "bytes_in ?order = bytes_in ?fs" by (rule bytes_in_mset) simp
  from delete_oldest_prefix [of io ?order ?tot reserve s] assms tot same
  obtain k where k: "k \<le> length ?order" "map_of (files (delete_oldest io reserve ?order ?tot s)) =
      (map_of (files s)) |` (- fst ` set (take k ?order))"
    "k = length ?order \<or> unat ?tot - bytes_in (take k ?order) + unat reserve \<le> unat (max_total_bytes s)"
    "\<forall>j < k. unat (max_total_bytes s) < unat ?tot - bytes_in (take j ?order) + unat reserve"
    by auto
  have "\<forall>n \<in> fst ` set (take k ?order). is_finished_name n"
    using finished_segments_names [of s] by (force dest: in_set_takeD)
  then show ?thesis
    using k assms(1) by (auto simp: enforce_total_limit_def Let_def tot)
qed

lemma demo_finished: "finished_segments demo_writer = [(''telemetry-b.ipseg'', 2), (''telemetry-a.ipseg'', 2)]"
  by (simp add: finished_segments_def demo_writer_def is_finished_name_def starts_with_def
      ends_with_def kSegmentExtension_def)

theorem enforce_total_limit_minimal_witness:
  "map_of (files (enforce_total_limit (good_io 0) 0 demo_writer)) ''notes.txt'' = Some [5]"
proof -
  have "max_total_bytes demo_writer \<noteq> 0" by (simp add: demo_writer_def)
  moreover have "\<forall>n. io_remove (good_io 0) n" by (simp add: good_io_def)
  moreover have "unat (segment_bytes demo_writer) + bytes_in (finished_segments demo_writer) + unat (0::u64) < 2 ^ 64"
    by (simp add: demo_finished bytes_in_def) (simp add: demo_writer_def)
  ultimately obtain k where
    k: "map_of (files (enforce_total_limit (good_io 0) 0 demo_writer)) =
      (map_of (files demo_writer)) |` (- fst ` set (take k (sort_key fst (finished_segments demo_writer))))"
      "\<forall>n \<in> fst ` set (take k (sort_key fst (finished_segments demo_writer))). is_finished_name n"
    using enforce_total_limit_minimal [of demo_writer "good_io 0" 0] unfolding Let_def by blast
  have "\<not> is_finished_name ''notes.txt''" by (simp add: is_finished_name_def starts_with_def)
  then have "''notes.txt'' \<notin> fst ` set (take k (sort_key fst (finished_segments demo_writer)))"
    using k(2) by blast
  then show ?thesis by (simp add: k(1) restrict_map_def) (simp add: demo_writer_def)
qed

end
