(* ===== verification/ReadingExporter.thy ===== *)
theory ReadingExporter
  imports Ingestor SegmentWriter Config
begin

text \<open>
  \<open>ingest/reading_exporter.cpp\<close>: readings become telemetry samples, go through the ingestor's queue and
  end in segment files. The ingestor's sink is the segment writer's \<open>write_batch\<close>; its world is the
  writer with the outcomes the operating system has in store for the coming calls. \<open>producer_mutex_\<close>
  makes \<open>submit\<close>, \<open>start\<close> and the first half of \<open>stop\<close> single steps.
\<close>

section \<open>Tags\<close>

definition tag_sensor :: "ModbusDeviceConfig \<Rightarrow> TagInfo list \<times> u32 \<Rightarrow> SensorConfig \<Rightarrow> TagInfo list \<times> u32" where
  "tag_sensor dev = (\<lambda>(ts, next) sensor.
     (ts @ [\<lparr>tag_info_id = next, tag_sensor_id = sensor_id sensor, tag_device_id = device_id dev,
             tag_name = sensor_name sensor, tag_unit = sensor_unit sensor\<rparr>], next + 1))"

definition tag_device :: "TagInfo list \<times> u32 \<Rightarrow> ModbusDeviceConfig \<Rightarrow> TagInfo list \<times> u32" where
  "tag_device acc dev = foldl (tag_sensor dev) acc (sensors dev)"

definition tags_from_devices :: "ModbusDeviceConfig list \<Rightarrow> TagInfo list" where
  "tags_from_devices devs = fst (foldl tag_device ([], 1) devs)"

section \<open>The exporter\<close>

text \<open>The sink's world: what the operating system will do on the coming calls, and the writer.
  A missing sequence number (\<open>None\<close>) does not happen; it is counted as a failed batch.\<close>

type_synonym exp_world = "(nat \<Rightarrow> Io) \<times> nat \<times> SegmentWriter"

definition exporter_sink :: "Cpu \<Rightarrow> exp_world sink" where
  "exporter_sink cpu bytes = (\<lambda>(os, k, w).
     case write_batch cpu (os k) bytes w of None \<Rightarrow> (False, os, k + 1, w)
     | Some (w, e) \<Rightarrow> (e = None, os, k + 1, w))"

abbreviation writer :: "exp_world \<Rightarrow> SegmentWriter" where
  "writer w \<equiv> snd (snd w)"

record ReadingExporter =
  tag_ids :: "string \<Rightarrow> u32 option"
  ingestor :: "exp_world Ingestor"
  accepting :: bool
  unknown_sensor :: u64

text \<open>\<open>tag_ids_.emplace\<close> keeps the first tag of a sensor.\<close>

definition tag_map :: "TagInfo list \<Rightarrow> string \<Rightarrow> u32 option" where
  "tag_map ts = foldl (\<lambda>m tag. if m (tag_sensor_id tag) = None
     then m(tag_sensor_id tag \<mapsto> tag_info_id tag) else m) Map.empty ts"

definition ReadingExporter_make ::
  "'j Json \<Rightarrow> (nat \<Rightarrow> Io) \<Rightarrow> ExportConfig \<Rightarrow> TagInfo list \<Rightarrow> dir \<Rightarrow> (string + string throws) + ReadingExporter" where
  "ReadingExporter_make J os cfg ts d =
     (case SegmentWriter_make J (os 0) (ucast (segment_max_mb cfg) * 1024 * 1024)
        (ucast (max_total_mb cfg) * 1024 * 1024) ts d of Inl e \<Rightarrow> Inl (Inl e)
      | Inr w \<Rightarrow>
        (case Ingestor_make \<lparr>queue_capacity = exp_queue_capacity cfg, batch_size = exp_batch_size cfg,
             flush_interval = uint (flush_interval_ms cfg)\<rparr> True (os, 1, w) of Inl e \<Rightarrow> Inl (Inr e)
         | Inr i \<Rightarrow> Inr \<lparr>tag_ids = tag_map ts, ingestor = i, accepting = False, unknown_sensor = 0\<rparr>))"

definition exporter_start :: "int \<Rightarrow> ReadingExporter \<Rightarrow> ReadingExporter" where
  "exporter_start now s = (if accepting s then s
     else s\<lparr>ingestor := ing_start now (ingestor s), accepting := True\<rparr>)"

definition sample_for :: "u32 \<Rightarrow> double \<Rightarrow> time_point \<Rightarrow> TelemetrySample" where
  "sample_for tag v t = (let ms = to_ms t
     in \<lparr>timestamp_ms = (if ms < 0 then 0 else of_int ms), t_value = v, tag_id = tag, quality = 0,
         reserved = (0, 0, 0)\<rparr>)"

definition exporter_submit :: "string \<Rightarrow> double \<Rightarrow> time_point \<Rightarrow> ReadingExporter \<Rightarrow> (bool \<times> ReadingExporter) ub" where
  "exporter_submit sid v t s =
     (case tag_ids s sid of None \<Rightarrow> Some (False, s\<lparr>unknown_sensor := unknown_sensor s + 1\<rparr>)
      | Some tag \<Rightarrow>
        if \<not> accepting s then Some (False, s)
        else map_option (\<lambda>(ok, i). (ok, s\<lparr>ingestor := i\<rparr>)) (submit (sample_for tag v t) (ingestor s)))"

text \<open>\<open>stop\<close>: refuse readings, let the consumer thread run to its end (\<open>ts\<close> is what its clock reads;
  \<open>None\<close> when it has not ended by then), close the segment.\<close>

definition exporter_stop :: "Cpu \<Rightarrow> int list \<Rightarrow> ReadingExporter \<Rightarrow> ReadingExporter ub" where
  "exporter_stop cpu ts s =
     (if \<not> accepting s then Some s
      else case ing_run cpu (exporter_sink cpu) (map (Ev_consumer True) ts) (ingestor s) of None \<Rightarrow> None
      | Some i \<Rightarrow>
        if loop_pc i \<noteq> At_done then None
        else let (os, k, w) = world i
          in Some (s\<lparr>accepting := False,
               ingestor := i\<lparr>running := False, world := (os, k + 1, close_writer (os k) w)\<rparr>\<rparr>))"

record ExportStats =
  st_accepted :: u64
  st_dropped :: u64
  st_unknown_sensor :: u64
  st_batches_written :: u64
  st_batches_failed :: u64
  st_bytes_written :: u64
  st_segments_completed :: u64
  st_segments_deleted :: u64
  st_queue_depth :: u64

definition exporter_stats :: "ReadingExporter \<Rightarrow> ExportStats" where
  "exporter_stats s =
     (let c = counters (ingestor s); w = writer (world (ingestor s))
      in \<lparr>st_accepted = ingested c, st_dropped = dropped c, st_unknown_sensor = unknown_sensor s,
          st_batches_written = batches_sent c, st_batches_failed = batches_failed c,
          st_bytes_written = bytes_written w, st_segments_completed = segments_completed w,
          st_segments_deleted = segments_deleted w, st_queue_depth = ring_size (queue (ingestor s))\<rparr>)"

section \<open>Tags are unique\<close>

lemma map_upt_add: "map f [0..<n + m] = map f [0..<n] @ map (\<lambda>i. f (n + i)) [0..<m]"
  by (induction m) simp_all

lemma tag_device_ids:
  assumes "map tag_info_id (fst acc) = map (\<lambda>i. of_nat (i + 1)) [0..<n]" "snd acc = of_nat (n + 1)"
  shows "map tag_info_id (fst (tag_device acc dev)) = map (\<lambda>i. of_nat (i + 1)) [0..<n + length (sensors dev)] \<and>
    snd (tag_device acc dev) = of_nat (n + length (sensors dev) + 1) \<and>
    map tag_sensor_id (fst (tag_device acc dev)) = map tag_sensor_id (fst acc) @ map sensor_id (sensors dev)"
proof -
  have "map tag_info_id (fst (foldl (tag_sensor dev) acc ss)) =
      map tag_info_id (fst acc) @ map (\<lambda>i. snd acc + of_nat i) [0..<length ss] \<and>
    snd (foldl (tag_sensor dev) acc ss) = snd acc + of_nat (length ss) \<and>
    map tag_sensor_id (fst (foldl (tag_sensor dev) acc ss)) = map tag_sensor_id (fst acc) @ map sensor_id ss" for ss
    by (induction ss rule: rev_induct) (auto simp: tag_sensor_def case_prod_beta)
  then show ?thesis unfolding tag_device_def assms map_upt_add by (simp add: add.assoc)
qed

lemma tags_from_devices_ids:
  "map tag_info_id (tags_from_devices devs) = map (\<lambda>i. of_nat (i + 1)) [0..<length (concat (map sensors devs))] \<and>
   map tag_sensor_id (tags_from_devices devs) = map sensor_id (concat (map sensors devs))"
proof -
  have "map tag_info_id (fst (foldl tag_device ([], 1) devs)) =
      map (\<lambda>i. of_nat (i + 1)) [0..<length (concat (map sensors devs))] \<and>
    snd (foldl tag_device ([], 1) devs) = of_nat (length (concat (map sensors devs)) + 1) \<and>
    map tag_sensor_id (fst (foldl tag_device ([], 1) devs)) = map sensor_id (concat (map sensors devs))"
  proof (induction devs rule: rev_induct)
    case (snoc d devs)
    then have a: "map tag_info_id (fst (foldl tag_device ([], 1) devs)) =
        map (\<lambda>i. of_nat (i + 1)) [0..<length (concat (map sensors devs))]"
      and b: "snd (foldl tag_device ([], 1) devs) = of_nat (length (concat (map sensors devs)) + 1)" by blast+
    show ?case using tag_device_ids [OF a b, of d] snoc by simp
  qed simp
  then show ?thesis by (simp add: tags_from_devices_def)
qed

lemma tag_map_distinct:
  "distinct (map tag_sensor_id ts) \<Longrightarrow> tag_map ts = map_of (map (\<lambda>tag. (tag_sensor_id tag, tag_info_id tag)) ts)"
proof -
  have "foldl (\<lambda>m tag. if m (tag_sensor_id tag) = None then m(tag_sensor_id tag \<mapsto> tag_info_id tag) else m) m ts =
      m ++ map_of (map (\<lambda>tag. (tag_sensor_id tag, tag_info_id tag)) ts)"
    if "distinct (map tag_sensor_id ts)" "\<forall>t \<in> set ts. m (tag_sensor_id t) = None" for m
    using that
  proof (induction ts arbitrary: m)
    case (Cons t ts)
    then have "\<forall>u \<in> set ts. (m(tag_sensor_id t \<mapsto> tag_info_id t)) (tag_sensor_id u) = None"
      by (auto intro: rev_image_eqI)
    moreover have "map_of (map (\<lambda>tag. (tag_sensor_id tag, tag_info_id tag)) ts) (tag_sensor_id t) = None"
      using Cons.prems(1) by (auto simp: map_of_eq_None_iff)
    ultimately show ?case using Cons
      by (simp add: map_add_upd_left [symmetric] map_add_def fun_eq_iff split: option.split)
  qed simp
  then show "distinct (map tag_sensor_id ts) \<Longrightarrow> ?thesis" by (simp add: tag_map_def)
qed

section \<open>Runs\<close>

text \<open>What the polling strands and the consumer thread do while the exporter runs.\<close>

datatype exp_event = Reading string double time_point | Consumer bool int

definition exp_step :: "Cpu \<Rightarrow> ReadingExporter \<Rightarrow> exp_event \<Rightarrow> ReadingExporter ub" where
  "exp_step cpu s e = (case e of
     Reading sid v t \<Rightarrow> map_option snd (exporter_submit sid v t s)
   | Consumer stop now \<Rightarrow>
       map_option (\<lambda>i. s\<lparr>ingestor := i\<rparr>) (consumer_step cpu (exporter_sink cpu) stop now (ingestor s)))"

definition exp_run :: "Cpu \<Rightarrow> exp_event list \<Rightarrow> ReadingExporter \<Rightarrow> ReadingExporter ub" where
  "exp_run cpu es s = foldl (\<lambda>s e. Option.bind s (\<lambda>s. exp_step cpu s e)) (Some s) es"

definition as_ing :: "(string \<Rightarrow> u32 option) \<Rightarrow> exp_event \<Rightarrow> ing_event list" where
  "as_ing tag_of e = (case e of Consumer stop now \<Rightarrow> [Ev_consumer stop now]
     | Reading sid v t \<Rightarrow> (case tag_of sid of None \<Rightarrow> [] | Some tag \<Rightarrow> [Ev_submit (sample_for tag v t)]))"

lemma ing_run_append: "ing_run cpu sink (es @ fs) s = Option.bind (ing_run cpu sink es s) (ing_run cpu sink fs)"
  by (induction cpu sink es s rule: ing_run.induct) (auto split: option.splits)

lemma exp_step_ing:
  assumes "accepting s" "ing_run cpu (exporter_sink cpu) (as_ing (tag_ids s) e) (ingestor s) = Some i"
  shows "\<exists>s'. exp_step cpu s e = Some s' \<and> accepting s' \<and> tag_ids s' = tag_ids s \<and> ingestor s' = i"
  using assms
  by (cases e) (auto simp: exp_step_def exporter_submit_def as_ing_def split: option.splits if_splits)

lemma exp_run_ing:
  assumes "accepting s" "ing_run cpu (exporter_sink cpu) (concat (map (as_ing (tag_ids s)) es)) (ingestor s) = Some i"
  shows "\<exists>s'. exp_run cpu es s = Some s' \<and> accepting s' \<and> tag_ids s' = tag_ids s \<and> ingestor s' = i"
  using assms
proof (induction es arbitrary: s)
  case Nil
  then show ?case by (simp add: exp_run_def)
next
  case (Cons e es)
  from Cons.prems(2) obtain j where j: "ing_run cpu (exporter_sink cpu) (as_ing (tag_ids s) e) (ingestor s) = Some j"
      "ing_run cpu (exporter_sink cpu) (concat (map (as_ing (tag_ids s)) es)) j = Some i"
    by (auto simp: ing_run_append Option.bind_eq_Some_conv)
  from exp_step_ing [OF Cons.prems(1) j(1)] obtain s1 where
    s1: "exp_step cpu s e = Some s1" "accepting s1" "tag_ids s1 = tag_ids s" "ingestor s1 = j" by blast
  have "exp_run cpu (e # es) s = exp_run cpu es s1" using s1(1) by (simp add: exp_run_def)
  moreover from Cons.IH [of s1] s1 j(2) have "\<exists>s'. exp_run cpu es s1 = Some s' \<and> accepting s' \<and>
      tag_ids s' = tag_ids s1 \<and> ingestor s' = i" by simp
  ultimately show ?case using s1(3) by simp
qed

section \<open>The sink never fails while the disk works\<close>

definition good_os :: "(nat \<Rightarrow> Io) \<Rightarrow> bool" where
  "good_os os \<longleftrightarrow> (\<forall>k. \<exists>now. os k = good_io now)"

definition sink_ok :: "Cpu \<Rightarrow> dir \<Rightarrow> u8 list \<Rightarrow> nat \<Rightarrow> exp_world \<Rightarrow> (u8 list \<times> bool) list \<Rightarrow> bool" where
  "sink_ok cpu d0 table room w h \<longleftrightarrow> (length h \<le> room \<longrightarrow>
     good_os (fst w) \<and> tag_table (writer w) = table \<and>
     (\<exists>hist c cur. writer_at cpu d0 hist c cur (writer w) \<and> length hist \<le> length h \<and>
        concat (map (snd \<circ> snd) hist) @ cur = map fst h))"

lemma sink_ok_step:
  assumes ok: "sink_ok cpu d0 table room w h" and room: "length d0 + room < 2 ^ 63"
  shows "sink_ok cpu d0 table room (snd (exporter_sink cpu b w)) (h @ [(b, fst (exporter_sink cpu b w))])"
proof -
  obtain os k sw where w: "w = (os, k, sw)" by (cases w) auto
  show ?thesis
    unfolding sink_ok_def
  proof (rule impI)
    assume "length (h @ [(b, fst (exporter_sink cpu b w))]) \<le> room"
    then have len: "Suc (length h) \<le> room" by simp
    with ok obtain hist c cur where good: "good_os os" "tag_table sw = table" and
      at: "writer_at cpu d0 hist c cur sw" and hl: "length hist \<le> length h" and
      hc: "concat (map (snd \<circ> snd) hist) @ cur = map fst h"
      unfolding sink_ok_def w by (auto simp: Suc_le_eq)
    obtain now where now: "os k = good_io now" using good(1) by (auto simp: good_os_def)
    have "length d0 + length hist + 1 < 2 ^ 63" using room len hl by linarith
    from write_batch_at [OF at this, of now b] obtain s' hist' c' cur' where
      s': "write_batch cpu (good_io now) b sw = Some (s', None)" "tag_table s' = tag_table sw"
        "writer_at cpu d0 hist' c' cur' s'" "length hist' \<le> Suc (length hist)"
        "concat (map (snd \<circ> snd) hist') @ cur' = concat (map (snd \<circ> snd) hist) @ cur @ [b]" by blast
    have sink: "exporter_sink cpu b w = (True, os, k + 1, s')" by (simp add: exporter_sink_def w now s'(1))
    have "concat (map (snd \<circ> snd) hist') @ cur' = map fst (h @ [(b, fst (exporter_sink cpu b w))])"
      unfolding s'(5) using arg_cong [OF hc, of "\<lambda>x. x @ [b]"] by simp
    moreover have "length hist' \<le> length (h @ [(b, fst (exporter_sink cpu b w))])" using s'(4) hl by simp
    ultimately show "good_os (fst (snd (exporter_sink cpu b w))) \<and>
        tag_table (writer (snd (exporter_sink cpu b w))) = table \<and>
        (\<exists>hist c cur. writer_at cpu d0 hist c cur (writer (snd (exporter_sink cpu b w))) \<and>
          length hist \<le> length (h @ [(b, fst (exporter_sink cpu b w))]) \<and>
          concat (map (snd \<circ> snd) hist) @ cur = map fst (h @ [(b, fst (exporter_sink cpu b w))]))"
      using good s'(2,3) by (auto simp: sink)
  qed
qed

section \<open>From files back to samples\<close>

lemma concat_eq_map:
  "concat gs = map f xs \<Longrightarrow> \<exists>xss. gs = map (map f) xss \<and> concat xss = xs"
proof (induction gs arbitrary: xs)
  case Nil
  then show ?case by (auto intro: exI [of _ "[]"])
next
  case (Cons g gs)
  then obtain us vs where "xs = us @ vs" "g = map f us" "concat gs = map f vs"
    by (auto simp: append_eq_map_conv)
  with Cons.IH [of vs] obtain xss where "gs = map (map f) xss" "concat xss = vs" by auto
  with \<open>xs = us @ vs\<close> \<open>g = map f us\<close> show ?case by (auto intro!: exI [of _ "us # xss"])
qed

lemma read_back:
  assumes "json_documented J" "sse42_documented cpu" "encode_tag_table J ts = Inr text" "length text < 2 ^ 32"
    "\<forall>b \<in> set bs. length b \<le> 0xFFFFFFFF"
  shows "let res = read_segment J cpu path (Some (segment_prefix cpu created (bytes_of text) @ concat (map batch_image bs)))
    in delivered_batches res = bs \<and> tags res = ts \<and> error res = [] \<and> corrupt_batches res = 0 \<and> \<not> truncated_tail res"
proof -
  have "\<forall>g \<in> set (map Intact bs). region_ok g" using assms(5) by simp
  from read_segment_regions [OF assms(1-4) this, of "[]" 0 path created] show ?thesis
    by (simp add: Let_def intact_of_def comp_def required_buffer_size_def)
qed

section \<open>The whole path\<close>

lemma exporter_make_parts:
  assumes "ReadingExporter_make J os cfg ts d = Inr e" "max_total_mb cfg = 0" "encode_tag_table J ts = Inr text"
  obtains w where "Ingestor_make \<lparr>queue_capacity = exp_queue_capacity cfg, batch_size = exp_batch_size cfg,
      flush_interval = uint (flush_interval_ms cfg)\<rparr> True (os, 1, w) = Inr (ingestor e)"
    "tag_table w = bytes_of text" "\<not> is_open w" "max_total_bytes w = 0" "tag_ids e = tag_map ts" "\<not> accepting e"
proof -
  from assms(1) obtain w where w: "SegmentWriter_make J (os 0) (ucast (segment_max_mb cfg) * 1024 * 1024)
        (ucast (max_total_mb cfg) * 1024 * 1024) ts d = Inr w"
    and i: "Ingestor_make \<lparr>queue_capacity = exp_queue_capacity cfg, batch_size = exp_batch_size cfg,
      flush_interval = uint (flush_interval_ms cfg)\<rparr> True (os, 1, w) = Inr (ingestor e)"
    and e: "tag_ids e = tag_map ts" "\<not> accepting e"
    by (auto simp: ReadingExporter_make_def split: sum.splits)
  from w assms(2,3) have "tag_table w = bytes_of text" "\<not> is_open w" "max_total_bytes w = 0"
    by (auto simp: SegmentWriter_make_def enforce_total_limit_def split: sum.splits prod.splits)
  with i e show thesis by (intro that)
qed

lemma Ingestor_make_world: "Ingestor_make opts sp w = Inr i \<Longrightarrow> world i = w"
  by (auto simp: Ingestor_make_def split: sum.splits if_splits)

lemma ing_start_world: "world (ing_start now i) = world i"
  by (simp add: ing_start_def)

text \<open>After the drain: the handed batches are what the closed writer's files hold, group by group.\<close>

lemma closed_groups:
  assumes "json_documented J" "sse42_documented cpu" "encode_tag_table J ts = Inr text" "length text < 2 ^ 32"
    and ok: "sink_ok cpu d0 (bytes_of text) room w h" "length h \<le> room"
    and bs: "map fst h = map batch_image bs" "\<forall>b \<in> set bs. length b \<le> 0xFFFFFFFF"
  shows "\<exists>groups. distinct (map fst groups) \<and> concat (map snd groups) = bs \<and>
    (\<forall>(n, g) \<in> set groups. map_of d0 n = None \<and> (\<exists>bytes. map_of (files (close_writer (good_io now) (writer w))) n = Some bytes \<and>
      (let res = read_segment J cpu n (Some bytes) in delivered_batches res = g \<and> tags res = ts \<and> error res = [] \<and>
        corrupt_batches res = 0 \<and> \<not> truncated_tail res)))"
proof -
  obtain hist c cur where tab: "tag_table (writer w) = bytes_of text" and
    at: "writer_at cpu d0 hist c cur (writer w)" and hc: "concat (map (snd \<circ> snd) hist) @ cur = map fst h"
    using ok by (auto simp: sink_ok_def)
  let ?t = "close_writer (good_io now) (writer w)"
  obtain hist' where at': "writer_at cpu d0 hist' 0 [] ?t" "concat (map (snd \<circ> snd) hist') = map fst h"
    "tag_table ?t = bytes_of text"
  proof (cases "is_open (writer w)")
    case True
    note fin = finish_at [OF at True, of now, folded close_writer_def]
    have "concat (map (snd \<circ> snd) (hist @ [(final_path (writer w), c, cur)])) = map fst h"
      using hc by simp
    from that [OF fin(1) this] show thesis using fin(3) tab by simp
  next
    case False
    then have same: "?t = writer w" and "cur = []"
      using at by (simp_all add: close_writer_def finish_segment_def writer_at_def)
    moreover have "writer_at cpu d0 hist 0 [] (writer w)"
      using at False \<open>cur = []\<close> by (simp add: writer_at_def)
    ultimately show thesis using hc tab by (intro that [of hist]) simp_all
  qed
  from concat_eq_map [of "map (snd \<circ> snd) hist'" batch_image bs] at'(2) bs(1) obtain gs where
    gs: "map (snd \<circ> snd) hist' = map (map batch_image) gs" "concat gs = bs" by auto
  then have len: "length hist' = length gs" by (metis length_map)
  let ?groups = "zip (map fst hist') gs"
  have "distinct (map fst ?groups)" using at'(1) len by (simp add: writer_at_def)
  moreover have "concat (map snd ?groups) = bs" using gs(2) len by simp
  moreover have "map_of d0 n = None \<and> (\<exists>bytes. map_of (files ?t) n = Some bytes \<and>
      (let res = read_segment J cpu n (Some bytes) in delivered_batches res = g \<and> tags res = ts \<and> error res = [] \<and>
        corrupt_batches res = 0 \<and> \<not> truncated_tail res))" if ng: "(n, g) \<in> set ?groups" for n g
  proof -
    from ng len obtain k where k: "k < length hist'" "n = fst (hist' ! k)" "g = gs ! k"
      by (auto simp: in_set_zip)
    obtain created imgs where hk: "hist' ! k = (n, created, imgs)" using k(2) by (cases "hist' ! k") auto
    have "(snd \<circ> snd) (hist' ! k) = map batch_image (gs ! k)"
      using arg_cong [OF gs(1), of "\<lambda>xs. xs ! k"] k(1) len by (simp only: nth_map)
    then have "imgs = map batch_image g" by (simp add: hk k(3))
    moreover have mem: "(n, created, imgs) \<in> set hist'" using k(1) hk by (metis nth_mem)
    ultimately have "map_of (files ?t) n = Some (segment_prefix cpu (of_int created) (bytes_of text) @ concat (map batch_image g))"
      using writer_at_hist [OF at'(1)] at'(3) by (simp add: seg_content_def)
    moreover have "\<forall>b \<in> set g. length b \<le> 0xFFFFFFFF" using bs(2) gs(2) k(1,3) len by force
    moreover have "map_of d0 n = None" by (rule writer_at_fresh [OF at'(1) mem])
    ultimately show ?thesis using read_back [OF assms(1-4)] by blast
  qed
  ultimately show ?thesis by blast
qed

text \<open>C23. A tag identifies its sensor: for a configuration with unique sensor ids (which loading
  guarantees), the exporter knows exactly the configured sensors, numbers them from one in
  configuration order, and gives no two of them the same tag.\<close>

theorem tags_identify_sensors:
  assumes "distinct (map sensor_id (concat (map sensors devs)))" "length (concat (map sensors devs)) < 2 ^ 32"
  shows "(\<forall>i < length (concat (map sensors devs)).
      tag_map (tags_from_devices devs) (sensor_id (concat (map sensors devs) ! i)) = Some (of_nat (i + 1))) \<and>
    (\<forall>sid. sid \<notin> sensor_id ` set (concat (map sensors devs)) \<longrightarrow> tag_map (tags_from_devices devs) sid = None) \<and>
    inj_on (tag_map (tags_from_devices devs)) (sensor_id ` set (concat (map sensors devs)))"
proof -
  let ?ts = "tags_from_devices devs" let ?ss = "concat (map sensors devs)"
  have ids: "map tag_info_id ?ts = map (\<lambda>i. of_nat (i + 1)) [0..<length ?ss]" "map tag_sensor_id ?ts = map sensor_id ?ss"
    using tags_from_devices_ids [of devs] by blast+
  have zip: "map (\<lambda>tag. (tag_sensor_id tag, tag_info_id tag)) ?ts = zip (map sensor_id ?ss) (map (\<lambda>i. of_nat (i + 1)) [0..<length ?ss])"
    unfolding ids(1) [symmetric] ids(2) [symmetric] by (simp add: zip_map_fst_snd zip_same_conv_map zip_map_map)
  have m: "tag_map ?ts = map_of (zip (map sensor_id ?ss) (map (\<lambda>i. of_nat (i + 1)) [0..<length ?ss]))"
    using tag_map_distinct [of ?ts] assms(1) by (simp add: ids(2) zip)
  have look: "tag_map ?ts (sensor_id (?ss ! i)) = Some (of_nat (i + 1))" if "i < length ?ss" for i
    using that assms(1) map_of_zip_nth [of "map sensor_id ?ss" "map (\<lambda>i. of_nat (i + 1)) [0..<length ?ss]" i]
    unfolding m by simp
  have unknown: "tag_map ?ts sid = None" if "sid \<notin> sensor_id ` set ?ss" for sid
    using that unfolding m by (subst map_of_zip_is_None) simp_all
  have "inj_on (tag_map ?ts) (sensor_id ` set ?ss)"
  proof (rule inj_onI)
    fix x y assume x: "x \<in> sensor_id ` set ?ss" and y: "y \<in> sensor_id ` set ?ss" and eq: "tag_map ?ts x = tag_map ?ts y"
    obtain i where i: "i < length ?ss" "x = sensor_id (?ss ! i)" using x by (metis imageE in_set_conv_nth)
    obtain j where j: "j < length ?ss" "y = sensor_id (?ss ! j)" using y by (metis imageE in_set_conv_nth)
    have "(of_nat (i + 1) :: u32) = of_nat (j + 1)" using eq look [OF i(1)] look [OF j(1)] i j by simp
    moreover have "i + 1 < 2 ^ LENGTH(32) \<or> i + 1 = 2 ^ 32" "j + 1 < 2 ^ LENGTH(32) \<or> j + 1 = 2 ^ 32"
      using i(1) j(1) assms(2) by auto
    ultimately have "i = j"
      using i(1) j(1) assms(2) by (auto simp: word_of_nat_eq_iff take_bit_nat_eq_self)
    then show "x = y" using i j by simp
  qed
  with look unknown show ?thesis by blast
qed

theorem tags_identify_sensors_witness:
  "tag_map (tags_from_devices [default_ModbusDeviceConfig\<lparr>sensors := [default_SensorConfig\<lparr>sensor_id := ''a''\<rparr>,
     default_SensorConfig\<lparr>sensor_id := ''b''\<rparr>]\<rparr>]) ''b'' = Some 2"
proof -
  let ?devs = "[default_ModbusDeviceConfig\<lparr>sensors := [default_SensorConfig\<lparr>sensor_id := ''a''\<rparr>,
     default_SensorConfig\<lparr>sensor_id := ''b''\<rparr>]\<rparr>]"
  have "distinct (map sensor_id (concat (map sensors ?devs)))" "length (concat (map sensors ?devs)) < 2 ^ 32" by simp_all
  from tags_identify_sensors [OF this] have "\<forall>i < length (concat (map sensors ?devs)).
      tag_map (tags_from_devices ?devs) (sensor_id (concat (map sensors ?devs) ! i)) = Some (of_nat (i + 1))" by blast
  from this [rule_format, of 1] show ?thesis by simp
qed

text \<open>C20. What the exporter accepts is on disk, readable, once, in order. With a working disk and no
  disk budget: for any interleaving of readings from the polling threads with the consumer thread,
  stopping terminates, and leaves freshly named segment files which, read back by the segment reader,
  carry the configured tag table and deliver without damage batches whose concatenation is exactly
  the sequence of samples accepted.\<close>

theorem exporter_end_to_end:
  assumes docs: "json_documented J" "sse42_documented cpu" "good_os os"
    and make: "ReadingExporter_make J os cfg ts d = Inr e" "exp_batch_size cfg \<le> 0xFFFFFFFF" "max_total_mb cfg = 0"
    and enc: "encode_tag_table J ts = Inr text" "length text < 2 ^ 32"
    and run: "exp_run cpu es (exporter_start t0 e) = Some s" "loop_pc (ingestor s) = At_top"
    and ticks: "5 * unat (exp_queue_capacity cfg) + 4 * unat (exp_batch_size cfg) + 3 \<le> length ticks"
    and room: "length (files (writer (world (ingestor e)))) + length es + length ticks < 2 ^ 63"
  shows "\<exists>s' groups. exporter_stop cpu ticks s = Some s' \<and> \<not> accepting s' \<and> distinct (map fst groups) \<and>
    concat (concat (map snd groups)) = accepted (ingestor s) \<and>
    (\<forall>(n, g) \<in> set groups. map_of (files (writer (world (ingestor e)))) n = None \<and>
      (\<exists>bytes. map_of (files (writer (world (ingestor s')))) n = Some bytes \<and>
        (let res = read_segment J cpu n (Some bytes) in delivered_batches res = g \<and> tags res = ts \<and> error res = [] \<and>
          corrupt_batches res = 0 \<and> \<not> truncated_tail res)))"
proof -
  from exporter_make_parts [OF make(1,3) enc(1)] obtain w where
    w: "Ingestor_make \<lparr>queue_capacity = exp_queue_capacity cfg, batch_size = exp_batch_size cfg,
      flush_interval = uint (flush_interval_ms cfg)\<rparr> True (os, 1, w) = Inr (ingestor e)"
    and wt: "tag_table w = bytes_of text" "\<not> is_open w" "max_total_bytes w = 0" and na: "\<not> accepting e" by blast
  have world: "world (ingestor e) = (os, 1, w)" by (rule Ingestor_make_world [OF w])
  have small: "batch_size \<lparr>queue_capacity = exp_queue_capacity cfg, batch_size = exp_batch_size cfg,
      flush_interval = uint (flush_interval_ms cfg)\<rparr> \<le> 0xFFFFFFFF" using make(2) by simp
  note ready = Ingestor_make_ready [OF w small, of t0]
  let ?i = "ing_start t0 (ingestor e)" let ?d0 = "files w" let ?room = "length es + length ticks"
  have st: "ingestor (exporter_start t0 e) = ?i" "accepting (exporter_start t0 e)"
    using na by (simp_all add: exporter_start_def)
  let ?evs = "concat (map (as_ing (tag_ids (exporter_start t0 e))) es)"
  have nevs: "length ?evs \<le> length es"
    by (induction es) (auto simp: as_ing_def split: exp_event.splits option.splits)
  from ing_run_inv [OF docs(2) ready(1)] obtain i where
    i: "ing_run cpu (exporter_sink cpu) ?evs ?i = Some i" "ing_inv i" by blast
  from exp_run_ing [OF st(2), of cpu es i] i(1) st(1) run(1) have s: "ingestor s = i" "accepting s" by auto
  have sink0: "sink_ok cpu ?d0 (bytes_of text) ?room (world ?i) (handed ?i)"
    using docs(3) wt ready(4)
    by (auto simp: sink_ok_def ing_start_world world writer_at_def intro!: exI [of _ "[]"])
  have rm: "length ?d0 + ?room < 2 ^ 63" using room by (simp add: world)
  note keep = sink_ok_step [OF _ rm, of cpu "bytes_of text"]
  from ing_run_sink [where P = "sink_ok cpu ?d0 (bytes_of text) ?room", OF docs(2) ready(1) i(1) keep sink0] ready(4)
  have p1: "sink_ok cpu ?d0 (bytes_of text) ?room (world i) (handed i)" "length (handed i) \<le> length es"
    using nevs by auto
  have opts: "ing_options i = ing_options ?i \<and> ring_bound (queue i) = ring_bound (queue ?i)"
    by (rule ing_run_options [OF docs(2) ready(1) i(1)])
  have measure: "drain_measure i \<le> length ticks"
    using i(2) opts ready(5,6) ticks ring.contents_bound [of "queue i"] run(2) s(1)
    by (simp add: drain_measure_def ing_inv_def)
  have "stopping_pc i (loop_pc i)" using run(2) s(1) by simp
  from stopping_run [OF docs(2) i(2) this measure, of "exporter_sink cpu"] obtain j where
    j: "ing_run cpu (exporter_sink cpu) (map (Ev_consumer True) ticks) i = Some j" "ing_inv j" "loop_pc j = At_done"
      "batch j = []" "ring_contents (queue j) = []" "accepted j = accepted i" by blast
  from ing_run_sink [where P = "sink_ok cpu ?d0 (bytes_of text) ?room", OF docs(2) i(2) j(1) keep p1(1)] p1(2)
  have p2: "sink_ok cpu ?d0 (bytes_of text) ?room (world j) (handed j)" "length (handed j) \<le> ?room" by auto
  from j(2) obtain bs where bs: "map fst (handed j) = map batch_image bs" "accepted j = concat bs"
    "\<forall>b \<in> set bs. length b \<le> unat (batch_size (ing_options j))" "batch_size (ing_options j) \<le> 0xFFFFFFFF"
    using j(4,5) by (auto simp: ing_inv_def delivered_def)
  have "unat (batch_size (ing_options j)) \<le> 0xFFFFFFFF" using bs(4) by (simp add: word_le_nat_alt)
  with bs(3) have bsl: "\<forall>b \<in> set bs. length b \<le> 0xFFFFFFFF" by fastforce
  obtain k where k: "good_os (fst (world j))" using p2 by (auto simp: sink_ok_def)
  obtain os' kk w' where wj: "world j = (os', kk, w')" by (cases "world j") auto
  obtain now where now: "os' kk = good_io now" using k wj by (auto simp: good_os_def)
  from closed_groups [OF docs(1,2) enc p2 bs(1) bsl, of now] obtain groups where
    g: "distinct (map fst groups)" "concat (map snd groups) = bs"
      "\<forall>(n, g) \<in> set groups. map_of ?d0 n = None \<and> (\<exists>bytes. map_of (files (close_writer (good_io now) w')) n = Some bytes \<and>
      (let res = read_segment J cpu n (Some bytes) in delivered_batches res = g \<and> tags res = ts \<and> error res = [] \<and>
        corrupt_batches res = 0 \<and> \<not> truncated_tail res))" unfolding wj by auto
  let ?s' = "s\<lparr>accepting := False, ingestor := j\<lparr>running := False, world := (os', kk + 1, close_writer (os' kk) w')\<rparr>\<rparr>"
  have "exporter_stop cpu ticks s = Some ?s'"
    using s j(1,3) by (simp add: exporter_stop_def wj)
  moreover have "concat (concat (map snd groups)) = accepted (ingestor s)" using g(2) bs(2) j(6) s(1) by simp
  moreover have "\<not> accepting ?s'" "writer (world (ingestor ?s')) = close_writer (good_io now) w'" by (simp_all add: now)
  ultimately show ?thesis using g(1,3) unfolding world by (intro exI [of _ ?s'] exI [of _ groups]) simp
qed

definition demo_export :: ExportConfig where
  "demo_export = default_ExportConfig\<lparr>exp_queue_capacity := 2, exp_batch_size := 1, max_total_mb := 0\<rparr>"

definition demo_exporter :: ReadingExporter where
  "demo_exporter = projr (ReadingExporter_make short_lib (\<lambda>_. good_io 0) demo_export [] [])"

lemma demo_exporter_make:
  "encode_tag_table short_lib [] = Inr ''x''"
  "ReadingExporter_make short_lib (\<lambda>_. good_io 0) demo_export [] [] = Inr demo_exporter"
  "files (writer (world (ingestor demo_exporter))) = []"
proof -
  show enc: "encode_tag_table short_lib [] = Inr ''x''"
    by (simp add: encode_tag_table_def short_lib_def jv_lib_def)
  show "ReadingExporter_make short_lib (\<lambda>_. good_io 0) demo_export [] [] = Inr demo_exporter"
    "files (writer (world (ingestor demo_exporter))) = []"
    unfolding demo_exporter_def ReadingExporter_make_def SegmentWriter_make_def enc
    by (simp_all add: recover_def enforce_total_limit_def demo_export_def Ingestor_make_def
        validate_options_def default_ExportConfig_def SpscRingBuffer_make_def)
qed

theorem exporter_end_to_end_witness:
  "\<exists>s'. exporter_stop old_cpu (replicate 20 0) (exporter_start 0 demo_exporter) = Some s' \<and> \<not> accepting s'"
proof -
  have run: "exp_run old_cpu [] (exporter_start 0 demo_exporter) = Some (exporter_start 0 demo_exporter)"
    by (simp add: exp_run_def)
  have small: "exp_batch_size demo_export \<le> 0xFFFFFFFF" "max_total_mb demo_export = 0"
    "length ''x'' < 2 ^ 32" "good_os (\<lambda>_. good_io 0)"
    by (auto simp: demo_export_def good_os_def)
  have top: "loop_pc (ingestor (exporter_start 0 demo_exporter)) = At_top"
  proof -
    from exporter_make_parts [OF demo_exporter_make(2) small(2) demo_exporter_make(1)] obtain w where
      w: "Ingestor_make \<lparr>queue_capacity = exp_queue_capacity demo_export, batch_size = exp_batch_size demo_export,
        flush_interval = uint (flush_interval_ms demo_export)\<rparr> True (\<lambda>_. good_io 0, 1, w) = Inr (ingestor demo_exporter)"
      and na: "\<not> accepting demo_exporter" by blast
    from Ingestor_make_ready(2) [OF w, of 0] small(1) na show ?thesis by (simp add: exporter_start_def)
  qed
  have "\<exists>s' groups. exporter_stop old_cpu (replicate 20 0) (exporter_start 0 demo_exporter) = Some s' \<and> \<not> accepting s' \<and>
    distinct (map fst groups) \<and>
    concat (concat (map snd groups)) = accepted (ingestor (exporter_start 0 demo_exporter)) \<and>
    (\<forall>(n, g) \<in> set groups. map_of (files (writer (world (ingestor demo_exporter)))) n = None \<and>
      (\<exists>bytes. map_of (files (writer (world (ingestor s')))) n = Some bytes \<and>
        (let res = read_segment short_lib old_cpu n (Some bytes) in delivered_batches res = g \<and> tags res = [] \<and> error res = [] \<and>
          corrupt_batches res = 0 \<and> \<not> truncated_tail res)))"
    by (rule exporter_end_to_end [OF json_documented_short_lib documented_cpus(1) small(4) demo_exporter_make(2)
        small(1,2) demo_exporter_make(1) small(3) run top])
      (simp_all add: demo_exporter_make(3), simp add: demo_export_def)
  then show ?thesis by blast
qed

end
