(* ===== verification/Detectors.thy ===== *)
theory Detectors
  imports CoreTypes SlidingWindow
begin

text \<open>
  The detection strategies: \<open>analytics/detector.hpp\<close>, \<open>strategies/ewma.hpp\<close>, \<open>strategies/cusum.hpp\<close>
  and the factory. A detector object is its record of members; the virtual \<open>observe\<close> dispatches on
  the datatype of the three strategies and returns the vote beside the new state. Arithmetic is
  binary64 as the code evaluates it, operation by operation, so NaN and infinite readings take the
  branches they take in the program.
\<close>

section \<open>Votes\<close>

record AnomalyResult =
  is_anomaly :: bool
  score :: double
  confidence :: double

definition no_vote :: AnomalyResult where
  "no_vote = \<lparr>is_anomaly = False, score = 0, confidence = 0\<rparr>"

text \<open>The literals \<open>1e-9\<close>, \<open>1e-3\<close>, \<open>1.5\<close>, \<open>2.0\<close> and \<open>3.0\<close>.\<close>

definition d_1em9 :: double where "d_1em9 = d_of_rat (1 / 1000000000)"
definition d_1em3 :: double where "d_1em3 = d_of_rat (1 / 1000)"
definition d_1p5 :: double where "d_1p5 = d_of_rat (3 / 2)"
definition d_two :: double where "d_two = d_of_rat 2"
definition d_three :: double where "d_three = d_of_rat 3"

section \<open>Rolling z-score\<close>

record ZScoreDetector =
  z_window_size :: u64
  z_threshold_sigma :: double
  z_warmup :: u64
  z_window :: "double list"

definition ZScoreDetector_make :: "u64 \<Rightarrow> double \<Rightarrow> ZScoreDetector" where
  "ZScoreDetector_make window_size threshold_sigma =
     \<lparr>z_window_size = window_size, z_threshold_sigma = threshold_sigma,
      z_warmup = min window_size (max 5 (window_size div 2)), z_window = []\<rparr>"

definition compute_mean :: "double list \<Rightarrow> double" where
  "compute_mean w = d_div (foldl d_add 0 w) (d_of_int (int (length w)))"

definition compute_stddev :: "double list \<Rightarrow> double \<Rightarrow> double" where
  "compute_stddev w m =
     d_sqrt (d_div (foldl (\<lambda>sum_sq v. let diff = d_sub v m in d_add sum_sq (d_mul diff diff)) 0 w)
                   (d_of_int (int (length w))))"

definition sigma_vote :: "double \<Rightarrow> double \<Rightarrow> double \<Rightarrow> AnomalyResult" where
  "sigma_vote threshold_sigma dev sd =
     (let z = d_div (d_abs dev) sd
      in \<lparr>is_anomaly = d_lt threshold_sigma z, score = z,
          confidence = d_min d_one (d_div z (d_mul threshold_sigma d_two))\<rparr>)"

definition z_vote :: "u64 \<Rightarrow> double \<Rightarrow> double list \<Rightarrow> double \<Rightarrow> AnomalyResult" where
  "z_vote warmup threshold_sigma w v =
     (if max 2 warmup \<le> of_nat (length w)
      then let m = compute_mean w; sd = compute_stddev w m
           in if d_lt d_1em9 sd then sigma_vote threshold_sigma (d_sub v m) sd else no_vote
      else no_vote)"

definition z_push :: "ZScoreDetector \<Rightarrow> double \<Rightarrow> ZScoreDetector" where
  "z_push d v = (let w = z_window d @ [v]
     in d\<lparr>z_window := if z_window_size d < of_nat (length w) then tl w else w\<rparr>)"

definition z_observe :: "ZScoreDetector \<Rightarrow> double \<Rightarrow> AnomalyResult \<times> ZScoreDetector" where
  "z_observe d v = (z_vote (z_warmup d) (z_threshold_sigma d) (z_window d) v, z_push d v)"

section \<open>Exponentially weighted moving average\<close>

record EwmaDetector =
  e_alpha :: double
  e_threshold_sigma :: double
  e_warmup :: u64
  e_samples :: u64
  e_initialized :: bool
  e_mean :: double
  e_variance :: double

text \<open>The cast of \<open>std::ceil(3.0 / std::max(alpha, 1e-3))\<close> to \<open>size_t\<close> is undefined for a NaN.\<close>

definition EwmaDetector_make :: "double \<Rightarrow> double \<Rightarrow> EwmaDetector ub" where
  "EwmaDetector_make a threshold_sigma =
     (let q = d_div d_three (d_max a d_1em3)
      in if d_finite q \<and> 0 \<le> \<lceil>d_val q\<rceil> \<and> \<lceil>d_val q\<rceil> < 2 ^ 64
         then Some \<lparr>e_alpha = a, e_threshold_sigma = threshold_sigma,
                    e_warmup = of_nat (d_ceil_nat q), e_samples = 0, e_initialized = False,
                    e_mean = 0, e_variance = 0\<rparr>
         else None)"

definition e_observe :: "EwmaDetector \<Rightarrow> double \<Rightarrow> AnomalyResult \<times> EwmaDetector" where
  "e_observe d v =
     (if e_initialized d
      then let dev = d_sub v (e_mean d);
               sd = d_sqrt (e_variance d);
               r = (if d_lt d_1em9 sd \<and> e_warmup d \<le> e_samples d
                    then sigma_vote (e_threshold_sigma d) dev sd else no_vote)
           in (r, d\<lparr>e_mean := d_add (e_mean d) (d_mul (e_alpha d) dev),
                    e_variance := d_mul (d_sub d_one (e_alpha d))
                      (d_add (e_variance d) (d_mul (d_mul (e_alpha d) dev) dev)),
                    e_samples := e_samples d + 1\<rparr>)
      else (no_vote, d\<lparr>e_mean := v, e_variance := 0, e_initialized := True,
                       e_samples := e_samples d + 1\<rparr>))"

section \<open>Two-sided CUSUM\<close>

record CusumDetector =
  c_mean :: double
  c_stddev :: double
  c_slack :: double
  c_threshold :: double
  c_high :: double
  c_low :: double

definition CusumDetector_make :: "double \<Rightarrow> double \<Rightarrow> double \<Rightarrow> double \<Rightarrow> CusumDetector" where
  "CusumDetector_make m sd k h =
     \<lparr>c_mean = m, c_stddev = d_max sd d_1em9, c_slack = k, c_threshold = h, c_high = 0, c_low = 0\<rparr>"

definition c_observe :: "CusumDetector \<Rightarrow> double \<Rightarrow> AnomalyResult \<times> CusumDetector" where
  "c_observe d v =
     (let standardized = d_div (d_sub v (c_mean d)) (c_stddev d);
          hi = d_max 0 (d_sub (d_add (c_high d) standardized) (c_slack d));
          lo = d_max 0 (d_sub (d_sub (c_low d) standardized) (c_slack d));
          drive = d_max hi lo;
          r = \<lparr>is_anomaly = d_lt (c_threshold d) drive, score = drive,
               confidence = d_min d_one (d_div drive (d_mul (c_threshold d) d_1p5))\<rparr>
      in (r, if is_anomaly r then d\<lparr>c_high := 0, c_low := 0\<rparr> else d\<lparr>c_high := hi, c_low := lo\<rparr>))"

section \<open>The strategy interface and its factory\<close>

datatype AnomalyDetector = ZScore ZScoreDetector | Ewma EwmaDetector | Cusum CusumDetector

fun detect :: "AnomalyDetector \<Rightarrow> double \<Rightarrow> AnomalyResult \<times> AnomalyDetector" where
  "detect (ZScore d) v = map_prod id ZScore (z_observe d v)"
| "detect (Ewma d) v = map_prod id Ewma (e_observe d v)"
| "detect (Cusum d) v = map_prod id Cusum (c_observe d v)"

fun detector_name :: "AnomalyDetector \<Rightarrow> string" where
  "detector_name (ZScore _) = ''zscore''"
| "detector_name (Ewma _) = ''ewma''"
| "detector_name (Cusum _) = ''cusum''"

text \<open>\<open>Inl\<close> is the thrown \<open>std::invalid_argument\<close>.\<close>

definition make_detector :: "DetectorConfig \<Rightarrow> (string + AnomalyDetector) ub" where
  "make_detector cfg =
     (if det_type cfg = ''zscore'' then Some (Inr (ZScore (ZScoreDetector_make (window cfg) (threshold cfg))))
      else if det_type cfg = ''ewma''
      then map_option (Inr \<circ> Ewma) (EwmaDetector_make (alpha cfg) (threshold cfg))
      else if det_type cfg = ''cusum''
      then Some (Inr (Cusum (CusumDetector_make (mean cfg) (stddev cfg) (slack cfg) (threshold cfg))))
      else Some (Inl (''unknown detector type: '' @ det_type cfg)))"

text \<open>A detector after a sequence of readings, and the vote on one more.\<close>

definition after :: "AnomalyDetector \<Rightarrow> double list \<Rightarrow> AnomalyDetector" where
  "after d vs = foldl (\<lambda>d v. snd (detect d v)) d vs"

definition vote :: "AnomalyDetector \<Rightarrow> double \<Rightarrow> AnomalyResult" where
  "vote d v = fst (detect d v)"

lemma after_simps [simp]: "after d [] = d" "after d (vs @ [v]) = snd (detect (after d vs) v)"
  "after d (v # vs) = after (snd (detect d v)) vs"
  by (simp_all add: after_def)

lemma after_append: "after d (vs @ ws) = after (after d vs) ws"
  by (simp add: after_def)

section \<open>The z-score window\<close>

definition z_window_ok :: "ZScoreDetector \<Rightarrow> bool" where
  "z_window_ok d \<longleftrightarrow> length (z_window d) \<le> unat (z_window_size d) \<and> unat (z_window_size d) + 1 < 2 ^ 64"

lemma z_push_window:
  assumes "z_window_ok s"
  shows "z_window (z_push s x) = last_n (unat (z_window_size s)) (z_window s @ [x])"
proof -
  let ?w = "z_window s @ [x]"
  have "unat (of_nat (length ?w) :: u64) = length ?w"
    using assms by (intro unat_of_nat_less) (simp add: z_window_ok_def)
  with assms show ?thesis
    by (cases "unat (z_window_size s) = length (z_window s)")
      (auto simp: z_window_ok_def z_push_def Let_def word_less_nat_alt last_n_def drop_Suc le_Suc_eq
        simp del: drop_append)
qed

interpretation zw: sliding_window z_push z_window "\<lambda>d. unat (z_window_size d)" z_window_ok
proof (unfold_locales, goal_cases)
  case (1 s x)
  then show ?case by (simp add: z_window_ok_def z_push_window) (simp add: z_push_def Let_def)
next
  case (2 s x)
  then show ?case by (simp add: z_push_def Let_def)
next
  case (3 s)
  then show ?case by (simp add: z_window_ok_def)
next
  case (4 s x)
  then show ?case by (rule z_push_window)
qed

lemma after_ZScore: "after (ZScore d) vs = ZScore (foldl z_push d vs)"
  by (induction vs arbitrary: d) (auto simp: z_observe_def)

lemma z_make_ok: "unat n + 1 < 2 ^ 64 \<Longrightarrow> z_window_ok (ZScoreDetector_make n t)"
  by (simp add: z_window_ok_def ZScoreDetector_make_def)

lemma foldl_z_push_fields:
  "z_threshold_sigma (foldl z_push d vs) = z_threshold_sigma d" "z_warmup (foldl z_push d vs) = z_warmup d"
  by (induction vs arbitrary: d) (auto simp: z_push_def Let_def)

section \<open>Fields that never change\<close>

lemma after_Ewma: "\<exists>d'. after (Ewma d) vs = Ewma d' \<and> e_threshold_sigma d' = e_threshold_sigma d \<and>
    e_warmup d' = e_warmup d \<and> e_alpha d' = e_alpha d \<and> e_samples d' = e_samples d + of_nat (length vs)"
proof (induction vs arbitrary: d)
  case (Cons v vs)
  from Cons.IH [of "snd (e_observe d v)"] show ?case
    by (auto simp: e_observe_def Let_def add.assoc)
qed simp

lemma after_Cusum: "\<exists>d'. after (Cusum d) vs = Cusum d' \<and> c_threshold d' = c_threshold d"
proof (induction vs arbitrary: d)
  case (Cons v vs)
  from Cons.IH [of "snd (c_observe d v)"] show ?case
    by (auto simp: c_observe_def Let_def)
qed simp

section \<open>Signs of the vote's magnitude\<close>

lemma d_sign_d_two: "\<not> d_sign d_two" "\<not> d_sign d_1p5" "\<not> d_nan d_two" "\<not> d_sign d_1em9"
  unfolding d_two_def d_1p5_def d_1em9_def by code_simp+

lemma ratio_unit:
  assumes "\<not> d_sign z \<or> d_nan z" "\<not> d_sign y \<or> d_nan y"
  shows "d_unit (d_min d_one (d_div z y))"
proof (rule d_min_one_unit, rule disjCI)
  assume "\<not> \<not> d_sign (d_div z y)"
  then show "d_nan (d_div z y)"
    using assms d_div_sign [of z y] by (auto simp: d_div_def)
qed

lemma times_unsigned: "\<not> d_sign t \<Longrightarrow> \<not> d_sign y \<Longrightarrow> \<not> d_sign (d_mul t y) \<or> d_nan (d_mul t y)"
  using d_mul_sign [of t y] by blast

lemma sigma_vote_unit:
  assumes "\<not> d_sign t" "d_lt 0 sd"
  shows "d_unit (confidence (sigma_vote t dev sd))"
proof -
  have "\<not> d_sign sd" using assms(2) by (simp add: d_lt_def d_val_pos_sign)
  then have "\<not> d_sign (d_div (d_abs dev) sd) \<or> d_nan (d_div (d_abs dev) sd)"
    using d_div_sign [of "d_abs dev" sd] by auto
  with times_unsigned [OF assms(1) d_sign_d_two(1)] show ?thesis
    by (simp add: sigma_vote_def Let_def ratio_unit)
qed

lemma no_vote_unit [simp]: "d_unit (confidence no_vote)"
  by (simp add: no_vote_def d_unit_def d_le_def)

lemma d_max_zero_sign: "\<not> d_sign (d_max 0 x)" "\<not> d_nan (d_max 0 x)" "d_le 0 (d_max 0 x)"
  by (auto simp: d_max_def d_lt_def d_le_def d_val_pos_sign)

lemma d_drive_sign: "\<not> d_sign (d_max (d_max 0 x) (d_max 0 y))"
  using d_max_cases [of "d_max 0 x" "d_max 0 y"] d_max_zero_sign by metis

lemma d_1em9_pos: "d_lt d_1em9 sd \<Longrightarrow> d_lt 0 sd"
proof -
  have "d_lt 0 d_1em9" unfolding d_1em9_def by code_simp
  then show "d_lt d_1em9 sd \<Longrightarrow> d_lt 0 sd" by (simp add: d_lt_def)
qed

lemma z_vote_unit: "\<not> d_sign t \<Longrightarrow> d_unit (confidence (z_vote wu t w v))"
  by (simp add: z_vote_def Let_def sigma_vote_unit d_1em9_pos)

lemma e_vote_unit: "\<not> d_sign (e_threshold_sigma d) \<Longrightarrow> d_unit (confidence (fst (e_observe d v)))"
  by (simp add: e_observe_def Let_def sigma_vote_unit d_1em9_pos)

lemma c_vote_unit: "\<not> d_sign (c_threshold d) \<Longrightarrow> d_unit (confidence (fst (c_observe d v)))"
  using times_unsigned [OF _ d_sign_d_two(2), of "c_threshold d"]
  by (simp add: c_observe_def Let_def ratio_unit d_drive_sign)

lemma z_vote_history:
  assumes "unat n + 1 < 2 ^ 64"
  shows "vote (after (ZScore (ZScoreDetector_make n t)) vs) v =
    z_vote (min n (max 5 (n div 2))) t (last_n (unat n) vs) v"
proof -
  let ?d = "ZScoreDetector_make n t"
  have "z_window (foldl z_push ?d vs) = last_n (unat n) vs"
    using zw.history_from_empty [OF z_make_ok [OF assms, of t], of vs] by (simp add: ZScoreDetector_make_def)
  then show ?thesis
    by (simp add: vote_def after_ZScore z_observe_def foldl_z_push_fields) (simp add: ZScoreDetector_make_def)
qed

section \<open>Properties\<close>



definition cusum_bounded :: "CusumDetector \<Rightarrow> bool" where
  "cusum_bounded d \<longleftrightarrow> d_le 0 (c_high d) \<and> d_le (c_high d) (c_threshold d) \<and>
     d_le 0 (c_low d) \<and> d_le (c_low d) (c_threshold d)"

lemma c_observe_bounded:
  assumes "d_le 0 (c_threshold d)"
  shows "cusum_bounded (snd (c_observe d v))"
proof -
  define x where "x = d_sub (d_add (c_high d) (d_div (d_sub v (c_mean d)) (c_stddev d))) (c_slack d)"
  define y where "y = d_sub (d_sub (c_low d) (d_div (d_sub v (c_mean d)) (c_stddev d))) (c_slack d)"
  let ?hi = "d_max 0 x" let ?lo = "d_max 0 y" let ?t = "c_threshold d"
  have c: "snd (c_observe d v) = (if d_lt ?t (d_max ?hi ?lo)
      then d\<lparr>c_high := 0, c_low := 0\<rparr> else d\<lparr>c_high := ?hi, c_low := ?lo\<rparr>)"
    by (simp add: c_observe_def Let_def x_def y_def)
  have nn: "\<not> d_nan ?hi" "\<not> d_nan ?lo" "\<not> d_nan ?t" "\<not> d_nan (d_max ?hi ?lo)"
    using assms d_max_zero_sign(2) d_max_not_nan [OF d_max_zero_sign(2)] by (simp_all add: d_le_def)
  have "d_le ?hi ?t \<and> d_le ?lo ?t" if "\<not> d_lt ?t (d_max ?hi ?lo)"
  proof -
    from that nn have "d_le (d_max ?hi ?lo) ?t" by (simp add: d_not_lt)
    with d_max_ge [OF nn(1), of ?lo] nn(2) show ?thesis by (auto intro: d_le_trans)
  qed
  with assms d_max_zero_sign(3) show ?thesis
    by (simp add: c cusum_bounded_def d_le_refl)
qed



lemma z_silent:
  assumes "unat n + 1 < 2 ^ 64" "length vs < max 2 (min (unat n) (max 5 (unat n div 2)))"
  shows "vote (after (ZScore (ZScoreDetector_make n t)) vs) v = no_vote"
proof -
  let ?w = "last_n (unat n) vs"
  have w: "unat (of_nat (length ?w) :: u64) = length ?w"
    using assms(1) by (intro unat_of_nat_less) simp
  have m: "unat (max 2 (min n (max 5 (n div 2)))) = max 2 (min (unat n) (max 5 (unat n div 2)))"
    by (auto simp: max_def min_def word_le_nat_alt unat_div)
  have "length ?w \<le> length vs" by simp
  then have "\<not> max 2 (min n (max 5 (n div 2))) \<le> (of_nat (length ?w) :: u64)"
    unfolding word_le_nat_alt w m not_le using assms(2) by (rule le_less_trans)
  then have "z_vote (min n (max 5 (n div 2))) t ?w v = no_vote" unfolding z_vote_def by (rule if_not_P)
  then show ?thesis by (simp only: z_vote_history [OF assms(1)])
qed

lemma e_silent:
  assumes "EwmaDetector_make a t = Some e" "length vs < d_ceil_nat (d_div d_three (d_max a d_1em3))"
  shows "vote (after (Ewma e) vs) v = no_vote"
proof -
  let ?n = "d_ceil_nat (d_div d_three (d_max a d_1em3))"
  let ?c = "\<lceil>d_val (d_div d_three (d_max a d_1em3))\<rceil>"
  from assms(1) have c: "0 \<le> ?c" "?c < 2 ^ 64" and e: "e_warmup e = of_nat ?n" "e_samples e = 0"
    unfolding EwmaDetector_make_def Let_def by (auto split: if_splits)
  have "?n < 2 ^ 64" using c unfolding d_ceil_nat_def by (simp add: nat_less_iff)
  obtain e' where e': "after (Ewma e) vs = Ewma e'" "e_warmup e' = of_nat ?n" "e_samples e' = of_nat (length vs)"
    using after_Ewma [of e vs] e by auto
  have "unat (of_nat ?n :: u64) = ?n" "unat (of_nat (length vs) :: u64) = length vs"
    using assms(2) \<open>?n < 2 ^ 64\<close> by (auto intro!: unat_of_nat_less)
  then have "\<not> e_warmup e' \<le> e_samples e'" using assms(2) by (simp add: e' word_le_nat_alt)
  with e' show ?thesis by (simp add: vote_def e_observe_def Let_def)
qed

text \<open>No strategy votes before it has warmed up: the z-score needs half its window (at least five
  readings, never more than the window, never fewer than two), the moving average
  \<open>ceil(3 / alpha)\<close> readings.\<close>

theorem no_vote_during_warmup:
  "(unat n + 1 < 2 ^ 64 \<longrightarrow> length vs < max 2 (min (unat n) (max 5 (unat n div 2))) \<longrightarrow>
     vote (after (ZScore (ZScoreDetector_make n t)) vs) v = no_vote) \<and>
   (EwmaDetector_make a t = Some e \<longrightarrow> length ws < d_ceil_nat (d_div d_three (d_max a d_1em3)) \<longrightarrow>
     vote (after (Ewma e) ws) v = no_vote)"
  using z_silent e_silent by blast

definition demo_ewma :: EwmaDetector where
  "demo_ewma = the (EwmaDetector_make d_one d_three)"

lemma demo_ewma_warmup:
  "EwmaDetector_make d_one d_three = Some demo_ewma" "d_ceil_nat (d_div d_three (d_max d_one d_1em3)) = 3"
  unfolding demo_ewma_def by code_simp+

theorem no_vote_during_warmup_witness:
  "vote (after (ZScore (ZScoreDetector_make 60 d_three)) [d_one, d_nan_val]) d_two = no_vote \<and>
   vote (after (Ewma demo_ewma) [d_one, d_two]) d_three = no_vote"
proof -
  have "unat (60 :: u64) + 1 < 2 ^ 64" "length [d_one, d_nan_val] < max 2 (min (unat (60 :: u64)) (max 5 (unat (60 :: u64) div 2)))"
    by simp_all
  then have z: "vote (after (ZScore (ZScoreDetector_make 60 d_three)) [d_one, d_nan_val]) d_two = no_vote"
    using no_vote_during_warmup [of 60 "[d_one, d_nan_val]" d_three d_two] by blast
  have "length [d_one, d_two] < d_ceil_nat (d_div d_three (d_max d_one d_1em3))"
    unfolding demo_ewma_warmup by simp
  then have "vote (after (Ewma demo_ewma) [d_one, d_two]) d_three = no_vote"
    using no_vote_during_warmup [where a = d_one and t = d_three and e = demo_ewma] demo_ewma_warmup(1) by blast
  with z show ?thesis ..
qed

end
