(* ===== verification/EventBus.thy ===== *)
theory EventBus
  imports Prelude
begin

text \<open>
  \<open>core/event_bus.hpp\<close>: typed publish/subscribe. \<open>'t\<close> is the event type (\<open>std::type_index\<close>), \<open>'h\<close> a
  handler. A handler may do anything to the program's state, the bus included, so \<open>publish\<close> takes
  the interpretation of a handler as a state transformer; what the code guarantees is which handlers
  run. The mutex makes each operation one step.
\<close>

record ('t, 'h) EventBus =
  handlers :: "'t \<Rightarrow> (u64 \<times> 'h) list option"
  next_id :: u64

definition EventBus_make :: "('t, 'h) EventBus" where
  "EventBus_make = \<lparr>handlers = Map.empty, next_id = 1\<rparr>"

definition subscribe :: "'t \<Rightarrow> 'h \<Rightarrow> ('t, 'h) EventBus \<Rightarrow> u64 \<times> ('t, 'h) EventBus" where
  "subscribe ty h bus =
     (let slot = (case handlers bus ty of None \<Rightarrow> [] | Some slot \<Rightarrow> slot); sid = next_id bus
      in (sid, bus\<lparr>handlers := (handlers bus)(ty \<mapsto> slot @ [(sid, h)]), next_id := sid + 1\<rparr>))"

definition unsubscribe :: "'t \<Rightarrow> u64 \<Rightarrow> ('t, 'h) EventBus \<Rightarrow> ('t, 'h) EventBus" where
  "unsubscribe ty sid bus =
     (case handlers bus ty of None \<Rightarrow> bus
      | Some slot \<Rightarrow> bus\<lparr>handlers := (handlers bus)(ty \<mapsto> filter (\<lambda>entry. fst entry \<noteq> sid) slot)\<rparr>)"

text \<open>The copy taken under the lock, and the calls made after releasing it.\<close>

definition callbacks :: "'t \<Rightarrow> ('t, 'h) EventBus \<Rightarrow> 'h list" where
  "callbacks ty bus = (case handlers bus ty of None \<Rightarrow> [] | Some slot \<Rightarrow> map snd slot)"

definition publish :: "('s \<Rightarrow> ('t, 'h) EventBus) \<Rightarrow> ('h \<Rightarrow> 'e \<Rightarrow> 's \<Rightarrow> 's) \<Rightarrow> 't \<Rightarrow> 'e \<Rightarrow> 's \<Rightarrow> 's" where
  "publish bus_of call ty event s = foldl (\<lambda>s cb. call cb event s) s (callbacks ty (bus_of s))"

section \<open>Specification: the list of live subscriptions\<close>

datatype ('t, 'h) bus_op = Subscribe 't 'h | Unsubscribe 't u64

fun bus_do :: "('t, 'h) EventBus \<Rightarrow> ('t, 'h) bus_op \<Rightarrow> ('t, 'h) EventBus" where
  "bus_do bus (Subscribe ty h) = snd (subscribe ty h bus)"
| "bus_do bus (Unsubscribe ty sid) = unsubscribe ty sid bus"

text \<open>Abstractly: subscriptions get the numbers 1, 2, ... in order; unsubscribing removes the one with
  that number, if it is of that type.\<close>

fun spec_do :: "nat \<times> (u64 \<times> 't \<times> 'h) list \<Rightarrow> ('t, 'h) bus_op \<Rightarrow> nat \<times> (u64 \<times> 't \<times> 'h) list" where
  "spec_do (n, live) (Subscribe ty h) = (n + 1, live @ [(of_nat (n + 1), ty, h)])"
| "spec_do (n, live) (Unsubscribe ty sid) = (n, filter (\<lambda>(sid', ty', _). \<not> (sid' = sid \<and> ty' = ty)) live)"

definition of_type :: "'t \<Rightarrow> (u64 \<times> 't \<times> 'h) list \<Rightarrow> (u64 \<times> 'h) list" where
  "of_type ty live = map (\<lambda>(sid, _, h). (sid, h)) (filter (\<lambda>(_, ty', _). ty' = ty) live)"

definition bus_abs :: "('t, 'h) EventBus \<Rightarrow> nat \<times> (u64 \<times> 't \<times> 'h) list \<Rightarrow> bool" where
  "bus_abs bus = (\<lambda>(n, live). next_id bus = of_nat (n + 1) \<and>
     (\<forall>ty. (case handlers bus ty of None \<Rightarrow> [] | Some slot \<Rightarrow> slot) = of_type ty live))"

lemma of_type_simps [simp]: "of_type ty [] = []"
  "of_type ty (live @ [(sid, ty', h)]) = of_type ty live @ (if ty' = ty then [(sid, h)] else [])"
  by (simp_all add: of_type_def)

lemma of_type_filter:
  "of_type ty (filter (\<lambda>(sid', ty', _). \<not> (sid' = sid \<and> ty' = ty0)) live) =
     (if ty = ty0 then filter (\<lambda>entry. fst entry \<noteq> sid) (of_type ty live) else of_type ty live)"
  by (induction live) (auto simp: of_type_def)

lemma bus_do_abs: "bus_abs bus sp \<Longrightarrow> bus_abs (bus_do bus op) (spec_do sp op)"
proof (cases sp; cases op)
  fix n live ty h
  assume "bus_abs bus sp" "sp = (n, live)" "op = Subscribe ty h"
  then show ?thesis by (auto simp: bus_abs_def subscribe_def Let_def)
next
  fix n live ty sid
  assume a: "bus_abs bus sp" and sp: "sp = (n, live)" and op: "op = Unsubscribe ty sid"
  have slot: "(case handlers bus ty' of None \<Rightarrow> [] | Some slot \<Rightarrow> slot) = of_type ty' live" for ty'
    using a by (simp add: bus_abs_def sp)
  show ?thesis
  proof (cases "handlers bus ty")
    case None
    with slot [of ty] have "of_type ty live = []" by simp
    with None a show ?thesis
      by (simp add: bus_abs_def sp op unsubscribe_def of_type_filter del: de_Morgan_conj)
  next
    case (Some sl)
    with slot [of ty] have "of_type ty live = sl" by simp
    with Some a show ?thesis
      by (simp add: bus_abs_def sp op unsubscribe_def of_type_filter del: de_Morgan_conj)
  qed
qed

lemma bus_run_abs: "bus_abs bus sp \<Longrightarrow> bus_abs (foldl bus_do bus ops) (foldl spec_do sp ops)"
  by (induction ops arbitrary: bus sp) (auto simp: bus_do_abs)

lemma callbacks_abs: "bus_abs bus (n, live) \<Longrightarrow> callbacks ty bus = map snd (of_type ty live)"
proof -
  assume "bus_abs bus (n, live)"
  then have "(case handlers bus ty of None \<Rightarrow> [] | Some slot \<Rightarrow> slot) = of_type ty live"
    by (simp add: bus_abs_def)
  then show ?thesis by (cases "handlers bus ty") (auto simp: callbacks_def)
qed

text \<open>Running handlers that log themselves and change anything else.\<close>

lemma publish_log:
  assumes "\<And>h e s. log_of (call h e s) = log_of s @ [(h, e)]"
  shows "log_of (publish bus_of call ty event s) = log_of s @ map (\<lambda>h. (h, event)) (callbacks ty (bus_of s))"
proof -
  have "log_of (foldl (\<lambda>s cb. call cb event s) s hs) = log_of s @ map (\<lambda>h. (h, event)) hs" for hs
    by (induction hs arbitrary: s) (simp_all add: assms)
  then show ?thesis by (simp add: publish_def)
qed

section \<open>Properties\<close>

text \<open>C29. The bus refines a list of live subscriptions: after any sequence of subscribe and
  unsubscribe calls, publishing an event calls exactly the handlers subscribed to its type and not
  yet unsubscribed, each once, in subscription order, with the event; what the handlers themselves do
  to the bus while they run does not change who is called.\<close>

theorem publish_calls_live_handlers:
  assumes "\<And>h e s. log_of (call h e s) = log_of s @ [(h, e)]"
    and "bus_of s = foldl bus_do EventBus_make ops" and "log_of s = []"
  shows "log_of (publish bus_of call ty event s) =
    map (\<lambda>(_, h). (h, event)) (of_type ty (snd (foldl spec_do (0, []) ops)))"
proof -
  have "bus_abs EventBus_make (0, [])" by (simp add: bus_abs_def EventBus_make_def)
  from bus_run_abs [OF this, of ops] have "callbacks ty (bus_of s) =
      map snd (of_type ty (snd (foldl spec_do (0, []) ops)))"
    using callbacks_abs assms(2) by (metis prod.collapse)
  then show ?thesis
    using assms(3) by (simp add: publish_log [of log_of call, OF assms(1)] case_prod_beta comp_def)
qed

theorem publish_calls_live_handlers_witness:
  "snd (publish fst (\<lambda>h e (bus, log). (EventBus_make, log @ [(h, e)])) ''reading'' (7 :: nat)
     (foldl bus_do EventBus_make [Subscribe ''reading'' ''a'', Subscribe ''alert'' ''b'',
        Subscribe ''reading'' ''c'', Subscribe ''reading'' ''d'', Unsubscribe ''reading'' 3], [])) =
   [(''a'', 7), (''d'', 7)]"
proof -
  let ?ops = "[Subscribe ''reading'' ''a'', Subscribe ''alert'' ''b'',
        Subscribe ''reading'' ''c'', Subscribe ''reading'' ''d'', Unsubscribe ''reading'' 3]"
  let ?s = "(foldl bus_do EventBus_make ?ops, [] :: (string \<times> nat) list)"
  let ?call = "\<lambda>h e (bus, log). (EventBus_make :: (string, string) EventBus, log @ [(h, e)])"
  have "snd (publish fst ?call ''reading'' (7 :: nat) ?s) =
      map (\<lambda>(_, h). (h, 7)) (of_type ''reading'' (snd (foldl spec_do (0, []) ?ops)))"
    by (rule publish_calls_live_handlers) auto
  then show ?thesis by (simp add: of_type_def)
qed

end
