(* ===== verification/RuleEngine.thy ===== *)
theory RuleEngine
  imports Detectors EventBus Config Printf
begin

text \<open>
  \<open>analytics/rule_engine.hpp\<close> and \<open>detector_factory.hpp\<close>: readings become alerts. The engine is the
  map from sensor ids to their rules; \<open>observe\<close> is one critical section (the mutex) followed by the
  publication of what it collected, so a run is a sequence of \<open>observe\<close> steps. \<open>seconds\<close> and time
  points are counted in nanoseconds.
\<close>

section \<open>State\<close>

record SensorRuleOptions =
  opt_votes_required :: u64
  opt_cooldown :: int \<comment> \<open>seconds\<close>
  opt_limits :: Limits

definition default_SensorRuleOptions :: SensorRuleOptions where
  "default_SensorRuleOptions = \<lparr>opt_votes_required = 0, opt_cooldown = 0, opt_limits = \<lparr>low = None, high = None\<rparr>\<rparr>"

datatype LimitState = LS_inside | LS_above | LS_below

record SensorRule =
  strategies :: "AnomalyDetector list"
  rule_votes_required :: u64
  rule_cooldown :: int
  rule_limits :: Limits
  limit_state :: LimitState
  last_limit_alert :: "time_point option"
  last_statistical_alert :: "time_point option"

type_synonym RuleEngine = "string \<Rightarrow> SensorRule option"

definition register_rule :: "string \<Rightarrow> AnomalyDetector list \<Rightarrow> SensorRuleOptions \<Rightarrow> RuleEngine \<Rightarrow> RuleEngine" where
  "register_rule sid strats options engine = engine(sid \<mapsto>
     \<lparr>strategies = strats,
      rule_votes_required = (if opt_votes_required options = 0 then of_nat (length strats)
                             else opt_votes_required options),
      rule_cooldown = opt_cooldown options, rule_limits = opt_limits options,
      limit_state = LS_inside, last_limit_alert = None, last_statistical_alert = None\<rparr>)"

text \<open>The overload that takes only a quorum.\<close>

definition register_rule_votes :: "string \<Rightarrow> AnomalyDetector list \<Rightarrow> u64 \<Rightarrow> RuleEngine \<Rightarrow> RuleEngine" where
  "register_rule_votes sid strats votes engine =
     register_rule sid strats (default_SensorRuleOptions\<lparr>opt_votes_required := votes\<rparr>) engine"

section \<open>One reading\<close>

definition cooled_down :: "time_point option \<Rightarrow> int \<Rightarrow> time_point \<Rightarrow> bool" where
  "cooled_down prev cooldown now =
     (case prev of None \<Rightarrow> True | Some t \<Rightarrow> cooldown * 1000000000 \<le> now - t)"

definition format_number :: "double \<Rightarrow> string" where
  "format_number x = snprintf 32 (fmt_f2 x)"

definition check_limits ::
  "string \<Rightarrow> SensorRule \<Rightarrow> double \<Rightarrow> time_point \<Rightarrow> SensorRule \<times> AnomalyEvent option" where
  "check_limits sid rule v t =
     (let hi = high (rule_limits rule); lo = low (rule_limits rule);
          state = (if hi \<noteq> None \<and> d_lt (the hi) v then LS_above
                   else if lo \<noteq> None \<and> d_lt v (the lo) then LS_below else LS_inside);
          entered_breach = (state \<noteq> LS_inside \<and> state \<noteq> limit_state rule);
          rule = rule\<lparr>limit_state := state\<rparr>
      in if \<not> entered_breach \<or> \<not> cooled_down (last_limit_alert rule) (rule_cooldown rule) t
         then (rule, None)
         else let above = (state = LS_above); lim = (if above then the hi else the lo)
           in (rule\<lparr>last_limit_alert := Some t\<rparr>, Some
             \<lparr>a_sensor_id = sid, a_detector_name = ''limit'',
              a_message = ''value '' @ format_number v @ (if above then '' above high'' else '' below low'') @
                '' limit '' @ format_number lim,
              a_score = d_abs (d_sub v lim), a_confidence = d_one, a_timestamp = t, a_votes = 0,
              a_detectors_total = 0, a_kind = AK_limit, a_severity = Sev_critical, a_value = v,
              a_limit = Some lim, a_above_limit = above\<rparr>))"

fun join :: "string list \<Rightarrow> string" where
  "join [] = []"
| "join [n] = n"
| "join (n # ns) = n @ ''+'' @ join ns"

definition run_detectors ::
  "string \<Rightarrow> SensorRule \<Rightarrow> double \<Rightarrow> time_point \<Rightarrow> SensorRule \<times> AnomalyEvent option" where
  "run_detectors sid rule v t =
     (if strategies rule = [] then (rule, None)
      else let observed = map (\<lambda>d. detect d v) (strategies rule);
               votes = map fst observed;
               names = map (detector_name \<circ> snd) (filter (is_anomaly \<circ> fst) observed);
               rule = rule\<lparr>strategies := map snd observed\<rparr>
        in if of_nat (length names) < rule_votes_required rule \<or>
              \<not> cooled_down (last_statistical_alert rule) (rule_cooldown rule) t
           then (rule, None)
           else (rule\<lparr>last_statistical_alert := Some t\<rparr>, Some
             \<lparr>a_sensor_id = sid, a_detector_name = join names,
              a_message = ''anomaly confirmed by '' @ dec_nat (length names) @ ''/'' @
                dec_nat (length votes) @ '' detector(s)'',
              a_score = foldl (\<lambda>m r. d_max m (score r)) 0 votes,
              a_confidence = foldl (\<lambda>m r. d_max m (confidence r)) 0 votes, a_timestamp = t,
              a_votes = length names, a_detectors_total = length votes, a_kind = AK_statistical,
              a_severity = Sev_warning, a_value = v, a_limit = None, a_above_limit = False\<rparr>))"

text \<open>The alerts of one reading are collected under the lock, in this order, and published after it.\<close>

definition observe :: "string \<Rightarrow> double \<Rightarrow> time_point \<Rightarrow> RuleEngine \<Rightarrow> RuleEngine \<times> AnomalyEvent list" where
  "observe sid v t engine =
     (case engine sid of None \<Rightarrow> (engine, [])
      | Some rule \<Rightarrow>
        let (rule, a) = check_limits sid rule v t;
            (rule, b) = run_detectors sid rule v t
        in (engine(sid \<mapsto> rule), (case a of None \<Rightarrow> [] | Some a \<Rightarrow> [a]) @ (case b of None \<Rightarrow> [] | Some b \<Rightarrow> [b])))"

definition observe_publish ::
  "('s \<Rightarrow> ('t, 'h) EventBus) \<Rightarrow> ('h \<Rightarrow> AnomalyEvent \<Rightarrow> 's \<Rightarrow> 's) \<Rightarrow> 't \<Rightarrow>
   string \<Rightarrow> double \<Rightarrow> time_point \<Rightarrow> RuleEngine \<Rightarrow> 's \<Rightarrow> RuleEngine \<times> 's" where
  "observe_publish bus_of call alert_type sid v t engine s =
     (let (engine, alerts) = observe sid v t engine
      in (engine, foldl (\<lambda>s a. publish bus_of call alert_type a s) s alerts))"

section \<open>Registration from the configuration\<close>

fun make_detectors :: "DetectorConfig list \<Rightarrow> (string + AnomalyDetector list) ub" where
  "make_detectors [] = Some (Inr [])"
| "make_detectors (c # cs) =
     (case make_detector c of None \<Rightarrow> None | Some (Inl e) \<Rightarrow> Some (Inl e)
      | Some (Inr d) \<Rightarrow> (case make_detectors cs of None \<Rightarrow> None | Some (Inl e) \<Rightarrow> Some (Inl e)
          | Some (Inr ds) \<Rightarrow> Some (Inr (d # ds))))"

definition register_sensor :: "RuleEngine \<Rightarrow> SensorConfig \<Rightarrow> (string + RuleEngine) ub" where
  "register_sensor engine sensor =
     (case make_detectors (detectors (detection sensor)) of None \<Rightarrow> None | Some (Inl e) \<Rightarrow> Some (Inl e)
      | Some (Inr ds) \<Rightarrow> Some (Inr (register_rule (sensor_id sensor) ds
          \<lparr>opt_votes_required = votes_required (detection sensor),
           opt_cooldown = uint (cooldown_seconds (detection sensor)), opt_limits = limits sensor\<rparr> engine)))"

section \<open>Runs\<close>

text \<open>A sequence of readings, and all the alerts they raise.\<close>

type_synonym reading = "string \<times> double \<times> time_point"

fun observe_all :: "reading list \<Rightarrow> RuleEngine \<Rightarrow> RuleEngine \<times> AnomalyEvent list" where
  "observe_all [] engine = (engine, [])"
| "observe_all ((sid, v, t) # rs) engine =
     (let (engine, alerts) = observe sid v t engine; (engine, more) = observe_all rs engine
      in (engine, alerts @ more))"

section \<open>What one reading does\<close>

definition last_alert :: "AlertKind \<Rightarrow> SensorRule \<Rightarrow> time_point option" where
  "last_alert k rule = (if k = AK_limit then last_limit_alert rule else last_statistical_alert rule)"

definition of_kind :: "string \<Rightarrow> AlertKind \<Rightarrow> AnomalyEvent list \<Rightarrow> AnomalyEvent list" where
  "of_kind sid k = filter (\<lambda>a. a_sensor_id a = sid \<and> a_kind a = k)"

lemma of_kind_simps [simp]: "of_kind sid k [] = []" "of_kind sid k (xs @ ys) = of_kind sid k xs @ of_kind sid k ys"
  by (simp_all add: of_kind_def)

definition quorum :: "SensorRule \<Rightarrow> double \<Rightarrow> bool" where
  "quorum rule v \<longleftrightarrow> strategies rule \<noteq> [] \<and>
     rule_votes_required rule \<le> of_nat (length (filter (\<lambda>d. is_anomaly (vote d v)) (strategies rule)))"

lemma check_limits_fields:
  assumes "check_limits sid rule v t = (rule', a)"
  shows "strategies rule' = strategies rule" "rule_votes_required rule' = rule_votes_required rule"
    "rule_cooldown rule' = rule_cooldown rule" "rule_limits rule' = rule_limits rule"
    "last_statistical_alert rule' = last_statistical_alert rule"
    "last_limit_alert rule' = (if a = None then last_limit_alert rule else Some t)"
    "\<And>e. a = Some e \<Longrightarrow> a_sensor_id e = sid \<and> a_kind e = AK_limit \<and> a_timestamp e = t \<and>
       cooled_down (last_limit_alert rule) (rule_cooldown rule) t"
  using assms by (auto simp: check_limits_def Let_def split: if_splits)

lemma run_detectors_fields:
  assumes "run_detectors sid rule v t = (rule', b)"
  shows "strategies rule' = map (\<lambda>d. snd (detect d v)) (strategies rule)"
    "rule_votes_required rule' = rule_votes_required rule"
    "rule_cooldown rule' = rule_cooldown rule" "rule_limits rule' = rule_limits rule"
    "limit_state rule' = limit_state rule" "last_limit_alert rule' = last_limit_alert rule"
    "last_statistical_alert rule' = (if b = None then last_statistical_alert rule else Some t)"
    "\<And>e. b = Some e \<Longrightarrow> a_sensor_id e = sid \<and> a_kind e = AK_statistical \<and> a_timestamp e = t"
    "b \<noteq> None \<longleftrightarrow> quorum rule v \<and> cooled_down (last_statistical_alert rule) (rule_cooldown rule) t"
proof -
  have n: "length (filter (is_anomaly \<circ> fst) (map (\<lambda>d. detect d v) (strategies rule))) =
      length (filter (\<lambda>d. is_anomaly (vote d v)) (strategies rule))"
    by (simp add: vote_def comp_def filter_map)
  show "strategies rule' = map (\<lambda>d. snd (detect d v)) (strategies rule)"
    "rule_votes_required rule' = rule_votes_required rule"
    "rule_cooldown rule' = rule_cooldown rule" "rule_limits rule' = rule_limits rule"
    "limit_state rule' = limit_state rule" "last_limit_alert rule' = last_limit_alert rule"
    "last_statistical_alert rule' = (if b = None then last_statistical_alert rule else Some t)"
    "\<And>e. b = Some e \<Longrightarrow> a_sensor_id e = sid \<and> a_kind e = AK_statistical \<and> a_timestamp e = t"
    using assms by (auto simp: run_detectors_def Let_def split: if_splits)
  show "b \<noteq> None \<longleftrightarrow> quorum rule v \<and> cooled_down (last_statistical_alert rule) (rule_cooldown rule) t"
    using assms n by (auto simp: run_detectors_def Let_def quorum_def not_less split: if_splits)
qed

lemma observe_parts:
  assumes "engine sid = Some rule" "check_limits sid rule v t = (r1, a)" "run_detectors sid r1 v t = (r2, b)"
  shows "observe sid v t engine = (engine(sid \<mapsto> r2),
      (case a of None \<Rightarrow> [] | Some a \<Rightarrow> [a]) @ (case b of None \<Rightarrow> [] | Some b \<Rightarrow> [b]))"
    and "of_kind sid k (snd (observe sid v t engine)) =
      (if k = AK_limit then (case a of None \<Rightarrow> [] | Some a \<Rightarrow> [a]) else (case b of None \<Rightarrow> [] | Some b \<Rightarrow> [b]))"
proof -
  show al: "observe sid v t engine = (engine(sid \<mapsto> r2),
      (case a of None \<Rightarrow> [] | Some a \<Rightarrow> [a]) @ (case b of None \<Rightarrow> [] | Some b \<Rightarrow> [b]))"
    by (simp add: observe_def assms)
  show "of_kind sid k (snd (observe sid v t engine)) =
      (if k = AK_limit then (case a of None \<Rightarrow> [] | Some a \<Rightarrow> [a]) else (case b of None \<Rightarrow> [] | Some b \<Rightarrow> [b]))"
    using check_limits_fields(7) [OF assms(2)] run_detectors_fields(8) [OF assms(3)]
    by (cases k) (auto simp: al of_kind_def split: option.splits)
qed

text \<open>One reading: the sensor's strategies all advance, other sensors are untouched, and of each kind
  there is no alert, or one after a cooldown whose time is remembered.\<close>

lemma observe_step:
  assumes "engine sid = Some rule"
  shows "\<exists>rule'. fst (observe sid v t engine) = engine(sid \<mapsto> rule') \<and>
    strategies rule' = map (\<lambda>d. snd (detect d v)) (strategies rule) \<and>
    rule_votes_required rule' = rule_votes_required rule \<and> rule_cooldown rule' = rule_cooldown rule \<and>
    (\<forall>k. let alerts = of_kind sid k (snd (observe sid v t engine)) in
       (alerts = [] \<and> last_alert k rule' = last_alert k rule) \<or>
       (\<exists>a. alerts = [a] \<and> a_timestamp a = t \<and> last_alert k rule' = Some t \<and>
          cooled_down (last_alert k rule) (rule_cooldown rule) t)) \<and>
    (of_kind sid AK_statistical (snd (observe sid v t engine)) \<noteq> [] \<longleftrightarrow>
       quorum rule v \<and> cooled_down (last_alert AK_statistical rule) (rule_cooldown rule) t) \<and>
    (\<forall>a \<in> set (snd (observe sid v t engine)). a_sensor_id a = sid)"
proof -
  obtain r1 a where c: "check_limits sid rule v t = (r1, a)" by force
  obtain r2 b where d: "run_detectors sid r1 v t = (r2, b)" by force
  note f = check_limits_fields [OF c] and g = run_detectors_fields [OF d]
  have q: "quorum r1 v = quorum rule v" by (simp add: quorum_def f)
  note al = observe_parts(1) [of engine sid rule, OF assms c d] and kinds = observe_parts(2) [of engine sid rule, OF assms c d]
  have "(of_kind sid k (snd (observe sid v t engine)) = [] \<and> last_alert k r2 = last_alert k rule) \<or>
      (\<exists>a. of_kind sid k (snd (observe sid v t engine)) = [a] \<and> a_timestamp a = t \<and> last_alert k r2 = Some t \<and>
          cooled_down (last_alert k rule) (rule_cooldown rule) t)" for k
  proof (cases k)
    case AK_limit
    then show ?thesis using f(7) by (cases a) (simp_all add: kinds last_alert_def f(6) g(6))
  next
    case AK_statistical
    then show ?thesis using g(8,9) by (cases b) (simp_all add: kinds last_alert_def f(3,5) g(7))
  qed
  moreover have "of_kind sid AK_statistical (snd (observe sid v t engine)) \<noteq> [] \<longleftrightarrow>
       quorum rule v \<and> cooled_down (last_alert AK_statistical rule) (rule_cooldown rule) t"
    using g(9) q by (auto simp: kinds last_alert_def f(3,5) split: option.splits)
  moreover have "\<forall>a \<in> set (snd (observe sid v t engine)). a_sensor_id a = sid"
    using f(7) g(8) by (auto simp: al split: option.splits)
  moreover have "fst (observe sid v t engine) = engine(sid \<mapsto> r2)"
    "strategies r2 = map (\<lambda>d. snd (detect d v)) (strategies rule)"
    "rule_votes_required r2 = rule_votes_required rule" "rule_cooldown r2 = rule_cooldown rule"
    by (simp_all add: al f(1-3) g(1-3))
  ultimately show ?thesis unfolding Let_def by blast
qed

lemma observe_unknown: "engine sid = None \<Longrightarrow> observe sid v t engine = (engine, [])"
  by (simp add: observe_def)

text \<open>A reading of another sensor: nothing of this sensor changes, and no alert is about it.\<close>

lemma observe_other:
  assumes "sid' \<noteq> sid"
  shows "fst (observe sid' v t engine) sid = engine sid" and "of_kind sid k (snd (observe sid' v t engine)) = []"
proof -
  have "fst (observe sid' v t engine) sid = engine sid \<and>
      (\<forall>a \<in> set (snd (observe sid' v t engine)). a_sensor_id a = sid')"
  proof (cases "engine sid'")
    case None
    then show ?thesis by (simp add: observe_unknown)
  next
    case (Some rule)
    from observe_step [of engine sid' rule v t, OF this] assms show ?thesis by auto
  qed
  then show "fst (observe sid' v t engine) sid = engine sid" "of_kind sid k (snd (observe sid' v t engine)) = []"
    using assms by (auto simp: of_kind_def filter_empty_conv)
qed

section \<open>Runs\<close>

lemma observe_all_Cons:
  "observe_all ((sid, v, t) # rs) engine =
     (fst (observe_all rs (fst (observe sid v t engine))),
      snd (observe sid v t engine) @ snd (observe_all rs (fst (observe sid v t engine))))"
  by (simp add: case_prod_beta Let_def)

declare observe_all.simps(2) [simp del]

definition values_of :: "string \<Rightarrow> reading list \<Rightarrow> double list" where
  "values_of sid rs = map (fst \<circ> snd) (filter (\<lambda>r. fst r = sid) rs)"

text \<open>The last alert's time of a kind, as an observer of the alerts sees it.\<close>

definition last_time :: "time_point option \<Rightarrow> AnomalyEvent list \<Rightarrow> time_point option" where
  "last_time before alerts = (if alerts = [] then before else Some (a_timestamp (last alerts)))"

lemma last_time_append: "last_time before (xs @ ys) = last_time (last_time before xs) ys"
  by (simp add: last_time_def)

lemma observe_all_state:
  assumes "engine sid = Some rule"
  shows "\<exists>rule'. fst (observe_all rs engine) sid = Some rule' \<and>
    strategies rule' = map (\<lambda>d. after d (values_of sid rs)) (strategies rule) \<and>
    rule_votes_required rule' = rule_votes_required rule \<and> rule_cooldown rule' = rule_cooldown rule \<and>
    (\<forall>k. last_alert k rule' = last_time (last_alert k rule) (of_kind sid k (snd (observe_all rs engine))))"
  using assms
proof (induction rs arbitrary: engine rule)
  case Nil
  then show ?case by (simp add: values_of_def last_time_def)
next
  case (Cons r rs)
  obtain sid' v t where r: "r = (sid', v, t)" by (cases r)
  let ?e = "fst (observe sid' v t engine)"
  show ?case
  proof (cases "sid' = sid")
    case True
    from observe_step [of engine sid rule v t, OF Cons.prems] obtain r1 where
      r1: "?e = engine(sid \<mapsto> r1)" "strategies r1 = map (\<lambda>d. snd (detect d v)) (strategies rule)"
        "rule_votes_required r1 = rule_votes_required rule" "rule_cooldown r1 = rule_cooldown rule"
      and k: "\<And>k. let alerts = of_kind sid k (snd (observe sid v t engine)) in
       (alerts = [] \<and> last_alert k r1 = last_alert k rule) \<or>
       (\<exists>a. alerts = [a] \<and> a_timestamp a = t \<and> last_alert k r1 = Some t \<and>
          cooled_down (last_alert k rule) (rule_cooldown rule) t)"
      unfolding True by blast
    have "last_alert k r1 = last_time (last_alert k rule) (of_kind sid k (snd (observe sid v t engine)))" for k
      using k [of k] by (auto simp: Let_def last_time_def)
    moreover from r1(1) have "?e sid = Some r1" by simp
    from Cons.IH [of ?e r1, OF this] obtain rule' where "fst (observe_all rs ?e) sid = Some rule'"
      "strategies rule' = map (\<lambda>d. after d (values_of sid rs)) (strategies r1)"
      "rule_votes_required rule' = rule_votes_required r1" "rule_cooldown rule' = rule_cooldown r1"
      "\<forall>k. last_alert k rule' = last_time (last_alert k r1) (of_kind sid k (snd (observe_all rs ?e)))" by blast
    ultimately show ?thesis
      using r1(2-4) unfolding r observe_all_Cons True
      by (intro exI [of _ rule']) (simp add: values_of_def last_time_append True)
  next
    case False
    from observe_other(1) [OF False, of v t engine] Cons.prems have "?e sid = Some rule" by simp
    from Cons.IH [of ?e rule, OF this] show ?thesis
      using observe_other(2) [OF False] False unfolding r observe_all_Cons
      by (auto simp: values_of_def)
  qed
qed

lemma observe_all_spaced:
  assumes "engine sid = Some rule" "0 \<le> rule_cooldown rule"
  shows "(\<forall>t0. last_alert k rule = Some t0 \<longrightarrow> (\<forall>a \<in> set (of_kind sid k (snd (observe_all rs engine))).
      rule_cooldown rule * 1000000000 \<le> a_timestamp a - t0)) \<and>
    sorted_wrt (\<lambda>a b. rule_cooldown rule * 1000000000 \<le> a_timestamp b - a_timestamp a)
      (of_kind sid k (snd (observe_all rs engine)))"
  using assms
proof (induction rs arbitrary: engine rule)
  case Nil
  then show ?case by simp
next
  case (Cons r rs)
  obtain sid' v t where r: "r = (sid', v, t)" by (cases r)
  let ?e = "fst (observe sid' v t engine)"
  show ?case
  proof (cases "sid' = sid")
    case False
    from observe_other(1) [OF False, of v t engine] Cons.prems have "?e sid = Some rule" by simp
    from Cons.IH [of ?e rule, OF this Cons.prems(2)] show ?thesis
      using observe_other(2) [OF False] unfolding r observe_all_Cons by simp
  next
    case True
    from observe_step [of engine sid rule v t, OF Cons.prems(1)] obtain r1 where
      r1: "?e = engine(sid \<mapsto> r1)" "rule_cooldown r1 = rule_cooldown rule"
      and k: "(of_kind sid k (snd (observe sid v t engine)) = [] \<and> last_alert k r1 = last_alert k rule) \<or>
       (\<exists>a. of_kind sid k (snd (observe sid v t engine)) = [a] \<and> a_timestamp a = t \<and> last_alert k r1 = Some t \<and>
          cooled_down (last_alert k rule) (rule_cooldown rule) t)"
      unfolding True Let_def by blast
    from r1(1) have "?e sid = Some r1" by simp
    note IH = Cons.IH [of ?e r1, OF this, unfolded r1(2), OF Cons.prems(2)]
    from k show ?thesis
    proof (elim disjE exE conjE)
      assume "of_kind sid k (snd (observe sid v t engine)) = []" "last_alert k r1 = last_alert k rule"
      with IH show ?thesis unfolding r observe_all_Cons True by simp
    next
      fix a assume a: "of_kind sid k (snd (observe sid v t engine)) = [a]" "a_timestamp a = t"
        "last_alert k r1 = Some t" "cooled_down (last_alert k rule) (rule_cooldown rule) t"
      have "rule_cooldown rule * 1000000000 \<le> a_timestamp b - t0"
        if "last_alert k rule = Some t0" "rule_cooldown rule * 1000000000 \<le> a_timestamp b - t" for b t0
        using that a(4) Cons.prems(2) by (simp add: cooled_down_def)
      with IH a show ?thesis unfolding r observe_all_Cons True
        by (auto simp: cooled_down_def)
    qed
  qed
qed

section \<open>Limit excursions\<close>

lemma check_limits_above:
  assumes "high (rule_limits rule) = Some h" "d_lt h v" "check_limits sid rule v t = (rule', a)"
  shows "limit_state rule' = LS_above" and "a \<noteq> None \<longleftrightarrow>
    limit_state rule \<noteq> LS_above \<and> cooled_down (last_limit_alert rule) (rule_cooldown rule) t"
  using assms by (auto simp: check_limits_def Let_def split: if_splits)

lemma observe_above:
  assumes "engine sid = Some rule" "high (rule_limits rule) = Some h" "d_lt h v"
  shows "\<exists>rule'. fst (observe sid v t engine) sid = Some rule' \<and> high (rule_limits rule') = Some h \<and>
    limit_state rule' = LS_above \<and> length (of_kind sid AK_limit (snd (observe sid v t engine))) =
      (if limit_state rule \<noteq> LS_above \<and> cooled_down (last_limit_alert rule) (rule_cooldown rule) t then 1 else 0)"
proof -
  obtain r1 a where c: "check_limits sid rule v t = (r1, a)" by force
  obtain r2 b where d: "run_detectors sid r1 v t = (r2, b)" by force
  note f = check_limits_fields [OF c] and g = run_detectors_fields [OF d]
  note al = observe_parts(1) [of engine sid rule, OF assms(1) c d] and kinds = observe_parts(2) [of engine sid rule, OF assms(1) c d]
  have "length (of_kind sid AK_limit (snd (observe sid v t engine))) = (if a \<noteq> None then 1 else 0)"
    by (cases a) (simp_all add: kinds)
  with check_limits_above [OF assms(2,3) c] assms(2) show ?thesis by (simp add: al f(4) g(4,5))
qed

lemma observe_all_above:
  assumes "engine sid = Some rule" "high (rule_limits rule) = Some h" "limit_state rule = LS_above"
    "\<forall>(s, v, _) \<in> set rs. s = sid \<and> d_lt h v"
  shows "of_kind sid AK_limit (snd (observe_all rs engine)) = []"
  using assms
proof (induction rs arbitrary: engine rule)
  case (Cons r rs)
  obtain v t where r: "r = (sid, v, t)" "d_lt h v" using Cons.prems(4) by (cases r) auto
  let ?e = "fst (observe sid v t engine)"
  from observe_above [of engine sid rule h v t, OF Cons.prems(1,2) r(2), unfolded Cons.prems(3)] obtain rule' where
    "?e sid = Some rule'" "high (rule_limits rule') = Some h" "limit_state rule' = LS_above"
    and "length (of_kind sid AK_limit (snd (observe sid v t engine))) =
      (if LS_above \<noteq> LS_above \<and> cooled_down (last_limit_alert rule) (rule_cooldown rule) t then 1 else 0)"
    by (elim exE conjE)
  then have "?e sid = Some rule'" "high (rule_limits rule') = Some h" "limit_state rule' = LS_above"
    "of_kind sid AK_limit (snd (observe sid v t engine)) = []" by simp_all
  with Cons.IH [of ?e rule'] Cons.prems(4) show ?case unfolding r(1) observe_all_Cons by simp
qed (simp add: of_kind_def)

section \<open>Properties\<close>

text \<open>C24. A warning is raised exactly when the quorum agrees. For a sensor registered with some
  strategies, after any interleaving of readings of any sensors, a reading raises a statistical alert
  if and only if at least the required number of strategies call it anomalous - each strategy judged
  on the sensor's complete history, suppressed readings included - and the previous statistical alert
  of this sensor is at least the cooldown old.\<close>

theorem statistical_alert_iff:
  assumes "engine = register_rule sid strats opts engine0" and "observe_all rs engine = (engine', alerts)"
  shows "of_kind sid AK_statistical (snd (observe sid v t engine')) \<noteq> [] \<longleftrightarrow>
    strats \<noteq> [] \<and>
    (if opt_votes_required opts = 0 then of_nat (length strats) else opt_votes_required opts)
      \<le> of_nat (length (filter (\<lambda>d. is_anomaly (vote (after d (values_of sid rs)) v)) strats)) \<and>
    (let earlier = of_kind sid AK_statistical alerts in
      earlier = [] \<or> opt_cooldown opts * 1000000000 \<le> t - a_timestamp (last earlier))"
proof -
  obtain rule where rule: "engine sid = Some rule" "strategies rule = strats" "rule_cooldown rule = opt_cooldown opts"
    "rule_votes_required rule = (if opt_votes_required opts = 0 then of_nat (length strats) else opt_votes_required opts)"
    "last_alert AK_statistical rule = None"
    by (simp add: assms(1) register_rule_def last_alert_def)
  from observe_all_state [of engine sid rule rs, OF rule(1)] assms(2) obtain rule' where
    rule': "engine' sid = Some rule'" "strategies rule' = map (\<lambda>d. after d (values_of sid rs)) strats"
      "rule_votes_required rule' = rule_votes_required rule" "rule_cooldown rule' = rule_cooldown rule"
      "last_alert AK_statistical rule' = last_time None (of_kind sid AK_statistical alerts)"
    using rule(2,5) by auto
  have q: "quorum rule' v \<longleftrightarrow> strats \<noteq> [] \<and> rule_votes_required rule
      \<le> of_nat (length (filter (\<lambda>d. is_anomaly (vote (after d (values_of sid rs)) v)) strats))"
    by (simp add: quorum_def rule'(2,3) filter_map comp_def)
  have "cooled_down (last_alert AK_statistical rule') (rule_cooldown rule') t \<longleftrightarrow>
      (let earlier = of_kind sid AK_statistical alerts in
        earlier = [] \<or> opt_cooldown opts * 1000000000 \<le> t - a_timestamp (last earlier))"
    by (simp add: rule'(4,5) rule(3) cooled_down_def last_time_def Let_def)
  moreover have "of_kind sid AK_statistical (snd (observe sid v t engine')) \<noteq> [] \<longleftrightarrow>
      quorum rule' v \<and> cooled_down (last_alert AK_statistical rule') (rule_cooldown rule') t"
    using observe_step [of engine' sid rule' v t, OF rule'(1)] by (elim exE conjE)
  ultimately show ?thesis unfolding q rule(4) by (simp only: conj_assoc)
qed

text \<open>C25. Alerts of one sensor and kind are never closer together than its cooldown, in any
  sequence of readings, whatever their values and time stamps.\<close>

theorem alerts_respect_cooldown:
  assumes "engine sid = Some rule" "0 \<le> rule_cooldown rule"
  shows "sorted_wrt (\<lambda>a b. rule_cooldown rule * 1000000000 \<le> a_timestamp b - a_timestamp a)
    (of_kind sid k (snd (observe_all rs engine)))"
  using observe_all_spaced [of engine sid rule k rs, OF assms] by blast


section \<open>Detectors from a loaded configuration\<close>

lemma ewma_make_total:
  assumes "d_finite a" "d_lt 0 a" "d_le a (d_of_rat 1)"
  shows "\<exists>e. EwmaDetector_make a t = Some e \<and> e_threshold_sigma e = t"
proof -
  let ?m = "d_max a d_1em3"
  have three: "d_mag d_three = 3" "\<not> d_sign d_three" "d_finite d_three"
    unfolding d_three_def by code_simp+
  have lim: "d_mag (d_round False 3003) \<le> 3003" "d_finite (d_round False 3003)" "1 / 1001 \<le> d_val d_1em3"
    "\<not> d_nan d_1em3" "d_finite d_1em3"
    unfolding d_1em3_def by code_simp+
  have m: "d_finite ?m" "d_val d_1em3 \<le> d_val ?m"
    using assms(1) lim by (auto simp: d_max_def d_lt_def d_finite_not_nan)
  then have pos: "1 / 1001 \<le> d_val ?m" using lim(3) by linarith
  then have sign: "\<not> d_sign ?m" by (intro d_val_pos_sign) linarith
  then have mag: "d_mag ?m = d_val ?m" by (simp add: d_val_def)
  have q: "d_div d_three ?m = d_round False (3 / d_val ?m)"
    using m(1) sign three pos d_zero_mag [of ?m] mag
    by (auto simp: d_div_def Let_def d_nan_def d_inf_def d_finite_def)
  have le: "3 / d_val ?m \<le> 3003" "0 \<le> 3 / d_val ?m"
    using pos by (auto simp: divide_le_eq)
  have fin: "d_finite (d_div d_three ?m)"
    unfolding q using d_round_finite [OF le(2,1) lim(2)] .
  have "0 \<le> d_val (d_div d_three ?m)" "d_val (d_div d_three ?m) \<le> 3003"
    using d_round_mono [OF le(2,1), of False False] lim(1) le(2) unfolding q
    by (simp_all add: d_val_def d_round_fields)
  then have "0 \<le> \<lceil>d_val (d_div d_three ?m)\<rceil>" "\<lceil>d_val (d_div d_three ?m)\<rceil> < 2 ^ 64"
    by (simp_all add: ceiling_less_iff)
  with fin show ?thesis by (simp add: EwmaDetector_make_def Let_def)
qed

lemma make_detector_total:
  assumes "detector_ok cfg"
  shows "\<exists>d. make_detector cfg = Some (Inr d) \<and> detector_name d = det_type cfg"
  using assms ewma_make_total [of "alpha cfg" "threshold cfg"]
  by (auto simp: detector_ok_def make_detector_def)

lemma vote_unit:
  assumes "detector_ok cfg" "make_detector cfg = Some (Inr d)"
  shows "d_unit (confidence (vote (after d vs) v))"
proof -
  have t: "\<not> d_sign (threshold cfg)" using assms(1) by (auto simp: detector_ok_def d_lt_def d_val_pos_sign)
  from assms consider (z) "d = ZScore (ZScoreDetector_make (window cfg) (threshold cfg))"
    | (e) e where "d = Ewma e" "EwmaDetector_make (alpha cfg) (threshold cfg) = Some e"
    | (c) "d = Cusum (CusumDetector_make (mean cfg) (stddev cfg) (slack cfg) (threshold cfg))"
    by (auto simp: make_detector_def split: if_splits)
  then show ?thesis
  proof cases
    case z
    then show ?thesis
      using t by (simp add: vote_def after_ZScore z_observe_def foldl_z_push_fields z_vote_unit)
        (simp add: ZScoreDetector_make_def z_vote_unit)
  next
    case e
    then have "e_threshold_sigma e = threshold cfg"
      by (auto simp: EwmaDetector_make_def Let_def split: if_splits)
    with t e_vote_unit after_Ewma [of e vs] show ?thesis by (auto simp: e(1) vote_def)
  next
    case c
    then show ?thesis
      using t c_vote_unit after_Cusum [of "CusumDetector_make (mean cfg) (stddev cfg) (slack cfg) (threshold cfg)" vs]
      by (auto simp: vote_def CusumDetector_make_def)
  qed
qed

lemma make_detectors_total:
  "\<forall>c \<in> set cs. detector_ok c \<Longrightarrow> \<exists>ds. make_detectors cs = Some (Inr ds) \<and> map detector_name ds = map det_type cs"
proof (induction cs)
  case (Cons c cs)
  from make_detector_total [of c] Cons.prems obtain d where
    "make_detector c = Some (Inr d)" "detector_name d = det_type c" by auto
  moreover from Cons obtain ds where "make_detectors cs = Some (Inr ds)" "map detector_name ds = map det_type cs" by auto
  ultimately show ?case by simp
qed simp

text \<open>Every sensor of a configuration that loaded can be registered: no detector type is
  unknown, the warm-up length of the moving average is computed without an out-of-range cast, and the
  rule has the configured strategies in order. And whatever is read, every strategy's confidence is a
  number between zero and one.\<close>

theorem loaded_sensor_registers:
  assumes "sensor_ok sensor"
  shows "(\<exists>ds. register_sensor engine sensor = Some (Inr (register_rule (sensor_id sensor) ds
      \<lparr>opt_votes_required = votes_required (detection sensor),
       opt_cooldown = uint (cooldown_seconds (detection sensor)), opt_limits = limits sensor\<rparr> engine)) \<and>
    map detector_name ds = map det_type (detectors (detection sensor))) \<and>
    (\<forall>cfg \<in> set (detectors (detection sensor)). \<exists>d. make_detector cfg = Some (Inr d) \<and>
      (\<forall>vs v. d_unit (confidence (vote (after d vs) v))))"
proof -
  have ok: "\<forall>c \<in> set (detectors (detection sensor)). detector_ok c"
    using assms by (simp add: sensor_ok_def detection_ok_def)
  from make_detectors_total [OF ok] obtain ds where
    "make_detectors (detectors (detection sensor)) = Some (Inr ds)"
    "map detector_name ds = map det_type (detectors (detection sensor))" by blast
  moreover have "\<exists>d. make_detector cfg = Some (Inr d) \<and> (\<forall>vs v. d_unit (confidence (vote (after d vs) v)))"
    if "cfg \<in> set (detectors (detection sensor))" for cfg
    using make_detector_total [of cfg] vote_unit [of cfg] that ok by blast
  ultimately show ?thesis by (intro conjI exI [of _ ds] ballI) (simp_all add: register_sensor_def)
qed

section \<open>Concrete runs\<close>

definition demo_cusum :: AnomalyDetector where
  "demo_cusum = Cusum (CusumDetector_make 0 d_one 0 d_one)"

definition demo_opts :: SensorRuleOptions where
  "demo_opts = \<lparr>opt_votes_required = 1, opt_cooldown = 10, opt_limits = \<lparr>low = None, high = Some d_one\<rparr>\<rparr>"

definition demo_engine :: RuleEngine where
  "demo_engine = register_rule ''t'' [demo_cusum] demo_opts Map.empty"

definition demo_rule :: SensorRule where
  "demo_rule = the (demo_engine ''t'')"

lemma demo_rule_fields: "demo_engine ''t'' = Some demo_rule" "rule_cooldown demo_rule = 10"
  "high (rule_limits demo_rule) = Some d_one" "limit_state demo_rule = LS_inside" "last_limit_alert demo_rule = None"
  by (simp_all add: demo_rule_def demo_engine_def register_rule_def demo_opts_def)

lemma demo_votes: "is_anomaly (vote demo_cusum d_three)" "\<not> is_anomaly (vote demo_cusum 0)" "d_lt d_one d_three"
  unfolding demo_cusum_def by code_simp+

theorem statistical_alert_iff_witness:
  "of_kind ''t'' AK_statistical (snd (observe ''t'' d_three 0 demo_engine)) \<noteq> [] \<and>
   of_kind ''t'' AK_statistical (snd (observe ''t'' 0 0 demo_engine)) = []"
proof -
  have e: "demo_engine = register_rule ''t'' [demo_cusum] demo_opts Map.empty" by (simp add: demo_engine_def)
  have "observe_all [] demo_engine = (demo_engine, [])" by simp
  note s = statistical_alert_iff [OF e this]
  have "values_of ''t'' [] = []" by (simp add: values_of_def)
  with s [of d_three 0] s [of 0 0] demo_votes show ?thesis by (simp add: demo_opts_def)
qed

theorem alerts_respect_cooldown_witness:
  "sorted_wrt (\<lambda>a b. 10 * 1000000000 \<le> a_timestamp b - a_timestamp a)
    (of_kind ''t'' AK_limit (snd (observe_all [(''t'', d_three, 0), (''t'', 0, 1), (''t'', d_three, 2)] demo_engine)))"
  using alerts_respect_cooldown [of demo_engine "''t''" demo_rule AK_limit] demo_rule_fields(1,2) by simp


definition demo_sensor :: SensorConfig where
  "demo_sensor = default_SensorConfig\<lparr>sensor_id := ''t'', detection := default_DetectionConfig
     \<lparr>detectors := [default_DetectorConfig\<lparr>det_type := ''ewma''\<rparr>]\<rparr>\<rparr>"

lemma demo_sensor_ok: "sensor_ok demo_sensor"
proof -
  have "is_valid_id ''t''" by code_simp
  then show ?thesis
    by (simp add: sensor_ok_def demo_sensor_def default_SensorConfig_def default_DetectionConfig_def
        default_DetectorConfig_def detection_ok_def detector_ok_def limits_ok_def default_literals
        register_count_def)
qed

theorem loaded_sensor_registers_witness:
  "\<exists>engine. register_sensor Map.empty demo_sensor = Some (Inr engine)"
  using loaded_sensor_registers [OF demo_sensor_ok, of Map.empty] by blast

end
