(* ===== verification/Program.thy ===== *)
theory Program
  imports HttpServer Notifier WsServer ReadingExporter RuleEngine AlertLog SeriesStore Metrics
begin

text \<open>
  \<open>src/main.cpp\<close>: how the parts are put together. \<open>startup\<close> builds the state from a configuration. The
  event handlers are lists of actions, one per statement that touches a component; an action holds that
  component's mutex (or runs on the one thread that owns it) and is one step. A step of the system is
  one action of one polling strand, of the maintenance timer, of the exporter's, the notifier's or the
  main thread, so a run is any interleaving of them. \<open>sys_done\<close> and
  \<open>sys_published\<close> are history variables. An exception that leaves a handler ends the program: \<open>Inl\<close>.
\<close>

section \<open>Events and handlers\<close>

datatype EventType = ET_reading | ET_anomaly | ET_device_status | ET_poll_error

datatype Event =
    E_reading SensorReadingEvent
  | E_anomaly AnomalyEvent
  | E_device_status DeviceStatusEvent
  | E_poll_error PollErrorEvent

fun event_type :: "Event \<Rightarrow> EventType" where
  "event_type (E_reading r) = ET_reading"
| "event_type (E_anomaly a) = ET_anomaly"
| "event_type (E_device_status st) = ET_device_status"
| "event_type (E_poll_error e) = ET_poll_error"

text \<open>The four lambdas \<open>main\<close> subscribes, and the statements of their bodies.\<close>

datatype Handler = On_reading | On_anomaly | On_device_status | On_poll_error

datatype Action =
    Do_record SensorReadingEvent
  | Do_export SensorReadingEvent
  | Do_count_reading SensorReadingEvent
  | Do_gauge_reading SensorReadingEvent
  | Do_observe SensorReadingEvent
  | Do_broadcast_reading SensorReadingEvent
  | Do_log AnomalyEvent
  | Do_count_alert AnomalyEvent
  | Do_notify_alert AnomalyEvent
  | Do_broadcast_alert AnomalyEvent
  | Do_set_status DeviceStatusEvent
  | Do_gauge_device DeviceStatusEvent
  | Do_notify_status DeviceStatusEvent
  | Do_broadcast_status DeviceStatusEvent
  | Do_count_poll_error PollErrorEvent

fun handle :: "Handler \<Rightarrow> Event \<Rightarrow> Action list" where
  "handle On_reading (E_reading r) =
     [Do_record r, Do_export r, Do_count_reading r, Do_gauge_reading r, Do_observe r, Do_broadcast_reading r]"
| "handle On_anomaly (E_anomaly a) = [Do_log a, Do_count_alert a, Do_notify_alert a, Do_broadcast_alert a]"
| "handle On_device_status (E_device_status st) =
     [Do_set_status st, Do_gauge_device st, Do_notify_status st, Do_broadcast_status st]"
| "handle On_poll_error (E_poll_error e) = [Do_count_poll_error e]"
| "handle _ _ = []"

definition wiring :: "(EventType, Handler) EventBus" where
  "wiring = snd (subscribe ET_poll_error On_poll_error (snd (subscribe ET_device_status On_device_status
     (snd (subscribe ET_anomaly On_anomaly (snd (subscribe ET_reading On_reading EventBus_make)))))))"

text \<open>What publishing an event makes its thread do: the handlers copied under the bus's lock, in turn.\<close>

definition publish_actions :: "(EventType, Handler) EventBus \<Rightarrow> Event \<Rightarrow> Action list" where
  "publish_actions bus e = concat (map (\<lambda>h. handle h e) (callbacks (event_type e) bus))"

section \<open>The program's state\<close>

record Program =
  pg_bus :: "(EventType, Handler) EventBus"
  pg_store :: SeriesStore
  pg_exporter :: "ReadingExporter option"
  pg_metrics :: Metrics
  pg_engine :: RuleEngine
  pg_units :: "string \<Rightarrow> string option"
  pg_alert_log :: AlertLog
  pg_registry :: DeviceRegistry
  pg_notifier :: Notifier
  pg_ws_set :: bool \<comment> \<open>\<open>ws_server_ptr\<close> is not null\<close>
  pg_conns :: "nat \<Rightarrow> WsConnection"
  pg_connections :: "nat list"
  pg_broadcasts :: "string list" \<comment> \<open>history: the messages broadcast\<close>
  pg_posted :: "(nat \<times> WsEvent) list" \<comment> \<open>history: the frames posted to connections\<close>
  pg_last_prune :: int
  pg_last_dropped :: u64
  pg_retention_ms :: int

section \<open>Start-up\<close>

datatype LogLevel = LL_trace | LL_debug | LL_info | LL_warn | LL_error | LL_critical

definition parse_log_level :: "string \<Rightarrow> LogLevel" where
  "parse_log_level level =
     (if level = ''trace'' then LL_trace else if level = ''debug'' then LL_debug
      else if level = ''warn'' then LL_warn else if level = ''error'' then LL_error
      else if level = ''critical'' then LL_critical else LL_info)"

definition metric_descriptions :: "(string \<times> MetricType \<times> string) list" where
  "metric_descriptions =
     [(''ironpulse_build_info'', MT_gauge, ''Build information; the value is always 1.''),
      (''ironpulse_uptime_seconds'', MT_gauge, ''Seconds since the engine started.''),
      (''ironpulse_readings_total'', MT_counter, ''Sensor readings received.''),
      (''ironpulse_sensor_value'', MT_gauge, ''Latest value of each sensor, in engineering units.''),
      (''ironpulse_alerts_total'', MT_counter, ''Alerts raised, by sensor, kind and severity.''),
      (''ironpulse_device_up'', MT_gauge, ''1 if the device answered its last poll, else 0.''),
      (''ironpulse_poll_errors_total'', MT_counter, ''Failed Modbus requests per device.''),
      (''ironpulse_websocket_clients'', MT_gauge, ''Connected dashboard WebSocket clients.''),
      (''ironpulse_notifications_total'', MT_counter, ''Notification deliveries by channel and result.''),
      (''ironpulse_export_readings_total'', MT_counter, ''Readings queued for export.''),
      (''ironpulse_export_dropped_total'', MT_counter, ''Readings not exported because the queue was full.''),
      (''ironpulse_export_batches_total'', MT_counter, ''Export batches written to disk.''),
      (''ironpulse_export_batch_errors_total'', MT_counter, ''Export batches lost to an I/O error.''),
      (''ironpulse_export_bytes_total'', MT_counter, ''Bytes written to export segments.''),
      (''ironpulse_export_segments_total'', MT_counter, ''Export segment files completed.''),
      (''ironpulse_export_segments_deleted_total'', MT_counter,
       ''Oldest export segments deleted to stay within export.max_total_mb.''),
      (''ironpulse_export_queue_depth'', MT_gauge, ''Readings waiting to be exported.'')]"

definition describe_metrics :: "Metrics \<Rightarrow> Metrics" where
  "describe_metrics m = foldl (\<lambda>m (name, ty, help). describe_metric name ty help m) m metric_descriptions"

text \<open>The registration loop. \<open>register_sensor\<close> may throw, which nothing catches.\<close>

type_synonym Wired = "RuleEngine \<times> (string \<Rightarrow> SensorInfo option) \<times> (string \<Rightarrow> string option)"

fun wire_sensors :: "string \<Rightarrow> SensorConfig list \<Rightarrow> Wired \<Rightarrow> (string + Wired) ub" where
  "wire_sensors dev [] w = Some (Inr w)"
| "wire_sensors dev (s # ss) (engine, infos, units) =
     (case register_sensor engine s of None \<Rightarrow> None | Some (Inl e) \<Rightarrow> Some (Inl e)
      | Some (Inr engine) \<Rightarrow> wire_sensors dev ss
          (engine,
           infos(sensor_id s \<mapsto> \<lparr>info_name = sensor_name s, info_unit = sensor_unit s, info_device_id = dev\<rparr>),
           units(sensor_id s \<mapsto> sensor_unit s)))"

fun wire_devices :: "ModbusDeviceConfig list \<Rightarrow> Wired \<Rightarrow> (string + Wired) ub" where
  "wire_devices [] w = Some (Inr w)"
| "wire_devices (d # ds) w =
     (case wire_sensors (device_id d) (sensors d) w of None \<Rightarrow> None | Some (Inl e) \<Rightarrow> Some (Inl e)
      | Some (Inr w) \<Rightarrow> wire_devices ds w)"

text \<open>What the outside gives at start-up: the directories, the outcomes of the file operations, the clocks,
  the version (a generated header) and the connections that will come.\<close>

record Host =
  host_version :: string
  host_wal_dir :: dir
  host_export_dir :: dir
  host_io :: "nat \<Rightarrow> Io"
  host_out :: os_write
  host_prune :: Prune
  host_wall :: time_point
  host_steady :: int
  host_conns :: "nat \<Rightarrow> WsConnection"

definition start_store :: "Host \<Rightarrow> AppConfig \<Rightarrow> SeriesStore" where
  "start_store h cfg = SeriesStore_make 4096
     (if persistence_enabled cfg then Some (WalWriter_make 32 (host_wal_dir h)) else None)
     (Some (uint (retention_hours cfg) * 3600000))"

definition start_exporter ::
  "'j Json \<Rightarrow> Host \<Rightarrow> AppConfig \<Rightarrow> (string + string throws) + ReadingExporter option" where
  "start_exporter J h cfg =
     (if \<not> enabled (export_config cfg) then Inr None
      else case ReadingExporter_make J (host_io h) (export_config cfg) (tags_from_devices (devices cfg))
             (host_export_dir h) of Inl e \<Rightarrow> Inl e
      | Inr x \<Rightarrow> Inr (Some (exporter_start (host_steady h) x)))"

definition prune_store ::
  "os_write \<Rightarrow> Prune \<Rightarrow> time_point \<Rightarrow> int \<Rightarrow> SeriesStore \<Rightarrow> SeriesStore ub" where
  "prune_store out io now retention s =
     (case wal s of None \<Rightarrow> Some s
      | Some w \<Rightarrow> map_option (\<lambda>(removed, w). s\<lparr>wal := Some w\<rparr>) (prune_older_than out io now retention w))"

text \<open>\<open>Inl\<close>: the exit after a failed start, or the exception that ends the program.\<close>

definition startup :: "'j Json \<Rightarrow> Host \<Rightarrow> AppConfig \<Rightarrow> (string + Program) ub" where
  "startup J h cfg =
     (case start_exporter J h cfg of Inl e \<Rightarrow> Some (Inl ''Cannot start export'')
      | Inr exporter \<Rightarrow>
     (case wire_devices (devices cfg) (Map.empty, Map.empty, Map.empty) of None \<Rightarrow> None
      | Some (Inl e) \<Rightarrow> Some (Inl e)
      | Some (Inr (engine, infos, units)) \<Rightarrow>
        let retention = uint (retention_hours cfg) * 3600000
        in map_option (\<lambda>store. Inr
             \<lparr>pg_bus = wiring, pg_store = store, pg_exporter = exporter,
              pg_metrics = set_metric ''ironpulse_build_info'' [(''version'', host_version h)] d_one
                (describe_metrics []),
              pg_engine = engine, pg_units = units, pg_alert_log = AlertLog_make 500, pg_registry = Map.empty,
              pg_notifier = Notifier_make (notifications cfg) infos, pg_ws_set = True,
              pg_conns = host_conns h, pg_connections = [], pg_broadcasts = [], pg_posted = [],
              pg_last_prune = host_steady h, pg_last_dropped = 0, pg_retention_ms = retention\<rparr>)
           (prune_store (host_out h) (host_prune h) (host_wall h) retention (start_store h cfg))))"

section \<open>The handlers' statements\<close>

text \<open>The clock and the outcome of a write to the log, for the statement that needs them.\<close>

record Env =
  env_now :: time_point
  env_out :: os_write

definition unit_label :: "string \<Rightarrow> Program \<Rightarrow> string" where
  "unit_label sid p = (case pg_units p sid of None \<Rightarrow> [] | Some u \<Rightarrow> u)"

text \<open>\<open>if (auto* ws = ws_server_ptr.load()) ws->broadcast(...)\<close>: the message is only built when there is a
  server, and building it may throw.\<close>

definition broadcast_if_set :: "string + string \<Rightarrow> Program \<Rightarrow> string + Program" where
  "broadcast_if_set text p =
     (if \<not> pg_ws_set p then Inr p
      else case text of Inl e \<Rightarrow> Inl e
      | Inr message \<Rightarrow> Inr (p\<lparr>pg_broadcasts := pg_broadcasts p @ [message],
          pg_posted := pg_posted p @ broadcast message (pg_conns p) (pg_connections p)\<rparr>))"

definition alert_labels :: "AnomalyEvent \<Rightarrow> Labels" where
  "alert_labels a = [(''sensor'', a_sensor_id a), (''kind'', kind_to_string (a_kind a)),
     (''severity'', severity_to_string (a_severity a))]"

text \<open>The state after an action. \<open>Do_observe\<close> also makes the thread publish the alerts, before it goes on
  with the handler that called it.\<close>

fun perform :: "'j Json \<Rightarrow> Env \<Rightarrow> Action \<Rightarrow> Program \<Rightarrow> (string + Program) ub" where
  "perform J env (Do_record r) p = map_option (\<lambda>s. Inr (p\<lparr>pg_store := s\<rparr>))
     (record_sample (env_out env) (env_now env) (r_sensor_id r) (r_value r) (r_timestamp r) (pg_store p))"
| "perform J env (Do_export r) p =
     (case pg_exporter p of None \<Rightarrow> Some (Inr p)
      | Some x \<Rightarrow> map_option (\<lambda>(ok, x). Inr (p\<lparr>pg_exporter := Some x\<rparr>))
          (exporter_submit (r_sensor_id r) (r_value r) (r_timestamp r) x))"
| "perform J env (Do_count_reading r) p = Some (Inr (p\<lparr>pg_metrics :=
     increment ''ironpulse_readings_total'' [(''sensor'', r_sensor_id r)] d_one (pg_metrics p)\<rparr>))"
| "perform J env (Do_gauge_reading r) p = Some (Inr (p\<lparr>pg_metrics :=
     set_metric ''ironpulse_sensor_value''
       [(''sensor'', r_sensor_id r), (''unit'', unit_label (r_sensor_id r) p)] (r_value r) (pg_metrics p)\<rparr>))"
| "perform J env (Do_observe r) p = Some (Inr (p\<lparr>pg_engine :=
     fst (observe (r_sensor_id r) (r_value r) (r_timestamp r) (pg_engine p))\<rparr>))"
| "perform J env (Do_broadcast_reading r) p = Some (broadcast_if_set (reading_to_json J r) p)"
| "perform J env (Do_log a) p = Some (Inr (p\<lparr>pg_alert_log := log_push (pg_alert_log p) a\<rparr>))"
| "perform J env (Do_count_alert a) p = Some (Inr (p\<lparr>pg_metrics :=
     increment ''ironpulse_alerts_total'' (alert_labels a) d_one (pg_metrics p)\<rparr>))"
| "perform J env (Do_notify_alert a) p = Some (Inr (p\<lparr>pg_notifier := on_alert a (pg_notifier p)\<rparr>))"
| "perform J env (Do_broadcast_alert a) p = Some (broadcast_if_set (anomaly_to_json J a) p)"
| "perform J env (Do_set_status st) p = Some (Inr (p\<lparr>pg_registry :=
     set_status (pg_registry p) (s_device_id st) (s_online st)\<rparr>))"
| "perform J env (Do_gauge_device st) p = Some (Inr (p\<lparr>pg_metrics :=
     set_metric ''ironpulse_device_up'' [(''device'', s_device_id st)] (if s_online st then d_one else 0)
       (pg_metrics p)\<rparr>))"
| "perform J env (Do_notify_status st) p = Some (Inr (p\<lparr>pg_notifier :=
     on_device_status (s_device_id st) (s_online st) (s_timestamp st) (pg_notifier p)\<rparr>))"
| "perform J env (Do_broadcast_status st) p = Some (broadcast_if_set (device_status_to_json J st) p)"
| "perform J env (Do_count_poll_error e) p = Some (Inr (p\<lparr>pg_metrics :=
     increment ''ironpulse_poll_errors_total'' [(''device'', e_device_id e)] d_one (pg_metrics p)\<rparr>))"

text \<open>The actions an action calls: only \<open>observe\<close> publishes.\<close>

fun calls :: "Program \<Rightarrow> Action \<Rightarrow> Action list" where
  "calls p (Do_observe r) = concat (map (\<lambda>a. publish_actions (pg_bus p) (E_anomaly a))
     (snd (observe (r_sensor_id r) (r_value r) (r_timestamp r) (pg_engine p))))"
| "calls p _ = []"

section \<open>Housekeeping\<close>

text \<open>\<open>publish_export_stats\<close>: the metrics and \<open>last_dropped\<close> afterwards.\<close>

definition as_double :: "u64 \<Rightarrow> double" where "as_double n = d_of_int (uint n)"

definition publish_export_stats :: "ReadingExporter \<Rightarrow> Metrics \<Rightarrow> u64 \<Rightarrow> Metrics \<times> u64" where
  "publish_export_stats x m last_dropped =
     (let stats = exporter_stats x;
          m = set_metric ''ironpulse_export_readings_total'' [] (as_double (st_accepted stats)) m;
          m = set_metric ''ironpulse_export_dropped_total'' [] (as_double (st_dropped stats)) m;
          m = set_metric ''ironpulse_export_batches_total'' [] (as_double (st_batches_written stats)) m;
          m = set_metric ''ironpulse_export_batch_errors_total'' [] (as_double (st_batches_failed stats)) m;
          m = set_metric ''ironpulse_export_bytes_total'' [] (as_double (st_bytes_written stats)) m;
          m = set_metric ''ironpulse_export_segments_total'' [] (as_double (st_segments_completed stats)) m;
          m = set_metric ''ironpulse_export_segments_deleted_total'' [] (as_double (st_segments_deleted stats)) m;
          m = set_metric ''ironpulse_export_queue_depth'' [] (as_double (st_queue_depth stats)) m
      in (m, if last_dropped < st_dropped stats then st_dropped stats else last_dropped))"

text \<open>\<open>duration<double>(now - started_at).count()\<close> of nanoseconds.\<close>

definition seconds_double :: "int \<Rightarrow> double" where
  "seconds_double ns = d_div (d_of_int ns) (d_of_int 1000000000)"

record Tick =
  tick_steady :: int
  tick_started :: int
  tick_wall :: time_point
  tick_out :: os_write
  tick_prune :: Prune

text \<open>The body of the maintenance timer's handler, after its guard.\<close>

definition maintenance :: "Tick \<Rightarrow> Program \<Rightarrow> Program ub" where
  "maintenance t p =
     (let m = set_metric ''ironpulse_uptime_seconds'' [] (seconds_double (tick_steady t - tick_started t)) (pg_metrics p);
          m = set_metric ''ironpulse_websocket_clients'' []
                (as_double (of_nat (connection_count (pg_connections p)))) m;
          (m, dropped) = (case pg_exporter p of None \<Rightarrow> (m, pg_last_dropped p)
                          | Some x \<Rightarrow> publish_export_stats x m (pg_last_dropped p));
          p = p\<lparr>pg_metrics := m, pg_last_dropped := dropped\<rparr>
      in case wal (pg_store p) of None \<Rightarrow> Some p
         | Some w \<Rightarrow>
           let p = p\<lparr>pg_store := (pg_store p)\<lparr>wal := Some (flush_all (tick_out t) w)\<rparr>\<rparr>
           in if 3600000000000 \<le> tick_steady t - pg_last_prune p
              then map_option (\<lambda>s. p\<lparr>pg_store := s, pg_last_prune := tick_steady t\<rparr>)
                     (prune_store (tick_out t) (tick_prune t) (tick_wall t) (pg_retention_ms p) (pg_store p))
              else Some p)"

section \<open>The system\<close>

text \<open>The statements of \<open>main\<close> after its loop that act on this state. Joining the I/O threads waits until
  no strand is inside a handler; from then on none runs again.\<close>

datatype MainAction = Clear_ws_server_ptr | Stop_notifier int | Flush_wal os_write | Join_io_threads
  | Stop_exporter "int list"

record System =
  sys_prog :: Program
  sys_running :: bool \<comment> \<open>\<open>g_running\<close>\<close>
  sys_strands :: "Action list list" \<comment> \<open>what each polling strand has still to do in its handlers\<close>
  sys_results :: "(string \<times> bool) list" \<comment> \<open>what the notifier's worker has still to report\<close>
  sys_main :: "MainAction list"
  sys_joined :: bool
  sys_done :: "Action list" \<comment> \<open>history: the actions done\<close>
  sys_published :: "(nat \<times> Event) list" \<comment> \<open>history: what the pollers published\<close>

datatype Step =
    Publish nat Event \<comment> \<open>a poller publishes; it never publishes an anomaly\<close>
  | Run nat Env \<comment> \<open>a strand does its next action\<close>
  | Timer Tick
  | Exporter_thread bool int
  | Notifier_thread int "nat \<Rightarrow> (nat \<Rightarrow> OutgoingRequest \<Rightarrow> int) \<times> (nat \<Rightarrow> bool)"
  | Notifier_report
  | Ws_ready nat
  | Ws_left nat
  | Ws_state "nat \<Rightarrow> WsConnection" \<comment> \<open>the connections have moved on\<close>
  | Signal
  | Main_thread

fun main_do :: "Cpu \<Rightarrow> MainAction \<Rightarrow> System \<Rightarrow> System ub" where
  "main_do cpu Clear_ws_server_ptr s = Some (s\<lparr>sys_prog := (sys_prog s)\<lparr>pg_ws_set := False\<rparr>\<rparr>)"
| "main_do cpu (Stop_notifier now) s = Some (s\<lparr>sys_prog := (sys_prog s)
     \<lparr>pg_notifier := nt_stop now 5000000000 (pg_notifier (sys_prog s))\<rparr>\<rparr>)"
| "main_do cpu (Flush_wal out) s = Some (s\<lparr>sys_prog := (sys_prog s)
     \<lparr>pg_store := (pg_store (sys_prog s))\<lparr>wal := map_option (flush_all out) (wal (pg_store (sys_prog s)))\<rparr>\<rparr>\<rparr>)"
| "main_do cpu Join_io_threads s = Some (s\<lparr>sys_joined := True\<rparr>)"
| "main_do cpu (Stop_exporter ticks) s =
     (case pg_exporter (sys_prog s) of None \<Rightarrow> Some s
      | Some x \<Rightarrow> map_option (\<lambda>x. s\<lparr>sys_prog := (sys_prog s)\<lparr>pg_exporter := Some x\<rparr>\<rparr>) (exporter_stop cpu ticks x))"

definition blocked :: "System \<Rightarrow> MainAction \<Rightarrow> bool" where
  "blocked s a \<longleftrightarrow> a = Join_io_threads \<and> \<not> list_all (\<lambda>as. as = []) (sys_strands s)"

fun sys_step :: "'j Json \<Rightarrow> Cpu \<Rightarrow> Step \<Rightarrow> System \<Rightarrow> (string + System) ub" where
  "sys_step J cpu (Publish n e) s =
     Some (Inr (if n < length (sys_strands s) \<and> \<not> sys_joined s \<and> event_type e \<noteq> ET_anomaly
       then s\<lparr>sys_strands := (sys_strands s)[n := sys_strands s ! n @ publish_actions (pg_bus (sys_prog s)) e],
              sys_published := sys_published s @ [(n, e)]\<rparr>
       else s))"
| "sys_step J cpu (Run n env) s =
     (if length (sys_strands s) \<le> n then Some (Inr s)
      else case sys_strands s ! n of [] \<Rightarrow> Some (Inr s)
      | a # as \<Rightarrow>
        (case perform J env a (sys_prog s) of None \<Rightarrow> None | Some (Inl e) \<Rightarrow> Some (Inl e)
         | Some (Inr p) \<Rightarrow> Some (Inr (s\<lparr>sys_prog := p,
             sys_strands := (sys_strands s)[n := calls (sys_prog s) a @ as],
             sys_done := sys_done s @ [a]\<rparr>))))"
| "sys_step J cpu (Timer t) s =
     (if \<not> sys_running s \<or> sys_joined s then Some (Inr s)
      else map_option (\<lambda>p. Inr (s\<lparr>sys_prog := p\<rparr>)) (maintenance t (sys_prog s)))"
| "sys_step J cpu (Exporter_thread stop now) s =
     (case pg_exporter (sys_prog s) of None \<Rightarrow> Some (Inr s)
      | Some x \<Rightarrow> map_option (\<lambda>x. Inr (s\<lparr>sys_prog := (sys_prog s)\<lparr>pg_exporter := Some x\<rparr>\<rparr>))
          (exp_step cpu x (Consumer stop now)))"
| "sys_step J cpu (Notifier_thread now outside) s =
     (if sys_results s \<noteq> [] then Some (Inr s)
      else case worker_pass now (pg_notifier (sys_prog s)) of
        (Worker_delivers n, nt) \<Rightarrow>
          Some (case deliver_all J outside (nt_config nt) 0 (channels (nt_config nt)) n of Inl e \<Rightarrow> Inl e
            | Inr results \<Rightarrow> Inr (s\<lparr>sys_prog := (sys_prog s)\<lparr>pg_notifier := nt\<rparr>, sys_results := results\<rparr>))
      | (_, nt) \<Rightarrow> Some (Inr (s\<lparr>sys_prog := (sys_prog s)\<lparr>pg_notifier := nt\<rparr>\<rparr>)))"
| "sys_step J cpu Notifier_report s =
     Some (Inr (case sys_results s of [] \<Rightarrow> s
       | (channel, ok) # rest \<Rightarrow> s\<lparr>sys_results := rest, sys_prog := (sys_prog s)\<lparr>pg_metrics :=
           increment ''ironpulse_notifications_total''
             [(''channel'', channel), (''result'', if ok then ''ok'' else ''error'')] d_one
             (pg_metrics (sys_prog s))\<rparr>\<rparr>))"
| "sys_step J cpu (Ws_ready c) s = Some (Inr (s\<lparr>sys_prog := (sys_prog s)
     \<lparr>pg_connections := server_ready c (pg_connections (sys_prog s))\<rparr>\<rparr>))"
| "sys_step J cpu (Ws_left c) s = Some (Inr (s\<lparr>sys_prog := (sys_prog s)
     \<lparr>pg_connections := server_closed c (pg_connections (sys_prog s))\<rparr>\<rparr>))"
| "sys_step J cpu (Ws_state conns) s = Some (Inr (s\<lparr>sys_prog := (sys_prog s)\<lparr>pg_conns := conns\<rparr>\<rparr>))"
| "sys_step J cpu Signal s = Some (Inr (s\<lparr>sys_running := False\<rparr>))"
| "sys_step J cpu Main_thread s =
     (case sys_main s of [] \<Rightarrow> Some (Inr s)
      | a # as \<Rightarrow> if sys_running s \<or> blocked s a then Some (Inr s)
          else map_option (\<lambda>s. Inr (s\<lparr>sys_main := as\<rparr>)) (main_do cpu a s))"

fun sys_run :: "'j Json \<Rightarrow> Cpu \<Rightarrow> Step list \<Rightarrow> System \<Rightarrow> (string + System) ub" where
  "sys_run J cpu [] s = Some (Inr s)"
| "sys_run J cpu (e # es) s =
     (case sys_step J cpu e s of None \<Rightarrow> None | Some (Inl m) \<Rightarrow> Some (Inl m)
      | Some (Inr s) \<Rightarrow> sys_run J cpu es s)"

text \<open>\<open>n\<close> strands, one per device, and the statements after the loop with what their clocks read.\<close>

definition sys_start :: "nat \<Rightarrow> MainAction list \<Rightarrow> Program \<Rightarrow> System" where
  "sys_start n main p = \<lparr>sys_prog = p, sys_running = True, sys_strands = replicate n [], sys_results = [],
     sys_main = main, sys_joined = False, sys_done = [], sys_published = []\<rparr>"

definition shutdown_actions :: "int \<Rightarrow> os_write \<Rightarrow> int list \<Rightarrow> MainAction list" where
  "shutdown_actions now out ticks =
     [Clear_ws_server_ptr, Stop_notifier now, Flush_wal out, Join_io_threads, Stop_exporter ticks]"

end
