(* ===== verification/ProgramRuns.thy ===== *)
theory ProgramRuns
  imports Program
begin

text \<open>
  Runs of the whole program (\<open>Program\<close>): what the actions of the strands did, the invariants that hold
  in every interleaving, what start-up leaves, and the properties that span the components.
\<close>

section \<open>Which handlers run\<close>

lemma callbacks_wiring:
  "callbacks ET_reading wiring = [On_reading]" "callbacks ET_anomaly wiring = [On_anomaly]"
  "callbacks ET_device_status wiring = [On_device_status]" "callbacks ET_poll_error wiring = [On_poll_error]"
  by (simp_all add: callbacks_def wiring_def subscribe_def EventBus_make_def Let_def)

lemma publish_wiring [simp]:
  "publish_actions wiring (E_reading r) = handle On_reading (E_reading r)"
  "publish_actions wiring (E_anomaly a) = handle On_anomaly (E_anomaly a)"
  "publish_actions wiring (E_device_status st) = handle On_device_status (E_device_status st)"
  "publish_actions wiring (E_poll_error e) = handle On_poll_error (E_poll_error e)"
  by (simp_all add: publish_actions_def callbacks_wiring)

section \<open>What the actions did\<close>

text \<open>The readings observed and the alerts that reached each of the four consumers.\<close>

datatype Sink = To_log | To_count | To_notifier | To_dashboard

fun observed_in :: "Action \<Rightarrow> reading list" where
  "observed_in (Do_observe r) = [(r_sensor_id r, r_value r, r_timestamp r)]"
| "observed_in _ = []"

fun alerts_in :: "Sink \<Rightarrow> Action \<Rightarrow> AnomalyEvent list" where
  "alerts_in To_log (Do_log a) = [a]"
| "alerts_in To_count (Do_count_alert a) = [a]"
| "alerts_in To_notifier (Do_notify_alert a) = [a]"
| "alerts_in To_dashboard (Do_broadcast_alert a) = [a]"
| "alerts_in _ _ = []"

definition observed :: "Action list \<Rightarrow> reading list" where
  "observed as = concat (map observed_in as)"

definition alerts_at :: "Sink \<Rightarrow> Action list \<Rightarrow> AnomalyEvent list" where
  "alerts_at k as = concat (map (alerts_in k) as)"

definition of_sensor :: "string \<Rightarrow> AnomalyEvent list \<Rightarrow> AnomalyEvent list" where
  "of_sensor sid as = filter (\<lambda>a. a_sensor_id a = sid) as"

definition readings_of :: "string \<Rightarrow> reading list \<Rightarrow> reading list" where
  "readings_of sid rs = filter (\<lambda>r. fst r = sid) rs"

fun reading_in :: "Event \<Rightarrow> reading list" where
  "reading_in (E_reading r) = [(r_sensor_id r, r_value r, r_timestamp r)]"
| "reading_in _ = []"

definition published_readings :: "(nat \<times> Event) list \<Rightarrow> reading list" where
  "published_readings es = concat (map (reading_in \<circ> snd) es)"

lemma projections_simps [simp]:
  "observed [] = []" "observed (a # as) = observed_in a @ observed as" "observed (as @ bs) = observed as @ observed bs"
  "alerts_at k [] = []" "alerts_at k (a # as) = alerts_in k a @ alerts_at k as"
  "alerts_at k (as @ bs) = alerts_at k as @ alerts_at k bs"
  "of_sensor sid [] = []" "of_sensor sid (xs @ ys) = of_sensor sid xs @ of_sensor sid ys"
  "readings_of sid [] = []"
  "readings_of sid ((sid', v, t) # rs) = (if sid' = sid then [(sid', v, t)] else []) @ readings_of sid rs"
  "readings_of sid (rs @ qs) = readings_of sid rs @ readings_of sid qs"
  "published_readings [] = []"
  "published_readings (es @ [(n, e)]) = published_readings es @ reading_in e"
  by (simp_all add: observed_def alerts_at_def of_sensor_def readings_of_def published_readings_def)

text \<open>The alerts about a sensor depend on its own readings only.\<close>

lemma observe_alerts_sensor: "a \<in> set (snd (observe sid v t engine)) \<Longrightarrow> a_sensor_id a = sid"
proof (cases "engine sid")
  case (Some rule)
  then show "a \<in> set (snd (observe sid v t engine)) \<Longrightarrow> a_sensor_id a = sid"
    using observe_step [of engine sid rule v t] by auto
qed (simp add: observe_unknown)

lemma of_sensor_observe:
  "of_sensor sid (snd (observe sid' v t engine)) = (if sid' = sid then snd (observe sid' v t engine) else [])"
  using observe_alerts_sensor [of _ sid' v t engine] by (auto simp: of_sensor_def filter_empty_conv filter_id_conv)

lemma observe_local: "engine sid = engine' sid \<Longrightarrow>
    snd (observe sid v t engine) = snd (observe sid v t engine') \<and>
    fst (observe sid v t engine) sid = fst (observe sid v t engine') sid"
  by (auto simp: observe_def case_prod_beta Let_def split: option.splits)

lemma of_sensor_observe_all:
  "engine sid = engine' sid \<Longrightarrow>
   of_sensor sid (snd (observe_all rs engine)) = snd (observe_all (readings_of sid rs) engine')"
proof (induction rs arbitrary: engine engine')
  case (Cons r rs)
  obtain sid' v t where r: "r = (sid', v, t)" by (cases r)
  show ?case
  proof (cases "sid' = sid")
    case True
    with observe_local [of engine sid engine' v t, OF Cons.prems] Cons.IH [of "fst (observe sid v t engine)" "fst (observe sid v t engine')"]
    show ?thesis by (simp add: r observe_all_Cons of_sensor_observe readings_of_def)
  next
    case False
    with observe_other(1) [of sid' sid v t engine] Cons.prems
      Cons.IH [of "fst (observe sid' v t engine)" engine']
    show ?thesis by (simp add: r observe_all_Cons of_sensor_observe readings_of_def)
  qed
qed simp

lemma observe_all_snoc:
  "snd (observe_all (rs @ [(sid, v, t)]) engine) =
     snd (observe_all rs engine) @ snd (observe sid v t (fst (observe_all rs engine)))"
  "fst (observe_all (rs @ [(sid, v, t)]) engine) = fst (observe sid v t (fst (observe_all rs engine)))"
  by (induction rs arbitrary: engine) (auto simp: observe_all_Cons)

text \<open>On a strand, what is left of one reading's alerts comes before the next reading is looked at.\<close>

fun alerts_first :: "Action list \<Rightarrow> bool" where
  "alerts_first [] = True"
| "alerts_first (a # as) = (alerts_first as \<and> (observed_in a = [] \<or> (\<forall>k. alerts_at k as = [])))"

lemma alerts_first_append_calls: "observed xs = [] \<Longrightarrow> alerts_first (xs @ as) = alerts_first as"
  by (induction xs) auto

lemma alerts_first_append_events: "alerts_first as \<Longrightarrow> \<forall>k. alerts_at k bs = [] \<Longrightarrow> alerts_first bs \<Longrightarrow> alerts_first (as @ bs)"
  by (induction as) auto

lemma calls_alerts:
  assumes "pg_bus p = wiring"
  shows "observed (calls p a) = []"
    and "alerts_at k (calls p a) = (case observed_in a of [] \<Rightarrow> []
      | (sid, v, t) # _ \<Rightarrow> snd (observe sid v t (pg_engine p)))"
proof -
  have "alerts_at k (concat (map (\<lambda>a. publish_actions wiring (E_anomaly a)) as)) = as" for as
    by (induction as) (cases k; simp)+
  moreover have "observed (concat (map (\<lambda>a. publish_actions wiring (E_anomaly a)) as)) = []" for as
    by (induction as) simp_all
  ultimately show "observed (calls p a) = []" "alerts_at k (calls p a) = (case observed_in a of [] \<Rightarrow> []
      | (sid, v, t) # _ \<Rightarrow> snd (observe sid v t (pg_engine p)))"
    using assms by (cases a; simp)+
qed

lemma perform_engine:
  assumes "perform J env a p = Some (Inr p')"
  shows "pg_bus p' = pg_bus p" and "pg_engine p' = fst (observe_all (observed_in a) (pg_engine p))"
  using assms
  by (cases a; auto simp: broadcast_if_set_def observe_all_Cons split: option.splits sum.splits if_splits)+

lemma poller_actions:
  assumes "event_type e \<noteq> ET_anomaly"
  shows "alerts_at k (publish_actions wiring e) = []" "observed (publish_actions wiring e) = reading_in e"
    "alerts_first (publish_actions wiring e)"
  using assms by (cases e; cases k; simp)+

text \<open>The invariant for a sensor whose readings all come from strand \<open>n\<close>.\<close>

definition one_strand :: "string \<Rightarrow> nat \<Rightarrow> (nat \<times> Event) list \<Rightarrow> bool" where
  "one_strand sid n es \<longleftrightarrow> list_all (\<lambda>(m, e). readings_of sid (reading_in e) = [] \<or> m = n) es"

definition sensor_inv :: "RuleEngine \<Rightarrow> Sink \<Rightarrow> string \<Rightarrow> nat \<Rightarrow> System \<Rightarrow> bool" where
  "sensor_inv engine k sid n s \<longleftrightarrow>
     pg_engine (sys_prog s) = fst (observe_all (observed (sys_done s)) engine) \<and>
     of_sensor sid (alerts_at k (sys_done s @ sys_strands s ! n)) =
       of_sensor sid (snd (observe_all (observed (sys_done s)) engine)) \<and>
     readings_of sid (observed (sys_done s @ sys_strands s ! n)) =
       readings_of sid (published_readings (sys_published s)) \<and>
     (\<forall>m < length (sys_strands s). alerts_first (sys_strands s ! m) \<and> (m = n \<or>
        of_sensor sid (alerts_at k (sys_strands s ! m)) = [] \<and> readings_of sid (observed (sys_strands s ! m)) = []))"

lemma sensor_inv_run:
  assumes inv: "sensor_inv engine k sid n s" and bus: "pg_bus (sys_prog s) = wiring"
    and m: "m < length (sys_strands s)" "sys_strands s ! m = a # as" and n: "n < length (sys_strands s)"
    and p: "perform J env a (sys_prog s) = Some (Inr p)"
  shows "sensor_inv engine k sid n (s\<lparr>sys_prog := p,
      sys_strands := (sys_strands s)[m := calls (sys_prog s) a @ as], sys_done := sys_done s @ [a]\<rparr>)"
proof -
  let ?e = "pg_engine (sys_prog s)"
  note calls = calls_alerts [OF bus, where a = a]
  have af: "alerts_first (calls (sys_prog s) a @ as)"
    using inv m by (auto simp: sensor_inv_def alerts_first_append_calls calls(1))
  have other: "of_sensor sid (alerts_in k a @ alerts_at k as) = [] \<and> readings_of sid (observed_in a @ observed as) = []"
    if "m \<noteq> n"
    using inv m that by (auto simp: sensor_inv_def)
  show ?thesis
  proof (cases "observed_in a")
    case Nil
    then have nc: "alerts_at k (calls (sys_prog s) a) = []" by (simp add: calls(2))
    show ?thesis
      using inv m n af other perform_engine [OF p] Nil nc calls(1)
      by (auto simp: sensor_inv_def nth_list_update)
  next
    case (Cons r rest)
    then obtain sid' v t where r: "observed_in a = [(sid', v, t)]" "alerts_in k a = []" by (cases a) auto
    have none: "alerts_at k as = []" using inv m r by (auto simp: sensor_inv_def)
    have new: "alerts_at k (calls (sys_prog s) a) = snd (observe sid' v t ?e)" by (simp add: calls(2) r)
    have sid: "sid' \<noteq> sid" if "m \<noteq> n" using other [OF that] r by (auto simp: readings_of_def split: if_splits)
    show ?thesis
      using inv m n af other sid perform_engine [OF p] r none new calls(1)
      by (auto simp: sensor_inv_def nth_list_update observe_all_snoc observe_all_Cons of_sensor_observe)
  qed
qed

text \<open>Every other step leaves the strands, the engine and the history alone.\<close>

definition same_readings :: "System \<Rightarrow> System \<Rightarrow> bool" where
  "same_readings s s' \<longleftrightarrow> pg_bus (sys_prog s') = pg_bus (sys_prog s) \<and>
     pg_engine (sys_prog s') = pg_engine (sys_prog s) \<and> sys_strands s' = sys_strands s \<and>
     sys_done s' = sys_done s \<and> sys_published s' = sys_published s \<and>
     pg_alert_log (sys_prog s') = pg_alert_log (sys_prog s)"

lemma main_do_same: "main_do cpu a s = Some s' \<Longrightarrow> same_readings s s'"
  by (cases a) (auto simp: same_readings_def split: option.splits)

lemma maintenance_same:
  "maintenance t p = Some p' \<Longrightarrow> pg_bus p' = pg_bus p \<and> pg_engine p' = pg_engine p \<and> pg_alert_log p' = pg_alert_log p"
  by (auto simp: maintenance_def Let_def case_prod_beta split: option.splits if_splits)

lemma sys_step_same:
  assumes "sys_step J cpu e s = Some (Inr s')" and "\<And>n ev. e \<noteq> Publish n ev" and "\<And>n env. e \<noteq> Run n env"
  shows "same_readings s s'"
proof (cases e)
  case (Timer t)
  with assms(1) show ?thesis by (auto simp: same_readings_def dest: maintenance_same split: if_splits)
next
  case Main_thread
  with assms(1) show ?thesis
    by (auto split: list.splits if_splits dest!: main_do_same simp: same_readings_def)
qed (use assms in \<open>auto simp: same_readings_def split: option.splits prod.splits WorkerPass.splits sum.splits if_splits list.splits\<close>)

lemma one_strand_snoc: "one_strand sid n (es @ [(m, e)]) \<longleftrightarrow>
    one_strand sid n es \<and> (readings_of sid (reading_in e) = [] \<or> m = n)"
  by (simp add: one_strand_def)

lemma sensor_inv_publish:
  assumes "sensor_inv engine k sid n s" and "m < length (sys_strands s)" and "n < length (sys_strands s)"
    and "event_type e \<noteq> ET_anomaly" and "readings_of sid (reading_in e) = [] \<or> m = n"
  shows "sensor_inv engine k sid n (s\<lparr>
      sys_strands := (sys_strands s)[m := sys_strands s ! m @ publish_actions wiring e],
      sys_published := sys_published s @ [(m, e)]\<rparr>)"
  using assms poller_actions [OF assms(4)]
  by (auto simp: sensor_inv_def nth_list_update intro!: alerts_first_append_events)

lemma sys_step_inv:
  assumes step: "sys_step J cpu e s = Some (Inr s')" and bus: "pg_bus (sys_prog s) = wiring"
    and n: "n < length (sys_strands s)"
  shows "pg_bus (sys_prog s') = wiring \<and> length (sys_strands s') = length (sys_strands s) \<and>
    (one_strand sid n (sys_published s') \<longrightarrow> one_strand sid n (sys_published s) \<and>
       (sensor_inv engine k sid n s \<longrightarrow> sensor_inv engine k sid n s'))"
proof (cases "\<exists>m ev. e = Publish m ev")
  case True
  then obtain m ev where e: "e = Publish m ev" by blast
  have "s' = s \<or> (m < length (sys_strands s) \<and> event_type ev \<noteq> ET_anomaly \<and> s' = s\<lparr>
      sys_strands := (sys_strands s)[m := sys_strands s ! m @ publish_actions wiring ev],
      sys_published := sys_published s @ [(m, ev)]\<rparr>)"
    using step bus by (auto simp: e split: if_splits)
  then show ?thesis
    using bus n sensor_inv_publish [of engine k sid n s m ev] by (auto simp: one_strand_snoc)
next
  case False
  show ?thesis
  proof (cases "\<exists>m env. e = Run m env")
    case True
    then obtain m env where e: "e = Run m env" by blast
    have "s' = s \<or> (\<exists>a as p. m < length (sys_strands s) \<and> sys_strands s ! m = a # as \<and>
        perform J env a (sys_prog s) = Some (Inr p) \<and> s' = s\<lparr>sys_prog := p,
          sys_strands := (sys_strands s)[m := calls (sys_prog s) a @ as], sys_done := sys_done s @ [a]\<rparr>)"
      using step by (auto simp: e not_le split: if_splits list.splits option.splits sum.splits)
    then show ?thesis
      using bus n sensor_inv_run [OF _ bus _ _ n] perform_engine(1) by fastforce
  next
    case other: False
    from sys_step_same [OF step] False other have "same_readings s s'" by blast
    then show ?thesis using bus by (auto simp: same_readings_def sensor_inv_def)
  qed
qed

lemma sys_run_inv:
  assumes "sys_run J cpu es s = Some (Inr s')" and "pg_bus (sys_prog s) = wiring" and "n < length (sys_strands s)"
  shows "one_strand sid n (sys_published s') \<longrightarrow> one_strand sid n (sys_published s) \<and>
       (sensor_inv engine k sid n s \<longrightarrow> sensor_inv engine k sid n s')"
  using assms
proof (induction es arbitrary: s)
  case (Cons e es)
  then obtain s1 where s1: "sys_step J cpu e s = Some (Inr s1)" "sys_run J cpu es s1 = Some (Inr s')"
    by (auto split: option.splits sum.splits)
  from sys_step_inv [OF s1(1) Cons.prems(2,3), of sid engine k] Cons.IH [OF s1(2)] Cons.prems(3)
  show ?case by auto
qed simp

section \<open>The alert log and the alert counter\<close>

lemma perform_log:
  "perform J env a p = Some (Inr p') \<Longrightarrow> pg_alert_log p' = foldl log_push (pg_alert_log p) (alerts_in To_log a)"
  by (cases a) (auto simp: broadcast_if_set_def split: option.splits sum.splits if_splits)

lemma sys_step_log:
  assumes "sys_step J cpu e s = Some (Inr s')"
    and "pg_alert_log (sys_prog s) = foldl log_push l (alerts_at To_log (sys_done s))"
  shows "pg_alert_log (sys_prog s') = foldl log_push l (alerts_at To_log (sys_done s'))"
proof (cases e)
  case (Publish n ev)
  with assms show ?thesis by (auto split: if_splits)
next
  case (Run n env)
  with assms show ?thesis by (auto dest: perform_log split: if_splits list.splits option.splits sum.splits)
qed (use sys_step_same [OF assms(1)] assms(2) in \<open>auto simp: same_readings_def\<close>)

text \<open>A counter that every increment raises by one counts exactly up to \<open>2 ^ 53\<close>.\<close>

definition counted :: "nat \<Rightarrow> double" where "counted n = ((\<lambda>v. d_add v d_one) ^^ n) 0"

lemma d_add_one:
  assumes "0 \<le> i" and "i < 2 ^ 53"
  shows "d_add (d_of_int i) d_one = d_of_int (i + 1)"
proof -
  have i: "\<bar>i\<bar> < 2 ^ 53" using assms by simp
  have "\<not> d_nan (d_of_int i)" "\<not> d_inf (d_of_int i)"
    using d_of_int_exact(2) [OF i] by (auto simp: d_finite_def d_nan_def d_inf_def)
  moreover have "\<not> d_inf d_one" by code_simp
  moreover have "(of_int i :: rat) + 1 \<noteq> 0" using assms(1) by (metis add_pos_nonneg add.commute less_irrefl of_int_0_le_iff zero_less_one)
  ultimately show ?thesis
    using d_of_int_exact(1) [OF i] by (simp add: d_add_def Let_def d_of_int_def)
qed

lemma counted_exact: "n \<le> 2 ^ 53 \<Longrightarrow> counted n = d_of_int (int n)"
proof (induction n)
  case 0
  have "d_of_int 0 = 0" by code_simp
  then show ?case by (simp add: counted_def)
next
  case (Suc n)
  have "int n < 2 ^ 53" using Suc.prems by simp
  from d_add_one [OF _ this] Suc show ?case by (simp add: counted_def add.commute)
qed

definition alerts_total :: string where "alerts_total = ''ironpulse_alerts_total''"

text \<open>What an operation on the registry does to the alert counter of a label set.\<close>

lemma metric_op_keeps:
  assumes "metrics_ok m" and "metric_op_ok op" and "label_names_ok ls"
  shows "metrics_ok (metric_do m op)" and
    "metric_value alerts_total ls (metric_do m op) = Metrics.spec_do alerts_total ls (metric_value alerts_total ls m) op"
  using assms by (auto simp: metric_do_ok metric_value_do)

definition keeps_count :: "Labels \<Rightarrow> Metrics \<Rightarrow> Metrics \<Rightarrow> bool" where
  "keeps_count ls m m' \<longleftrightarrow> (metrics_ok m \<longrightarrow> metrics_ok m' \<and> metric_value alerts_total ls m' = metric_value alerts_total ls m)"

lemma keeps_count_refl [simp]: "keeps_count ls m m"
  by (simp add: keeps_count_def)

lemma keeps_count_trans: "keeps_count ls m m1 \<Longrightarrow> keeps_count ls m1 m2 \<Longrightarrow> keeps_count ls m m2"
  by (simp add: keeps_count_def)

lemma keeps_count_set:
  "label_names_ok ls \<Longrightarrow> metric_name_ok name \<Longrightarrow> label_names_ok ls' \<Longrightarrow> name \<noteq> alerts_total \<Longrightarrow>
   keeps_count ls m (set_metric name ls' v m)"
  using metric_op_keeps [of m "M_set name ls' v" ls] by (simp add: keeps_count_def)

lemma keeps_count_increment:
  "label_names_ok ls \<Longrightarrow> metric_name_ok name \<Longrightarrow> label_names_ok ls' \<Longrightarrow> name \<noteq> alerts_total \<Longrightarrow>
   keeps_count ls m (increment name ls' v m)"
  using metric_op_keeps [of m "M_increment name ls' v" ls] by (simp add: keeps_count_def)

lemma keeps_count_describe:
  "label_names_ok ls \<Longrightarrow> metric_name_ok name \<Longrightarrow> CHR 0x0A \<notin> set help \<Longrightarrow>
   keeps_count ls m (describe_metric name ty help m)"
  using metric_op_keeps [of m "M_describe name ty help" ls] by (simp add: keeps_count_def)

lemmas keeps_count_rules = keeps_count_set keeps_count_increment keeps_count_describe

lemma label_names_alert [simp]: "label_names_ok (alert_labels a)"
  by (simp add: alert_labels_def label_names_ok_def)

lemma label_names_Nil [simp]: "label_names_ok []"
  by (simp add: label_names_ok_def)

lemma keeps_count_export: "label_names_ok ls \<Longrightarrow> keeps_count ls m (fst (publish_export_stats x m d))"
  unfolding publish_export_stats_def Let_def fst_conv
  by (intro keeps_count_trans [OF _ keeps_count_set] keeps_count_refl)
    (simp_all add: metric_name_ok_def alerts_total_def)

lemma keeps_count_maintenance:
  assumes "maintenance t p = Some p'" and "label_names_ok ls"
  shows "keeps_count ls (pg_metrics p) (pg_metrics p')"
proof -
  let ?m1 = "set_metric ''ironpulse_uptime_seconds'' [] (seconds_double (tick_steady t - tick_started t)) (pg_metrics p)"
  let ?m2 = "set_metric ''ironpulse_websocket_clients'' [] (as_double (of_nat (connection_count (pg_connections p)))) ?m1"
  have 2: "keeps_count ls (pg_metrics p) ?m2"
    by (intro keeps_count_trans [OF _ keeps_count_set] keeps_count_refl)
      (simp_all add: assms(2) metric_name_ok_def alerts_total_def)
  have "pg_metrics p' = fst (case pg_exporter p of None \<Rightarrow> (?m2, pg_last_dropped p)
      | Some x \<Rightarrow> publish_export_stats x ?m2 (pg_last_dropped p))"
    using assms(1) by (auto simp: maintenance_def Let_def case_prod_beta split: option.splits if_splits)
  then show ?thesis
    using 2 keeps_count_trans [OF 2 keeps_count_export [OF assms(2)]] by (auto split: option.splits)
qed

definition alert_count :: "Labels \<Rightarrow> Action list \<Rightarrow> nat" where
  "alert_count ls as = length (filter (\<lambda>a. alert_labels a = ls) (alerts_at To_count as))"

definition count_inv :: "Labels \<Rightarrow> System \<Rightarrow> bool" where
  "count_inv ls s \<longleftrightarrow> metrics_ok (pg_metrics (sys_prog s)) \<and>
     metric_value alerts_total ls (pg_metrics (sys_prog s)) = counted (alert_count ls (sys_done s))"

lemma perform_count:
  assumes "perform J env a p = Some (Inr p')" and "label_names_ok ls" and m: "metrics_ok (pg_metrics p)"
    and v: "metric_value alerts_total ls (pg_metrics p) = counted k"
  shows "metrics_ok (pg_metrics p') \<and> metric_value alerts_total ls (pg_metrics p') = counted (k + alert_count ls [a])"
proof (cases "\<exists>al. a = Do_count_alert al")
  case True
  then obtain al where a: "a = Do_count_alert al" by blast
  have p': "pg_metrics p' = metric_do (pg_metrics p) (M_increment alerts_total (alert_labels al) d_one)"
    using assms(1) by (auto simp: a alerts_total_def)
  have op: "metric_op_ok (M_increment alerts_total (alert_labels al) d_one)"
    by (simp add: metric_name_ok_def alerts_total_def)
  show ?thesis
    unfolding p' using metric_op_keeps [OF m op assms(2)] v by (simp add: a alert_count_def counted_def)
next
  case False
  then have "alert_count ls [a] = 0" by (cases a) (simp_all add: alert_count_def)
  moreover have "keeps_count ls (pg_metrics p) (pg_metrics p')"
    using assms(1,2) False
    by (cases a) (auto simp: broadcast_if_set_def metric_name_ok_def alerts_total_def label_names_ok_def
        intro!: keeps_count_set keeps_count_increment split: option.splits sum.splits if_splits)
  ultimately show ?thesis using m v by (simp add: keeps_count_def)
qed

lemma main_do_metrics: "main_do cpu a s = Some s' \<Longrightarrow> pg_metrics (sys_prog s') = pg_metrics (sys_prog s)"
  by (cases a) (auto split: option.splits)

lemma sys_step_keeps_count:
  assumes "sys_step J cpu e s = Some (Inr s')" and "\<And>n ev. e \<noteq> Publish n ev" and "\<And>n env. e \<noteq> Run n env"
    and "label_names_ok ls"
  shows "keeps_count ls (pg_metrics (sys_prog s)) (pg_metrics (sys_prog s'))"
proof (cases e)
  case (Timer t)
  with assms show ?thesis by (auto dest: keeps_count_maintenance split: if_splits)
next
  case Main_thread
  with assms(1) show ?thesis by (auto split: list.splits if_splits dest!: main_do_metrics)
next
  case Notifier_report
  have "label_names_ok [(''channel'', ch), (''result'', if ok then ''ok'' else ''error'')]" for ch ok
    by (simp add: label_names_ok_def)
  moreover have "metric_name_ok ''ironpulse_notifications_total''" "''ironpulse_notifications_total'' \<noteq> alerts_total"
    by (simp_all add: metric_name_ok_def alerts_total_def)
  ultimately have "keeps_count ls m (increment ''ironpulse_notifications_total''
      [(''channel'', ch), (''result'', if ok then ''ok'' else ''error'')] d_one m)" for ch ok m
    using keeps_count_increment [OF assms(4)] by blast
  with Notifier_report assms(1) show ?thesis by (auto split: list.splits)
qed (use assms(1-3) in \<open>auto split: option.splits prod.splits WorkerPass.splits sum.splits if_splits\<close>)

lemma sys_step_count:
  assumes step: "sys_step J cpu e s = Some (Inr s')" and ls: "label_names_ok ls" and inv: "count_inv ls s"
  shows "count_inv ls s'"
proof (cases "\<exists>m ev. e = Publish m ev")
  case True
  with step inv show ?thesis by (auto simp: count_inv_def split: if_splits)
next
  case no_publish: False
  show ?thesis
  proof (cases "\<exists>m env. e = Run m env")
    case True
    then obtain m env where e: "e = Run m env" by blast
    have "s' = s \<or> (\<exists>a p. perform J env a (sys_prog s) = Some (Inr p) \<and> sys_prog s' = p \<and>
        sys_done s' = sys_done s @ [a])"
      using step by (auto simp: e not_le split: if_splits list.splits option.splits sum.splits)
    then show ?thesis
    proof
      assume "\<exists>a p. perform J env a (sys_prog s) = Some (Inr p) \<and> sys_prog s' = p \<and> sys_done s' = sys_done s @ [a]"
      then obtain a p where a: "perform J env a (sys_prog s) = Some (Inr p)" "sys_prog s' = p" "sys_done s' = sys_done s @ [a]"
        by blast
      have "alert_count ls (sys_done s @ [a]) = alert_count ls (sys_done s) + alert_count ls [a]"
        by (simp add: alert_count_def)
      with perform_count [OF a(1) ls] inv show ?thesis by (simp add: count_inv_def a(2,3))
    qed (use inv in simp)
  next
    case False
    with no_publish sys_step_keeps_count [OF step _ _ ls] sys_step_same [OF step] inv show ?thesis
      by (auto simp: keeps_count_def count_inv_def same_readings_def)
  qed
qed

section \<open>The start\<close>

lemma describe_all_ok: "metrics_ok (describe_metrics [])"
proof -
  have "list_all (\<lambda>(name, ty, help). metric_op_ok (M_describe name ty help)) metric_descriptions"
    by (simp add: metric_descriptions_def metric_name_ok_def)
  then have "metrics_ok m \<Longrightarrow> list_all (\<lambda>(name, ty, help). metric_op_ok (M_describe name ty help)) ds \<Longrightarrow>
    metrics_ok (foldl (\<lambda>m (name, ty, help). describe_metric name ty help m) m ds)" for m ds
  proof (induction ds arbitrary: m)
    case (Cons d ds)
    obtain name ty h where d: "d = (name, ty, h)" by (cases d)
    with Cons.prems metric_do_ok [of m "M_describe name ty h"] Cons.IH show ?case by simp
  qed simp
  moreover have "metrics_ok []" by (simp add: metrics_ok_def)
  ultimately show ?thesis
    unfolding describe_metrics_def
    using \<open>list_all (\<lambda>(name, ty, help). metric_op_ok (M_describe name ty help)) metric_descriptions\<close> by blast
qed

lemma build_info_keeps:
  "label_names_ok ls \<Longrightarrow> keeps_count ls m (set_metric ''ironpulse_build_info'' [(''version'', v)] d_one m)"
  by (rule keeps_count_set) (simp_all add: metric_name_ok_def alerts_total_def label_names_ok_def)

lemma describe_all_count: "label_names_ok ls \<Longrightarrow> metric_value alerts_total ls (describe_metrics []) = 0"
proof -
  assume ls: "label_names_ok ls"
  have "keeps_count ls m (foldl (\<lambda>m (name, ty, help). describe_metric name ty help m) m ds)"
    if "list_all (\<lambda>(name, ty, help). metric_op_ok (M_describe name ty help)) ds" for m ds
    using that
  proof (induction ds arbitrary: m)
    case (Cons d ds)
    obtain name ty h where d: "d = (name, ty, h)" by (cases d)
    with Cons keeps_count_describe [OF ls, of name h m ty] show ?case by (auto intro: keeps_count_trans)
  qed simp
  moreover have "list_all (\<lambda>(name, ty, help). metric_op_ok (M_describe name ty help)) metric_descriptions"
    by (simp add: metric_descriptions_def metric_name_ok_def)
  ultimately have "keeps_count ls [] (describe_metrics [])" by (simp add: describe_metrics_def)
  moreover have "metric_value alerts_total ls [] = 0" "metrics_ok []"
    by (simp_all add: metric_value_def metrics_ok_def)
  ultimately show ?thesis by (simp add: keeps_count_def)
qed

lemma startup_parts:
  assumes "startup J h cfg = Some (Inr p)"
  shows "pg_bus p = wiring" "pg_alert_log p = AlertLog_make 500" "pg_ws_set p"
    "label_names_ok ls \<Longrightarrow> metrics_ok (pg_metrics p) \<and> metric_value alerts_total ls (pg_metrics p) = 0"
proof -
  have m: "pg_metrics p = set_metric ''ironpulse_build_info'' [(''version'', host_version h)] d_one (describe_metrics [])"
    and "pg_bus p = wiring" "pg_alert_log p = AlertLog_make 500" "pg_ws_set p"
    using assms by (auto simp: startup_def Let_def split: sum.splits option.splits)
  then show "pg_bus p = wiring" "pg_alert_log p = AlertLog_make 500" "pg_ws_set p" by simp_all
  assume ls: "label_names_ok ls"
  with build_info_keeps [OF ls, of "describe_metrics []" "host_version h"] describe_all_ok describe_all_count
  show "metrics_ok (pg_metrics p) \<and> metric_value alerts_total ls (pg_metrics p) = 0"
    by (simp add: m keeps_count_def)
qed

text \<open>What the registration loop leaves for a sensor.\<close>

definition wired_sensor :: "Wired \<Rightarrow> string \<Rightarrow> SensorConfig \<Rightarrow> bool" where
  "wired_sensor = (\<lambda>(engine, infos, units) dev s.
     (\<exists>ds. map detector_name ds = map det_type (detectors (detection s)) \<and> engine (sensor_id s) = Some
        \<lparr>strategies = ds, rule_votes_required = votes_required (detection s),
         rule_cooldown = uint (cooldown_seconds (detection s)), rule_limits = limits s,
         limit_state = LS_inside, last_limit_alert = None, last_statistical_alert = None\<rparr>) \<and>
     infos (sensor_id s) = Some \<lparr>info_name = sensor_name s, info_unit = sensor_unit s, info_device_id = dev\<rparr> \<and>
     units (sensor_id s) = Some (sensor_unit s))"

definition wired_all :: "Wired \<Rightarrow> (string \<times> SensorConfig) list \<Rightarrow> bool" where
  "wired_all w ps \<longleftrightarrow> (\<forall>sid. fst w sid \<noteq> None \<longleftrightarrow> sid \<in> sensor_id ` snd ` set ps) \<and> (\<forall>(dev, s) \<in> set ps. wired_sensor w dev s)"

lemma wire_one:
  assumes "wired_all (engine, infos, units) ps" and "sensor_id s \<notin> sensor_id ` snd ` set ps" and "sensor_ok s"
  shows "\<exists>engine'. register_sensor engine s = Some (Inr engine') \<and> wired_all
    (engine', infos(sensor_id s \<mapsto> \<lparr>info_name = sensor_name s, info_unit = sensor_unit s, info_device_id = dev\<rparr>),
     units(sensor_id s \<mapsto> sensor_unit s)) (ps @ [(dev, s)])"
proof -
  let ?opts = "\<lparr>opt_votes_required = votes_required (detection s),
       opt_cooldown = uint (cooldown_seconds (detection s)), opt_limits = limits s\<rparr>"
  from loaded_sensor_registers [OF assms(3), of engine] obtain ds where
    ds: "register_sensor engine s = Some (Inr (register_rule (sensor_id s) ds ?opts engine))"
      "map detector_name ds = map det_type (detectors (detection s))" by blast
  have "votes_required (detection s) \<noteq> 0" using assms(3) by (auto simp: sensor_ok_def detection_ok_def)
  then have new: "wired_sensor (register_rule (sensor_id s) ds ?opts engine,
     infos(sensor_id s \<mapsto> \<lparr>info_name = sensor_name s, info_unit = sensor_unit s, info_device_id = dev\<rparr>),
     units(sensor_id s \<mapsto> sensor_unit s)) dev s"
    using ds(2) by (simp add: wired_sensor_def register_rule_def)
  have old: "wired_sensor (register_rule (sensor_id s) ds ?opts engine,
     infos(sensor_id s \<mapsto> \<lparr>info_name = sensor_name s, info_unit = sensor_unit s, info_device_id = dev\<rparr>),
     units(sensor_id s \<mapsto> sensor_unit s)) dev' s'" if "(dev', s') \<in> set ps" for dev' s'
  proof -
    have "sensor_id s' \<noteq> sensor_id s" using assms(2) that by (metis image_eqI snd_conv)
    moreover have "wired_sensor (engine, infos, units) dev' s'" using assms(1) that by (auto simp: wired_all_def)
    ultimately show ?thesis by (simp add: wired_sensor_def register_rule_def)
  qed
  have "(register_rule (sensor_id s) ds ?opts engine sid \<noteq> None) = (sid \<in> sensor_id ` snd ` set (ps @ [(dev, s)]))" for sid
    using assms(1) by (auto simp: wired_all_def register_rule_def)
  with ds(1) new old show ?thesis by (auto simp: wired_all_def)
qed

lemma wire_sensors_ok:
  assumes "wired_all w ps" and "\<forall>s \<in> set ss. sensor_ok s" and "distinct (map sensor_id (map snd ps @ ss))"
  shows "\<exists>w'. wire_sensors dev ss w = Some (Inr w') \<and> wired_all w' (ps @ map (Pair dev) ss)"
  using assms
proof (induction ss arbitrary: ps w)
  case (Cons s ss)
  obtain engine infos units where w: "w = (engine, infos, units)" by (cases w)
  have "sensor_id s \<notin> sensor_id ` snd ` set ps" using Cons.prems(3) by (auto simp: image_image)
  with wire_one [of engine infos units ps s dev] Cons.prems(1,2) obtain engine' where
    e: "register_sensor engine s = Some (Inr engine')"
    and ok: "wired_all (engine', infos(sensor_id s \<mapsto> \<lparr>info_name = sensor_name s, info_unit = sensor_unit s, info_device_id = dev\<rparr>),
     units(sensor_id s \<mapsto> sensor_unit s)) (ps @ [(dev, s)])" unfolding w by auto
  from Cons.IH [OF ok] Cons.prems(2,3) show ?case by (simp add: w e)
qed (simp add: wired_all_def)

lemma wire_devices_ok:
  assumes "wired_all w ps" and "\<forall>d \<in> set ds. \<forall>s \<in> set (sensors d). sensor_ok s"
    and "distinct (map sensor_id (map snd ps @ concat (map sensors ds)))"
  shows "\<exists>w'. wire_devices ds w = Some (Inr w') \<and>
    wired_all w' (ps @ concat (map (\<lambda>d. map (Pair (device_id d)) (sensors d)) ds))"
  using assms
proof (induction ds arbitrary: ps w)
  case (Cons d ds)
  have "distinct (map sensor_id (map snd ps @ sensors d))" using Cons.prems(3) by auto
  with wire_sensors_ok [OF Cons.prems(1), of "sensors d" "device_id d"] Cons.prems(2) obtain w1 where
    w1: "wire_sensors (device_id d) (sensors d) w = Some (Inr w1)"
      "wired_all w1 (ps @ map (Pair (device_id d)) (sensors d))" by auto
  from Cons.IH [OF w1(2)] Cons.prems(2,3) show ?case by (simp add: w1(1) comp_def)
qed (simp add: wired_all_def)

lemma ms_to_tp_hours: "0 \<le> hrs \<Longrightarrow> ms_to_tp (hrs * 3600000) = None \<longleftrightarrow> 2562047 < hrs"
  unfolding ms_to_tp_def by auto

lemma prune_start:
  "prune_store (host_out h) (host_prune h) (host_wall h) (uint (retention_hours cfg) * 3600000) (start_store h cfg) = None \<longleftrightarrow>
   persistence_enabled cfg \<and> 2562047 < uint (retention_hours cfg)"
proof -
  define hrs where "hrs = uint (retention_hours cfg)"
  have "prune_older_than out io now (hrs * 3600000) w = None \<longleftrightarrow> 2562047 < hrs" for out io now w
    using ms_to_tp_hours [of hrs]
    by (cases "ms_to_tp (hrs * 3600000)") (simp_all add: prune_older_than_def Let_def case_prod_beta hrs_def)
  then show ?thesis
    by (simp add: prune_store_def start_store_def SeriesStore_make_def flip: hrs_def)
qed

lemma sys_run_induct:
  assumes "sys_run J cpu es s = Some (Inr s')" and "P s"
    and "\<And>e s s'. P s \<Longrightarrow> sys_step J cpu e s = Some (Inr s') \<Longrightarrow> P s'"
  shows "P s'"
  using assms(1,2)
proof (induction es arbitrary: s)
  case (Cons e es)
  then obtain s1 where "sys_step J cpu e s = Some (Inr s1)" "sys_run J cpu es s1 = Some (Inr s')"
    by (auto split: option.splits sum.splits)
  with Cons.IH [of s1] assms(3) Cons.prems(2) show ?case by blast
qed simp

text \<open>A run from the start to idle strands.\<close>

lemma run_alerts:
  assumes "sys_run J cpu es (sys_start k main p) = Some (Inr s)" and "pg_bus p = wiring" and "n < k"
    and "one_strand sid n (sys_published s)" and "list_all (\<lambda>as. as = []) (sys_strands s)"
  shows "of_sensor sid (alerts_at sink (sys_done s)) =
    snd (observe_all (readings_of sid (published_readings (sys_published s))) (pg_engine p))"
proof -
  let ?s0 = "sys_start k main p"
  have "sensor_inv (pg_engine p) sink sid n ?s0"
    using assms(3) by (simp add: sensor_inv_def sys_start_def)
  with sys_run_inv [OF assms(1), of n sid "pg_engine p" sink] assms(2-4)
  have inv: "sensor_inv (pg_engine p) sink sid n s" by (simp add: sys_start_def)
  have "length (sys_strands s) = k \<and> pg_bus (sys_prog s) = wiring"
  proof (rule sys_run_induct [OF assms(1)])
    fix e s s'
    assume "length (sys_strands s) = k \<and> pg_bus (sys_prog s) = wiring" and "sys_step J cpu e s = Some (Inr s')"
    then show "length (sys_strands s') = k \<and> pg_bus (sys_prog s') = wiring"
      using sys_step_inv [of J cpu e s s' n] assms(3) by simp
  qed (simp add: sys_start_def assms(2))
  with assms(3,5) have "sys_strands s ! n = []" by (simp add: list_all_length)
  with inv have "of_sensor sid (alerts_at sink (sys_done s)) = of_sensor sid (snd (observe_all (observed (sys_done s)) (pg_engine p)))"
    "readings_of sid (observed (sys_done s)) = readings_of sid (published_readings (sys_published s))"
    by (simp_all add: sensor_inv_def)
  then show ?thesis using of_sensor_observe_all [of "pg_engine p" sid "pg_engine p"] by simp
qed

lemma alert_count_sensor:
  "alert_count [(''sensor'', sid), (''kind'', kind_to_string knd), (''severity'', severity_to_string sev)] as =
     length (filter (\<lambda>a. a_kind a = knd \<and> a_severity a = sev) (of_sensor sid (alerts_at To_count as)))"
proof -
  have "(kind_to_string a = kind_to_string b) = (a = b)" for a b
    by (cases a; cases b) (simp_all add: kind_to_string_def)
  moreover have "(severity_to_string a = severity_to_string b) = (a = b)" for a b
    by (cases a; cases b) (simp_all add: severity_to_string_def)
  ultimately show ?thesis
    by (simp add: alert_count_def alert_labels_def of_sensor_def conj_ac eq_commute cong: filter_cong)
qed

lemma run_counter:
  assumes "sys_run J cpu es (sys_start k main p) = Some (Inr s)" and "startup J h cfg = Some (Inr p)"
    and "label_names_ok ls" and "length (sys_done s) \<le> 2 ^ 53"
  shows "metric_value alerts_total ls (pg_metrics (sys_prog s)) = d_of_int (int (alert_count ls (sys_done s)))"
proof -
  have "count_inv ls (sys_start k main p)"
    using startup_parts(4) [OF assms(2,3)] by (simp add: count_inv_def sys_start_def alert_count_def counted_def)
  then have "count_inv ls s"
    by (rule sys_run_induct [OF assms(1)]) (rule sys_step_count [OF _ assms(3)])
  then have v: "metric_value alerts_total ls (pg_metrics (sys_prog s)) = counted (alert_count ls (sys_done s))"
    by (simp add: count_inv_def)
  have "length (alerts_at To_count as) \<le> length as" for as
  proof (induction as)
    case (Cons a as)
    then show ?case by (cases a) simp_all
  qed simp
  then have "alert_count ls (sys_done s) \<le> length (sys_done s)"
    unfolding alert_count_def by (meson le_trans length_filter_le)
  with assms(4) show ?thesis by (simp add: v counted_exact)
qed

lemma run_log:
  assumes "sys_run J cpu es (sys_start k main p) = Some (Inr s)" and "pg_alert_log p = AlertLog_make c"
  shows "log_events (pg_alert_log (sys_prog s)) = last_n c (alerts_at To_log (sys_done s))"
proof -
  have "pg_alert_log (sys_prog s) = foldl log_push (AlertLog_make c) (alerts_at To_log (sys_done s))"
    by (rule sys_run_induct [OF assms(1)]) (simp add: sys_start_def assms(2), rule sys_step_log)
  then show ?thesis
    using alerts.history_from_empty [of "AlertLog_make c" "alerts_at To_log (sys_done s)"] by (simp add: AlertLog_make_def)
qed

lemma startup_defined:
  assumes "config_ok cfg" and "start_exporter J h cfg = Inr x"
  shows "if persistence_enabled cfg \<and> 2562047 < uint (retention_hours cfg) then startup J h cfg = None
    else \<exists>p. startup J h cfg = Some (Inr p) \<and> pg_exporter p = x \<and>
      wired_all (pg_engine p, nt_sensors (pg_notifier p), pg_units p)
        (concat (map (\<lambda>d. map (Pair (device_id d)) (sensors d)) (devices cfg)))"
proof -
  have ok: "\<forall>d \<in> set (devices cfg). \<forall>s \<in> set (sensors d). sensor_ok s"
    "distinct (map sensor_id (map snd [] @ concat (map sensors (devices cfg))))"
    using assms(1) by (auto simp: config_ok_def device_ok_def)
  have "wired_all (Map.empty, Map.empty, Map.empty) []" by (simp add: wired_all_def)
  from wire_devices_ok [OF this ok] obtain w where
    w: "wire_devices (devices cfg) (Map.empty, Map.empty, Map.empty) = Some (Inr w)"
      "wired_all w (concat (map (\<lambda>d. map (Pair (device_id d)) (sensors d)) (devices cfg)))"
    by auto
  obtain engine infos units where w': "w = (engine, infos, units)" by (cases w)
  let ?hours = "uint (retention_hours cfg)"
  note prune = prune_start [of h cfg]
  from assms(2) w prune show ?thesis
    by (cases "prune_store (host_out h) (host_prune h) (host_wall h) (?hours * 3600000) (start_store h cfg)")
      (auto simp: startup_def w' Let_def Notifier_make_def)
qed

text \<open>The first sample of a series in a store with an empty log.\<close>

lemma record_first:
  assumes "0 < c" "1 < k"
  shows "\<exists>s. record_sample out now sid v t (SeriesStore_make c (Some (WalWriter_make k [])) age) = Some s \<and>
    store_latest sid s = Some (Some \<lparr>smp_timestamp = t, smp_value = v\<rparr>) \<and>
    (\<exists>w. wal s = Some w \<and> contents_of (wal_files w) (file_for sid) = [] \<and> wal_files w = [])"
proof -
  let ?b = "RingBuffer_make blank c" and ?x = "\<lparr>smp_timestamp = t, smp_value = v\<rparr>"
  have ok: "rb_ok ?b" "rb_contents ?b = []" using assms(1) rb_make_ok [of c blank] by simp_all
  have p: "rb_push v t ?b = Some (rb_put ?b ?x)" using rb_put_push [OF ok(1), of ?x] by simp
  note pushed = rb_push_contents [OF ok(1) p]
  have "rb_ok (rb_put ?b ?x)" by (rule pushed(1))
  moreover have "rb_contents (rb_put ?b ?x) = [?x]"
    using pushed(3) ok(2) assms(1) by (simp add: RingBuffer_make_def last_n_def)
  ultimately have "rb_latest (rb_put ?b ?x) = Some (Some ?x)" by (simp add: rb_latest_contents)
  then show ?thesis
    using assms(2)
    by (simp add: record_sample_def get_or_create_def SeriesStore_make_def WalWriter_make_def replay_into_def
        read_all_def p store_latest_def append_record_def pending_of_def contents_of_def Let_def)
qed

lemma fresh_start:
  assumes "startup J h cfg = Some (Inr p)" and "persistence_enabled cfg" and "\<not> enabled (export_config cfg)"
    and "host_wal_dir h = []"
  shows "\<exists>age. pg_store p = SeriesStore_make 4096 (Some (WalWriter_make 32 [])) age \<and> pg_exporter p = None"
proof -
  let ?w = "WalWriter_make 32 []"
  have fl: "flush_all out ?w = ?w" for out by (simp add: flush_all_def WalWriter_make_def)
  have pr: "prune_older_than out io t ret ?w = map_option (\<lambda>_. (0, ?w)) (ms_to_tp ret)" for out io t ret
    by (cases "ms_to_tp ret") (simp_all add: prune_older_than_def fl Let_def, simp add: WalWriter_make_def)
  show ?thesis
    using assms
    by (auto simp: startup_def start_exporter_def start_store_def prune_store_def pr Let_def SeriesStore_make_def
        split: sum.splits option.splits)
qed

section \<open>Properties\<close>



text \<open>C11. A reading that a handler is still publishing when \<open>main\<close> flushes the write-ahead log on its way
  out is lost from the log. The I/O threads are joined only after the flush, and nothing flushes
  again, so after a clean shutdown the reading is in memory (and exported, because the exporter is
  stopped after the join) but the sensor's file has not got it.\<close>

theorem late_reading_not_logged:
  assumes "startup J h cfg = Some (Inr p)" and "persistence_enabled cfg" and "\<not> enabled (export_config cfg)"
    and "host_wal_dir h = []" and "devices cfg \<noteq> []"
    and "snd (observe (r_sensor_id r) (r_value r) (r_timestamp r) (pg_engine p)) = []"
  shows "\<exists>es s w. sys_run J cpu es (sys_start (length (devices cfg)) (shutdown_actions now Some ticks) p) = Some (Inr s) \<and>
    sys_published s = [(0, E_reading r)] \<and> sys_main s = [] \<and> sys_joined s \<and>
    list_all (\<lambda>as. as = []) (sys_strands s) \<and>
    store_latest (r_sensor_id r) (pg_store (sys_prog s)) =
      Some (Some \<lparr>smp_timestamp = r_timestamp r, smp_value = r_value r\<rparr>) \<and>
    wal (pg_store (sys_prog s)) = Some w \<and> contents_of (wal_files w) (file_for (r_sensor_id r)) = []"
proof -
  let ?w = "WalWriter_make 32 []"
  have fl: "flush_all out ?w = ?w" for out by (simp add: flush_all_def WalWriter_make_def)
  from fresh_start [OF assms(1-4)] startup_parts(1) [OF assms(1)] obtain age where
    st: "pg_store p = SeriesStore_make 4096 (Some ?w) age" and ex: "pg_exporter p = None" and bus: "pg_bus p = wiring"
    by blast
  obtain s1 w where s1: "record_sample Some 0 (r_sensor_id r) (r_value r) (r_timestamp r) (pg_store p) = Some s1"
      "store_latest (r_sensor_id r) s1 = Some (Some \<lparr>smp_timestamp = r_timestamp r, smp_value = r_value r\<rparr>)"
      "wal s1 = Some w" "contents_of (wal_files w) (file_for (r_sensor_id r)) = []"
    using record_first [of 4096 32 Some 0 "r_sensor_id r" "r_value r" "r_timestamp r" age] by (auto simp: st)
  have keep: "(pg_store p)\<lparr>wal := Some ?w\<rparr> = pg_store p" "wal (pg_store p) = Some ?w"
    by (simp_all add: st SeriesStore_make_def)
  let ?run = "Run 0 \<lparr>env_now = 0, env_out = Some\<rparr>"
  let ?es = "[Publish 0 (E_reading r), Signal, Main_thread, Main_thread, Main_thread,
    ?run, ?run, ?run, ?run, ?run, ?run, Main_thread, Main_thread]"
  obtain d ds where d: "devices cfg = d # ds" using assms(5) by (cases "devices cfg") auto
  have "\<exists>s. sys_run J cpu ?es (sys_start (length (devices cfg)) (shutdown_actions now Some ticks) p) = Some (Inr s) \<and>
    sys_published s = [(0, E_reading r)] \<and> sys_main s = [] \<and> sys_joined s \<and>
    list_all (\<lambda>as. as = []) (sys_strands s) \<and> pg_store (sys_prog s) = s1"
    using assms(6)
    by (simp add: sys_start_def shutdown_actions_def d bus ex keep fl s1(1) blocked_def broadcast_if_set_def
        list_all_iff)
  with s1(2-4) show ?thesis by blast
qed

section \<open>A concrete program\<close>

definition demo_limit_sensor :: SensorConfig where
  "demo_limit_sensor = default_SensorConfig\<lparr>sensor_id := ''t'', limits := \<lparr>low = None, high = Some d_one\<rparr>\<rparr>"

definition demo_config :: AppConfig where
  "demo_config = default_AppConfig\<lparr>persistence_enabled := True, devices := [default_ModbusDeviceConfig
     \<lparr>device_id := ''d'', host := ''h'', sensors := [demo_limit_sensor]\<rparr>]\<rparr>"

definition demo_host :: Host where
  "demo_host = \<lparr>host_version = ''1'', host_wal_dir = [], host_export_dir = [], host_io = \<lambda>_. good_io 0,
     host_out = Some, host_prune = good_prune, host_wall = 0, host_steady = 0,
     host_conns = \<lambda>_. ws_ready\<rparr>"

lemma demo_config_ok: "config_ok demo_config"
proof -
  have "is_valid_id ''t''" "is_valid_id ''d''" "d_finite d_one" by code_simp+
  then have "sensor_ok demo_limit_sensor"
    by (simp add: sensor_ok_def demo_limit_sensor_def default_SensorConfig_def default_DetectionConfig_def
        detection_ok_def limits_ok_def default_literals register_count_def)
  then show ?thesis
    using \<open>is_valid_id ''d''\<close>
    by (simp add: config_ok_def demo_config_def default_AppConfig_def device_ok_def default_ModbusDeviceConfig_def
        default_NotificationsConfig_def is_supported_language_def export_ok_def default_ExportConfig_def)
qed

lemma demo_parts: "start_exporter J demo_host demo_config = Inr None" "devices demo_config \<noteq> []"
  "persistence_enabled demo_config" "\<not> enabled (export_config demo_config)" "host_wal_dir demo_host = []"
  "length (devices demo_config) = 1"
  "retention_hours demo_config = 168"
  by (simp_all add: start_exporter_def demo_config_def default_AppConfig_def default_ExportConfig_def demo_host_def)

lemma demo_wired: "concat (map (\<lambda>d. map (Pair (device_id d)) (sensors d)) (devices demo_config)) = [(''d'', demo_limit_sensor)]"
  by (simp add: demo_config_def)


lemma demo_started:
  "\<exists>p. startup jv_lib demo_host demo_config = Some (Inr p) \<and> pg_bus p = wiring \<and> pg_exporter p = None \<and>
    (\<exists>rule. pg_engine p ''t'' = Some rule \<and> strategies rule = [] \<and> rule_limits rule = \<lparr>low = None, high = Some d_one\<rparr> \<and>
       limit_state rule = LS_inside \<and> last_limit_alert rule = None)"
proof -
  from startup_defined [OF demo_config_ok demo_parts(1), of jv_lib] obtain p where
    p: "startup jv_lib demo_host demo_config = Some (Inr p)" "pg_exporter p = None"
    "wired_all (pg_engine p, nt_sensors (pg_notifier p), pg_units p) [(''d'', demo_limit_sensor)]"
    unfolding demo_wired by (auto simp: demo_parts)
  with startup_parts(1) [OF p(1)] show ?thesis
    by (fastforce simp: wired_all_def wired_sensor_def demo_limit_sensor_def default_SensorConfig_def
        default_DetectionConfig_def)
qed

definition demo_reading :: "double \<Rightarrow> SensorReadingEvent" where
  "demo_reading v = \<lparr>r_sensor_id = ''t'', r_value = v, r_timestamp = 0\<rparr>"

theorem late_reading_not_logged_witness:
  "\<exists>p es s w. startup jv_lib demo_host demo_config = Some (Inr p) \<and>
    sys_run jv_lib old_cpu es (sys_start 1 (shutdown_actions 0 Some []) p) = Some (Inr s) \<and> sys_main s = [] \<and>
    store_latest ''t'' (pg_store (sys_prog s)) = Some (Some \<lparr>smp_timestamp = 0, smp_value = 0\<rparr>) \<and>
    wal (pg_store (sys_prog s)) = Some w \<and> contents_of (wal_files w) ''t.wal'' = []"
proof -
  obtain p rule where p: "startup jv_lib demo_host demo_config = Some (Inr p)" "pg_engine p ''t'' = Some rule"
    "strategies rule = []" "rule_limits rule = \<lparr>low = None, high = Some d_one\<rparr>" "limit_state rule = LS_inside"
    using demo_started by blast
  have "\<not> d_lt d_one 0" by code_simp
  with p(2-5) have quiet: "snd (observe (r_sensor_id (demo_reading 0)) (r_value (demo_reading 0))
      (r_timestamp (demo_reading 0)) (pg_engine p)) = []"
    by (simp add: demo_reading_def observe_def check_limits_def run_detectors_def Let_def)
  from late_reading_not_logged [OF p(1) demo_parts(3,4,5,2) quiet, of old_cpu 0 "[]"] p(1)
  show ?thesis unfolding demo_parts(6) by (auto simp: demo_reading_def file_for_def)
qed


end
