(* ===== verification/ToChars.thy ===== *)
theory ToChars
  imports Decimal
begin

text \<open>
  \<open>std::to_chars\<close> of a \<open>double\<close> without a format: the fewest significant digits that read back as the same
  value, the nearest to it among those, in fixed or scientific notation, whichever is shorter (fixed
  on a tie). The text reads back as the same bits, for every finite value.
\<close>

section \<open>Digits\<close>

text \<open>The best \<open>p\<close>-digit decimal for a value, when one reads back: the scaled value rounded to nearest, or
  its other neighbour. The pair is the decimal's integer and its power of ten.\<close>

definition reads_back :: "double \<Rightarrow> int \<Rightarrow> int \<Rightarrow> bool" where
  "reads_back v n x \<longleftrightarrow> 0 < n \<and> d_round_bits (of_int n * pow10 x) = d_mag_bits v"

definition digits_at :: "double \<Rightarrow> nat \<Rightarrow> (int \<times> int) option" where
  "digits_at v p =
     (let x = exp10 (d_mag v) + 1 - int p; t = d_mag v * pow10 (- x); near = round_half_even t;
          far = (if near = \<lfloor>t\<rfloor> then near + 1 else \<lfloor>t\<rfloor>)
      in if reads_back v near x then Some (near, x) else if reads_back v far x then Some (far, x) else None)"

function drop_tens :: "int \<Rightarrow> int \<Rightarrow> int \<times> int" where
  "drop_tens n x = (if 0 < n \<and> n mod 10 = 0 then drop_tens (n div 10) (x + 1) else (n, x))"
  by auto
termination drop_tens
  by (relation "measure (\<lambda>(n, x). nat n)") auto

declare drop_tens.simps [simp del]

definition shortest_digits :: "double \<Rightarrow> int \<times> int" where
  "shortest_digits v = (case hd (List.map_filter (digits_at v) [1..<18]) of (n, x) \<Rightarrow> drop_tens n x)"

section \<open>Text\<close>

definition fixed_text :: "rat \<Rightarrow> string \<Rightarrow> int \<Rightarrow> string" where
  "fixed_text r ds x =
     (if 0 \<le> x then dec_nat (nat \<lfloor>r\<rfloor>)
      else if nat (- x) < length ds then take (length ds - nat (- x)) ds @ ''.'' @ drop (length ds - nat (- x)) ds
      else ''0.'' @ replicate (nat (- x) - length ds) CHR ''0'' @ ds)"

definition scientific_text :: "string \<Rightarrow> int \<Rightarrow> string" where
  "scientific_text ds x =
     take 1 ds @ (if length ds = 1 then [] else ''.'' @ drop 1 ds) @ exp_text (x + int (length ds) - 1)"

definition shortest_text :: "double \<Rightarrow> string" where
  "shortest_text v =
     (if d_zero v then ''0''
      else let (n, x) = shortest_digits v; ds = dec_nat (nat n); one = (if length ds = 1 then 1 else 0)
        in if one - int (length ds + 3) \<le> x \<and> x \<le> 5 - one then fixed_text (d_mag v) ds x
           else scientific_text ds x)"

definition to_chars :: "double \<Rightarrow> string" where
  "to_chars v = (if d_sign v then ''-'' else []) @
     (if d_nan v then ''nan'' else if d_inf v then ''inf'' else shortest_text v)"

section \<open>The digits read back\<close>

lemma drop_tens_value:
  "drop_tens n x = (m, y) \<Longrightarrow> 0 < n \<Longrightarrow> 0 < m \<and> of_int m * pow10 y = of_int n * pow10 x"
proof (induction n x arbitrary: m y rule: drop_tens.induct)
  case (1 n x)
  show ?case
  proof (cases "n mod 10 = 0")
    case True
    then have n: "n = 10 * (n div 10)" by presburger
    with 1(3) have pos: "0 < n div 10" by linarith
    have eq: "drop_tens (n div 10) (x + 1) = (m, y)" using 1(2,3) True by (simp add: drop_tens.simps [of n x])
    from 1(1) [OF conjI [OF 1(3) True] eq pos] have "0 < m" "of_int m * pow10 y = (of_int (n div 10) :: rat) * pow10 (x + 1)" by auto
    moreover have "(of_int n :: rat) = of_int (10 * (n div 10))" using n by simp
    ultimately show ?thesis by (simp add: pow10_add pow10_nat [of 1, simplified])
  next
    case False
    with 1(2,3) show ?thesis by (simp add: drop_tens.simps [of n x])
  qed
qed

lemma digits_17:
  assumes "d_finite v" and "0 < d_mag v"
  shows "\<exists>q. digits_at v 17 = Some q"
proof -
  define x where "x = exp10 (d_mag v) + 1 - int 17"
  define t where "t = d_mag v * pow10 (- x)"
  define n where "n = round_half_even t"
  have e: "pow10 (exp10 (d_mag v)) \<le> d_mag v" using exp10_bounds [OF assms(2)] by simp
  have "pow10 16 * pow10 x = pow10 (exp10 (d_mag v))" by (simp add: x_def flip: pow10_add)
  then have "pow10 16 * pow10 x \<le> t * pow10 x"
    using e by (simp add: t_def mult.assoc flip: pow10_add) (simp add: pow10_def)
  then have t: "pow10 16 \<le> t" by (simp add: mult_le_cancel_right)
  have t16: "(10 :: rat) ^ 16 \<le> t" using t pow10_nat [of 16] by simp
  then have "(1 :: rat) \<le> t" by simp
  then have "1 \<le> n" unfolding n_def by (intro round_half_even_ge) simp
  have scaled: "t * pow10 x = d_mag v" by (simp add: t_def mult.assoc flip: pow10_add) (simp add: pow10_def)
  have "\<bar>of_int n * pow10 x - d_mag v\<bar> = \<bar>of_int n - t\<bar> * pow10 x"
    by (simp add: abs_mult abs_of_pos flip: scaled left_diff_distrib)
  also have "\<dots> \<le> 1 / 2 * pow10 x"
    using round_half_even_error [of t] unfolding n_def by (intro mult_right_mono) (simp_all add: less_imp_le)
  also have "\<dots> \<le> d_mag v / (2 * 10 ^ 16)"
    using mult_right_mono [OF t16, of "pow10 x"] by (simp add: scaled less_imp_le)
  finally have "d_round_bits (of_int n * pow10 x) = d_mag_bits v" by (rule d_round_near [OF assms])
  with \<open>1 \<le> n\<close> have "reads_back v n x" by (simp add: reads_back_def)
  then show ?thesis by (simp add: digits_at_def Let_def n_def t_def x_def)
qed

lemma digits_at_reads_back: "digits_at v p = Some (n, x) \<Longrightarrow> reads_back v n x"
  by (auto simp: digits_at_def Let_def split: if_splits)

lemma shortest_digits_back:
  assumes "d_finite v" and "0 < d_mag v" and "shortest_digits v = (n, x)"
  shows "reads_back v n x"
proof -
  let ?qs = "List.map_filter (digits_at v) [1..<18]"
  from digits_17 [OF assms(1,2)] obtain q where "digits_at v 17 = Some q" by blast
  then have "q \<in> (\<lambda>p. the (digits_at v p)) ` {p \<in> set [1..<18]. digits_at v p \<noteq> None}"
    by (intro image_eqI [of _ _ 17]) simp_all
  then have "q \<in> set ?qs" unfolding List.map_filter_def by (simp add: comp_def del: set_upt)
  then have "hd ?qs \<in> set ?qs" by (intro hd_in_set) auto
  then obtain p where "digits_at v p = Some (hd ?qs)" by (auto simp: List.map_filter_def)
  moreover obtain m y where h: "hd ?qs = (m, y)" by fastforce
  ultimately have rb: "reads_back v m y" by (simp add: digits_at_reads_back)
  have "drop_tens m y = (n, x)" using assms(3) unfolding shortest_digits_def h by simp
  from drop_tens_value [OF this] rb show ?thesis by (simp add: reads_back_def)
qed

section \<open>The text reads back\<close>

lemma d_mag_le_bits: "d_finite v \<Longrightarrow> d_finite w \<Longrightarrow> d_mag_bits w \<le> d_mag_bits v \<Longrightarrow> d_mag w \<le> d_mag v"
  by (rule d_mag_mono)

lemma integral_reads_back:
  assumes "d_finite v" and "reads_back v n x" and "0 \<le> x"
  shows "\<exists>k \<ge> 0. d_mag v = of_int k"
proof -
  define q where "q = n * 10 ^ nat x"
  have q: "of_int n * pow10 x = (of_int q :: rat)" using assms(3) by (simp add: q_def pow10_def power_int_def)
  have bits: "d_round_bits (of_int q) = d_mag_bits v" and q0: "0 < q"
    using assms(2) unfolding reads_back_def q by (simp_all add: q_def)
  show ?thesis
  proof (cases "q < 2 ^ 53")
    case True
    let ?w = "d_of_int q"
    have w: "d_val ?w = of_int q" "d_finite ?w" using d_of_int_exact [of q] True q0 by simp_all
    have "\<not> d_sign ?w" using w(1) q0 d_val_pos_sign [of ?w] by simp
    then have "d_mag ?w = of_int q" using w(1) by (simp add: d_val_def)
    with d_round_bits_exact [OF w(2)] bits have "d_mag_bits ?w = d_mag_bits v" by simp
    then have "d_mag v = d_mag ?w" by (simp add: d_mag_eq d_mant_def d_place_def d_exp_def d_frac_def)
    with \<open>d_mag ?w = of_int q\<close> q0 show ?thesis by (intro exI [of _ q]) simp
  next
    case False
    let ?u = "d_pack False (2 ^ 52 + 1075 * 2 ^ 52) :: double"
    have u: "d_mag_bits ?u = 1076 * 2 ^ 52" by code_simp
    then have fu: "d_finite ?u" by (simp add: d_finite_def)
    have "d_mag ?u = 2 ^ 53" by code_simp
    then have "d_round_bits (2 ^ 53) = 1076 * 2 ^ 52" using d_round_bits_exact [OF fu] u by simp
    moreover have "d_round_bits (2 ^ 53) \<le> d_round_bits (of_int q)"
      using False by (intro d_round_bits_mono) (simp_all add: not_less flip: of_int_le_iff)
    ultimately have "1076 * 2 ^ 52 \<le> d_mag_bits v" using bits by simp
    moreover have "(2 :: int) ^ 53 = 2 * 2 ^ 52" by simp
    ultimately have "1074 * 2 ^ 52 < (d_place v - 1) * 2 ^ 52" using d_mant_place(1,3) [of v] by linarith
    then have "1074 < d_place v - 1" by (rule mult_right_less_imp_less) simp
    then have "1076 \<le> d_place v" by simp
    then have "d_mag v = of_int (d_mant v * 2 ^ nat (d_place v - 1075))"
      by (simp add: d_mag_eq power_int_def)
    moreover have "0 \<le> d_mant v * 2 ^ nat (d_place v - 1075)" using d_mant_place(2) [of v] by simp
    ultimately show ?thesis by blast
  qed
qed

lemma point_value_join: "CHR ''.'' \<notin> set ip \<Longrightarrow>
    point_value (ip @ ''.'' @ fp) = of_nat (dec_val (ip @ fp)) / 10 ^ length fp"
  by (simp add: point_value_def)

lemma point_value_plain: "CHR ''.'' \<notin> set s \<Longrightarrow> point_value s = of_nat (dec_val s)"
  by (simp add: point_value_def find_sub_single del: find_char_None)

lemma mag_value_plain: "CHR ''e'' \<notin> set s \<Longrightarrow> mag_value s = point_value s"
  by (simp add: mag_value_def find_sub_single del: find_char_None)

lemma mag_value_exp: "CHR ''e'' \<notin> set s \<Longrightarrow> mag_value (s @ exp_text x) = point_value s * pow10 x"
proof -
  assume "CHR ''e'' \<notin> set s"
  then have "find_sub ''e'' (s @ exp_text x) = Some (length s)" by (simp add: exp_text_def)
  moreover have "drop (Suc (length s)) (s @ exp_text x) = tl (exp_text x)" by (simp add: drop_Suc)
  ultimately show ?thesis by (simp add: mag_value_def exp_value_text)
qed

lemma fixed_text_value:
  assumes "0 < n" and "0 \<le> x \<Longrightarrow> \<exists>k \<ge> 0. r = of_int k"
  shows "mag_value (fixed_text r (dec_nat (nat n)) x) = (if 0 \<le> x then r else of_int n * pow10 x)"
proof (cases "0 \<le> x")
  case True
  with assms(2) obtain k where "0 \<le> k" "r = of_int k" by blast
  with True show ?thesis by (simp add: fixed_text_def mag_value_plain point_value_plain)
next
  case False
  let ?ds = "dec_nat (nat n)" and ?k = "nat (- x)"
  have n: "of_nat (nat n) = (of_int n :: rat)" using assms(1) by simp
  have "pow10 x = pow10 (- int ?k)" using False by simp
  then have px: "pow10 x = 1 / 10 ^ ?k" by (simp only: pow10_minus pow10_nat)
  show ?thesis
  proof (cases "?k < length ?ds")
    case True
    have "mag_value (take (length ?ds - ?k) ?ds @ ''.'' @ drop (length ?ds - ?k) ?ds) = of_int n / 10 ^ ?k"
      using True in_taken [of _ ?ds] by (subst mag_value_plain) (simp_all add: point_value_join n del: append_Cons)
    with True False show ?thesis by (simp add: fixed_text_def px)
  next
    case long: False
    let ?z = "replicate (?k - length ?ds) CHR ''0''"
    have "dec_val (''0'' @ ?z @ ?ds) = nat n"
      using dec_val_append [of "''0''" "?z @ ?ds"] dec_val_append [of ?z ?ds] by (simp add: dec_val_def [of "''0''"])
    then have "point_value (''0'' @ ''.'' @ ?z @ ?ds) = of_int n / 10 ^ ?k"
      using long by (subst point_value_join) (simp_all add: n)
    moreover have "CHR ''e'' \<notin> set (''0.'' @ ?z @ ?ds)" by simp
    ultimately show ?thesis using long False by (simp add: fixed_text_def px mag_value_plain)
  qed
qed

lemma scientific_text_value:
  assumes "0 < n"
  shows "mag_value (scientific_text (dec_nat (nat n)) x) = of_int n * pow10 x"
proof -
  let ?ds = "dec_nat (nat n)"
  have n: "of_nat (nat n) = (of_int n :: rat)" using assms by simp
  have len: "0 < length ?ds" using hd_dec_nat(1) [of "nat n"] by simp
  have "x + int (length ?ds) - 1 = x + int (length ?ds - 1)" using len by linarith
  then have "pow10 (x + int (length ?ds) - 1) = pow10 x * pow10 (int (length ?ds - 1))" by (simp only: pow10_add)
  then have px: "pow10 (x + int (length ?ds) - 1) = pow10 x * 10 ^ (length ?ds - 1)" by (simp add: pow10_nat)
  show ?thesis
  proof (cases "length ?ds = 1")
    case True
    then have "mag_value (scientific_text ?ds x) = point_value ?ds * pow10 x"
      by (simp add: scientific_text_def mag_value_exp)
    then show ?thesis by (simp add: point_value_plain n)
  next
    case False
    have "mag_value (scientific_text ?ds x) =
        point_value (take 1 ?ds @ ''.'' @ drop 1 ?ds) * pow10 (x + int (length ?ds) - 1)"
      using False in_taken [of "CHR ''e''" ?ds] mag_value_exp [of "take 1 ?ds @ ''.'' @ drop 1 ?ds"]
      by (simp add: scientific_text_def)
    also have "point_value (take 1 ?ds @ ''.'' @ drop 1 ?ds) = of_int n / 10 ^ (length ?ds - 1)"
      using in_taken [of "CHR ''.''" ?ds] by (subst point_value_join) (simp_all add: n)
    finally show ?thesis by (simp add: px)
  qed
qed

lemma fixed_text_first:
  assumes "ds \<noteq> []" and "hd ds \<noteq> CHR ''-''"
  shows "fixed_text r ds x \<noteq> [] \<and> hd (fixed_text r ds x) \<noteq> CHR ''-''"
  using assms hd_dec_nat [of "nat \<lfloor>r\<rfloor>"] by (auto simp: fixed_text_def hd_append)

lemma shortest_text_first: "shortest_text v \<noteq> [] \<and> hd (shortest_text v) \<noteq> CHR ''-''"
proof -
  have "scientific_text (dec_nat n) x \<noteq> [] \<and> hd (scientific_text (dec_nat n) x) \<noteq> CHR ''-''" for n x
    using hd_dec_nat [of n] by (simp add: scientific_text_def)
  then show ?thesis
    using fixed_text_first [OF hd_dec_nat] by (auto simp: shortest_text_def Let_def split: prod.split)
qed

lemma shortest_text_value:
  assumes "d_finite v"
  shows "d_round_bits (mag_value (shortest_text v)) = d_mag_bits v"
proof (cases "d_zero v")
  case True
  then have "mag_value (shortest_text v) = 0"
    by (simp add: shortest_text_def mag_value_plain point_value_plain dec_val_def)
  with True show ?thesis by (simp add: d_round_bits_def d_zero_def)
next
  case False
  then have pos: "0 < d_mag v" using d_zero_mag [of v] d_mag_nonneg(1) [of v] by linarith
  obtain n x where nx: "shortest_digits v = (n, x)" by fastforce
  note rb = shortest_digits_back [OF assms pos nx]
  then have n: "0 < n" and bits: "d_round_bits (of_int n * pow10 x) = d_mag_bits v" by (simp_all add: reads_back_def)
  have "mag_value (fixed_text (d_mag v) (dec_nat (nat n)) x) = (if 0 \<le> x then d_mag v else of_int n * pow10 x)"
    using n integral_reads_back [OF assms rb] by (rule fixed_text_value)
  with False nx bits scientific_text_value [OF n, of x] d_round_bits_exact [OF assms] show ?thesis
    by (simp add: shortest_text_def Let_def)
qed

lemma to_chars_reads_back:
  assumes "d_finite v"
  shows "read_double (to_chars v) = v"
proof -
  have "d_round (d_sign v) (mag_value (shortest_text v)) = v"
    using shortest_text_value [OF assms] by (simp add: d_round_def d_pack_self)
  moreover have "\<not> d_nan v" "\<not> d_inf v" using assms by (auto simp: d_finite_def d_nan_def d_inf_def)
  ultimately show ?thesis
    using shortest_text_first [of v] by (cases "d_sign v") (simp_all add: read_double_def to_chars_def)
qed

text \<open>The characters it uses.\<close>

definition number_char :: "char \<Rightarrow> bool" where
  "number_char c \<longleftrightarrow> of_char c \<in> {48..57::nat} \<or> c \<in> {CHR ''-'', CHR ''+'', CHR ''.'', CHR ''e'', CHR ''i'', CHR ''n'', CHR ''f'', CHR ''a''}"

lemma number_chars:
  "list_all number_char (dec_nat n)" "list_all number_char ''0.''" "number_char CHR ''0''" "number_char CHR ''-''"
  "number_char CHR ''.''" "list_all number_char (exp_text x)" "list_all number_char ''nan''" "list_all number_char ''inf''"
  using dec_nat_digits [of _ n] dec_nat_digits [of _ "nat \<bar>x\<bar>"]
  by (auto simp: number_char_def list_all_iff exp_text_def pad0_def)

lemma list_all_taken: "list_all P s \<Longrightarrow> list_all P (take k s)" "list_all P s \<Longrightarrow> list_all P (drop k s)"
  by (auto simp: list_all_iff dest: in_set_takeD in_set_dropD)

lemma to_chars_chars: "list_all number_char (to_chars v)"
proof -
  have "list_all number_char (fixed_text r (dec_nat n) x)" for r n x
    using number_chars by (auto simp: fixed_text_def list_all_taken list_all_iff dest: in_set_takeD in_set_dropD)
  moreover have "list_all number_char (scientific_text (dec_nat n) x)" for n x
    using number_chars by (auto simp: scientific_text_def list_all_taken)
  ultimately have "list_all number_char (shortest_text v)"
    using number_chars by (auto simp: shortest_text_def Let_def split: prod.split)
  then show ?thesis using number_chars by (auto simp: to_chars_def)
qed

end
