(* ===== verification/ExportTool.thy ===== *)
theory ExportTool
  imports Segment Calendar ToChars "HOL-Library.Multiset"
begin

text \<open>
  \<open>src/ingest/export_tool.cpp\<close>: the command line tool that verifies export segments and turns them into
  CSV. The file system is a record of what its queries return; standard output and standard error are
  the text written. A thrown exception is its message; \<open>main\<close> catches it.
\<close>

section \<open>Files\<close>

record FileSystem =
  fs_is_directory :: "string \<Rightarrow> string + bool"
  fs_entries :: "string \<Rightarrow> string + (string \<times> bool) list" \<comment> \<open>names; whether each is a regular file\<close>
  fs_read :: "string \<Rightarrow> u8 list option"

text \<open>\<open>path::extension()\<close> is from the last dot, unless the name has only a leading one.\<close>

definition is_segment_name :: "string \<Rightarrow> bool" where
  "is_segment_name name \<longleftrightarrow> ends_with name kSegmentExtension \<and> name \<noteq> kSegmentExtension"

definition path_join :: "string \<Rightarrow> string \<Rightarrow> string" where
  "path_join d name = (if d \<noteq> [] \<and> last d = CHR ''/'' then d @ name else d @ ''/'' @ name)"

text \<open>Paths of one directory are ordered by their names.\<close>

definition found_in :: "string \<Rightarrow> (string \<times> bool) list \<Rightarrow> string list" where
  "found_in d entries = map (path_join d) (sort (map fst (filter (\<lambda>(name, regular). regular \<and> is_segment_name name) entries)))"

fun expand :: "FileSystem \<Rightarrow> string list \<Rightarrow> string + string list" where
  "expand fs [] = Inr []"
| "expand fs (arg # args) =
     (case fs_is_directory fs arg of Inl e \<Rightarrow> Inl e
      | Inr dir \<Rightarrow>
        (case (if dir then map_sum id (found_in arg) (fs_entries fs arg) else Inr [arg]) of Inl e \<Rightarrow> Inl e
         | Inr fls \<Rightarrow> map_sum id (append fls) (expand fs args)))"

section \<open>Text\<close>

text \<open>The buffers (32 and 48 characters) hold every time a \<open>uint64_t\<close> can say.\<close>

definition tool_iso8601 :: "u64 \<Rightarrow> string" where
  "tool_iso8601 epoch_ms =
     (let t = int (unat epoch_ms div 1000) * 1000000000
      in snprintf 48 (date_text t @ ''T'' @ clock_text t @ ''.'' @ pad0 3 (dec_nat (unat epoch_ms mod 1000)) @ ''Z''))"

definition newline :: char where "newline = CHR 0x0A"
definition quote :: char where "quote = CHR 0x22"

definition needs_quotes :: "string \<Rightarrow> bool" where
  "needs_quotes field \<longleftrightarrow> list_ex (\<lambda>c. c \<in> {CHR '','', quote, newline}) field"

definition csv :: "string \<Rightarrow> string" where
  "csv field = (if \<not> needs_quotes field then field
     else [quote] @ concat (map (\<lambda>c. if c = quote then [c, c] else [c]) field) @ [quote])"

fun joined :: "string list \<Rightarrow> string" where
  "joined [] = []"
| "joined [f] = f"
| "joined (f # fs) = f @ '','' @ joined fs"

definition line :: "string list \<Rightarrow> string" where
  "line cells = joined cells @ [newline]"

section \<open>Commands\<close>

type_synonym Streams = "string \<times> string" \<comment> \<open>standard output and standard error\<close>

definition out :: "string \<Rightarrow> Streams \<Rightarrow> Streams" where "out s = (\<lambda>(o1, e). (o1 @ s, e))"
definition err :: "string \<Rightarrow> Streams \<Rightarrow> Streams" where "err s = (\<lambda>(o1, e). (o1, e @ s))"

definition dash :: string where "dash = [CHR '' '', CHR 0xE2, CHR 0x80, CHR 0x94, CHR '' '']"

definition usage_text :: "string \<Rightarrow> string" where
  "usage_text ver = ''ironpulse-export '' @ ver @ [newline, newline] @
     concat (map (\<lambda>l. l @ [newline]) [''Usage:'', ''  ironpulse-export verify <segment|directory>...'',
       ''      Check every batch's CRC; exit status 1 if anything is damaged.'',
       ''  ironpulse-export tags <segment>'',
       ''      Print the segment's tag table (tag id -> sensor).'',
       ''  ironpulse-export dump [--sensor ID] <segment|directory>...'',
       ''      Write readings as CSV to stdout:'',
       ''      timestamp,sensor_id,device_id,value,unit,quality'', [],
       ''A directory stands for all finished *.ipseg files in it, oldest first.''])"

definition num :: "u64 \<Rightarrow> string" where "num n = dec_nat (unat n)"

definition verify_line :: "string \<Rightarrow> SegmentReadResult \<Rightarrow> string" where
  "verify_line fl result =
     fl @ '': '' @ (if corrupt_batches result = 0 \<and> \<not> truncated_tail result then ''OK'' else ''DAMAGED'') @ dash @
     num (batches result) @ '' batch(es), '' @ num (samples result) @ '' reading(s), '' @
     dec_nat (length (tags result)) @ '' tag(s)'' @
     (if 0 < corrupt_batches result then '', '' @ num (corrupt_batches result) @ '' damaged batch(es) skipped'' else []) @
     (if truncated_tail result then '', last batch cut off'' else []) @ [newline]"

fun verify_files :: "(string \<Rightarrow> SegmentReadResult) \<Rightarrow> string list \<Rightarrow> bool \<Rightarrow> Streams \<Rightarrow> bool \<times> Streams" where
  "verify_files read [] all_ok s = (all_ok, s)"
| "verify_files read (fl # fls) all_ok s =
     (let result = read fl in
      if error result \<noteq> [] then verify_files read fls False (out (fl @ '': ERROR '' @ error result @ [newline]) s)
      else verify_files read fls
             (all_ok \<and> (corrupt_batches result = 0 \<and> \<not> truncated_tail result)) (out (verify_line fl result) s))"

definition verify :: "(string \<Rightarrow> SegmentReadResult) \<Rightarrow> string list \<Rightarrow> Streams \<Rightarrow> int \<times> Streams" where
  "verify read fls s = (let (all_ok, s) = verify_files read fls True s in (if all_ok then 0 else 1, s))"

definition tag_fields :: "TagInfo \<Rightarrow> string list" where
  "tag_fields tag = [dec_nat (unat (tag_info_id tag)), csv (tag_sensor_id tag), csv (tag_device_id tag),
     csv (tag_name tag), csv (tag_unit tag)]"

definition print_tags :: "(string \<Rightarrow> SegmentReadResult) \<Rightarrow> string \<Rightarrow> Streams \<Rightarrow> int \<times> Streams" where
  "print_tags read fl s =
     (let result = read fl in
      if error result \<noteq> [] then (1, err (fl @ '': '' @ error result @ [newline]) s)
      else (0, foldl (\<lambda>s tag. out (line (tag_fields tag)) s)
                 (out (line [''tag_id'', ''sensor_id'', ''device_id'', ''name'', ''unit'']) s) (tags result)))"

text \<open>\<open>by_id[tag.id] = &tag\<close> for the tags in turn: the last one with an id stays. The map is filled in the
  first call of the visitor, from the table that is the same for all batches of the file.\<close>

definition tag_by_id :: "TagInfo list \<Rightarrow> u32 \<Rightarrow> TagInfo option" where
  "tag_by_id ts i = foldl (\<lambda>m tag. m(tag_info_id tag \<mapsto> tag)) Map.empty ts i"

definition sensor_name_of :: "TagInfo list \<Rightarrow> TelemetrySample \<Rightarrow> string" where
  "sensor_name_of ts x = (case tag_by_id ts (tag_id x) of Some tag \<Rightarrow> tag_sensor_id tag
     | None \<Rightarrow> ''tag_'' @ dec_nat (unat (tag_id x)))"

definition tag_text :: "(TagInfo \<Rightarrow> string) \<Rightarrow> TagInfo list \<Rightarrow> TelemetrySample \<Rightarrow> string" where
  "tag_text f ts x = (case tag_by_id ts (tag_id x) of Some tag \<Rightarrow> f tag | None \<Rightarrow> [])"

definition sample_fields :: "TagInfo list \<Rightarrow> TelemetrySample \<Rightarrow> string list" where
  "sample_fields ts x = [tool_iso8601 (timestamp_ms x), csv (sensor_name_of ts x), csv (tag_text tag_device_id ts x),
     to_chars (t_value x), csv (tag_text tag_unit ts x), dec_nat (unat (quality x))]"

definition visit_batch :: "string \<Rightarrow> TagInfo list \<Rightarrow> TelemetrySample list \<Rightarrow> Streams \<Rightarrow> Streams" where
  "visit_batch sensor_filter ts batch s =
     foldl (\<lambda>s x. if sensor_filter \<noteq> [] \<and> sensor_name_of ts x \<noteq> sensor_filter then s
       else out (line (sample_fields ts x)) s) s batch"

definition dump_header :: "string list" where
  "dump_header = [''timestamp'', ''sensor_id'', ''device_id'', ''value'', ''unit'', ''quality'']"

fun dump_files :: "(string \<Rightarrow> SegmentReadResult) \<Rightarrow> string \<Rightarrow> string list \<Rightarrow> int \<Rightarrow> Streams \<Rightarrow> int \<times> Streams" where
  "dump_files read sensor_filter [] status s = (status, s)"
| "dump_files read sensor_filter (fl # fls) status s =
     (let result = read fl;
          s = foldl (\<lambda>s batch. visit_batch sensor_filter (tags result) batch s) s (delivered_batches result)
      in if error result \<noteq> []
         then dump_files read sensor_filter fls 1 (err (fl @ '': '' @ error result @ [newline]) s)
         else if 0 < corrupt_batches result \<or> truncated_tail result
         then dump_files read sensor_filter fls status
                (err (fl @ '': '' @ num (corrupt_batches result) @ '' damaged batch(es) skipped'' @
                   (if truncated_tail result then '', last batch cut off'' else []) @ [newline]) s)
         else dump_files read sensor_filter fls status s)"

definition dump :: "(string \<Rightarrow> SegmentReadResult) \<Rightarrow> string list \<Rightarrow> string \<Rightarrow> Streams \<Rightarrow> int \<times> Streams" where
  "dump read fls sensor_filter s = dump_files read sensor_filter fls 0 (out (line dump_header) s)"

section \<open>The command line\<close>

fun parse_args :: "string list \<Rightarrow> string \<Rightarrow> string list \<Rightarrow> string \<times> string list" where
  "parse_args [] sensor_filter args = (sensor_filter, args)"
| "parse_args [arg] sensor_filter args = (sensor_filter, args @ [arg])"
| "parse_args (arg # v # rest) sensor_filter args =
     (if arg = ''--sensor'' then parse_args rest v args else parse_args (v # rest) sensor_filter (args @ [arg]))"

definition usage :: "string \<Rightarrow> Streams \<Rightarrow> int \<times> Streams" where
  "usage ver s = (2, err (usage_text ver) s)"

definition tool_main :: "'j Json \<Rightarrow> Cpu \<Rightarrow> FileSystem \<Rightarrow> string \<Rightarrow> string list \<Rightarrow> Streams \<Rightarrow> int \<times> Streams" where
  "tool_main J cpu fs ver argv s =
     (let read = (\<lambda>fl. read_segment J cpu fl (fs_read fs fl));
          caught = (\<lambda>e. (1, err (''ironpulse-export: '' @ e @ [newline]) s))
      in case argv of
           command # first # others \<Rightarrow>
             (case parse_args (first # others) [] [] of (sensor_filter, args) \<Rightarrow>
               if args = [] then usage ver s
               else if command = ''verify'' then
                 (case expand fs args of Inl e \<Rightarrow> caught e | Inr fls \<Rightarrow> verify read fls s)
               else if command = ''tags'' then print_tags read (hd args) s
               else if command = ''dump'' then
                 (case expand fs args of Inl e \<Rightarrow> caught e | Inr fls \<Rightarrow> dump read fls sensor_filter s)
               else usage ver s)
         | _ \<Rightarrow> usage ver s)"

section \<open>Specification: reading CSV\<close>

text \<open>A reader of RFC 4180 text with a known number of columns; a line ends with a line feed.\<close>

fun quoted_cell :: "string \<Rightarrow> (string \<times> string) option" where
  "quoted_cell [] = None"
| "quoted_cell (c # s) =
     (if c \<noteq> quote then map_option (\<lambda>(v, r). (c # v, r)) (quoted_cell s)
      else case s of [] \<Rightarrow> Some ([], [])
           | d # s' \<Rightarrow> if d = quote then map_option (\<lambda>(v, r). (quote # v, r)) (quoted_cell s') else Some ([], s))"

definition ends_cell :: "char \<Rightarrow> bool" where "ends_cell c \<longleftrightarrow> c \<in> {CHR '','', newline}"

definition read_cell :: "string \<Rightarrow> (string \<times> string) option" where
  "read_cell s = (if s \<noteq> [] \<and> hd s = quote then quoted_cell (tl s)
     else Some (takeWhile (\<lambda>c. \<not> ends_cell c) s, dropWhile (\<lambda>c. \<not> ends_cell c) s))"

fun read_row :: "nat \<Rightarrow> string \<Rightarrow> (string list \<times> string) option" where
  "read_row 0 s = None"
| "read_row (Suc n) s =
     (case read_cell s of None \<Rightarrow> None | Some (v, []) \<Rightarrow> None
      | Some (v, d # r) \<Rightarrow>
         if n = 0 then (if d = newline then Some ([v], r) else None)
         else if d = CHR '','' then map_option (\<lambda>(vs, q). (v # vs, q)) (read_row n r) else None)"

fun read_rows :: "nat \<Rightarrow> nat \<Rightarrow> string \<Rightarrow> string list list option" where
  "read_rows cols 0 s = (if s = [] then Some [] else None)"
| "read_rows cols (Suc n) s =
     (case read_row cols s of None \<Rightarrow> None | Some (vs, r) \<Rightarrow> map_option ((#) vs) (read_rows cols n r))"

text \<open>A text that stands for a field wherever a cell may stand.\<close>

definition cell_for :: "string \<Rightarrow> string \<Rightarrow> bool" where
  "cell_for c v \<longleftrightarrow> (\<forall>d r. ends_cell d \<longrightarrow> read_cell (c @ d # r) = Some (v, d # r))"

lemma ends_cell_quote: "ends_cell d \<Longrightarrow> d \<noteq> quote"
  by (auto simp: ends_cell_def quote_def newline_def)

lemma quoted_cell_read:
  "d \<noteq> quote \<Longrightarrow> quoted_cell (concat (map (\<lambda>c. if c = quote then [c, c] else [c]) f) @ quote # d # r) = Some (f, d # r)"
  by (induction f) auto

lemma plain_cell: "\<not> needs_quotes f \<Longrightarrow> cell_for f f"
proof -
  assume plain: "\<not> needs_quotes f"
  have f: "c \<noteq> quote" "\<not> ends_cell c" if "c \<in> set f" for c
    using plain that by (auto simp: needs_quotes_def list_ex_iff ends_cell_def)
  have "takeWhile (\<lambda>c. \<not> ends_cell c) (f @ d # r) = f \<and> dropWhile (\<lambda>c. \<not> ends_cell c) (f @ d # r) = d # r"
    if "ends_cell d" for d r
    using f(2) that by (induction f) auto
  moreover have "hd (f @ d # r) \<noteq> quote" if "ends_cell d" for d r
    using f(1) ends_cell_quote [OF that] by (cases f) auto
  ultimately show ?thesis by (simp add: cell_for_def read_cell_def)
qed

lemma csv_cell: "cell_for (csv f) f"
proof (cases "needs_quotes f")
  case True
  then show ?thesis
    using quoted_cell_read [OF ends_cell_quote] by (simp add: csv_def cell_for_def read_cell_def)
next
  case False
  then show ?thesis using plain_cell [of f] by (simp add: csv_def)
qed

lemma read_row_line:
  assumes "list_all2 cell_for cs vs" and "cs \<noteq> []"
  shows "read_row (length cs) (line cs @ r) = Some (vs, r)"
  using assms
proof (induction cs vs rule: list_all2_induct)
  case (Cons c cs v vs)
  have nl: "ends_cell newline" "ends_cell (CHR '','')" by (simp_all add: ends_cell_def)
  show ?case
  proof (cases cs)
    case Nil
    with Cons nl show ?thesis by (simp add: line_def cell_for_def)
  next
    case (Cons c' cs')
    then have "line (c # cs) @ r = c @ CHR '','' # line cs @ r" by (simp add: line_def)
    moreover have "read_row (length cs) (line cs @ r) = Some (vs, r)" using Cons.IH Cons by simp
    moreover have "length cs \<noteq> 0" using Cons by simp
    ultimately show ?thesis using Cons.hyps(1) nl(2) by (simp add: cell_for_def)
  qed
qed simp

lemma read_rows_lines:
  assumes "list_all2 (list_all2 cell_for) rows vals" and "list_all (\<lambda>row. length row = k) rows" and "0 < k"
  shows "read_rows k (length rows) (concat (map line rows)) = Some vals"
  using assms(1,2)
proof (induction rows vals rule: list_all2_induct)
  case (Cons row rows vs vals)
  then have "row \<noteq> []" "length row = k" using assms(3) by auto
  with read_row_line [of row vs "concat (map line rows)"] Cons show ?case by simp
qed simp

section \<open>What a dump says\<close>

text \<open>The values of a row: a sample's fields before they are quoted.\<close>

definition sample_values :: "TagInfo list \<Rightarrow> TelemetrySample \<Rightarrow> string list" where
  "sample_values ts x = [tool_iso8601 (timestamp_ms x), sensor_name_of ts x, tag_text tag_device_id ts x,
     to_chars (t_value x), tag_text tag_unit ts x, dec_nat (unat (quality x))]"

definition selected :: "string \<Rightarrow> SegmentReadResult \<Rightarrow> TelemetrySample list" where
  "selected sensor_filter result =
     filter (\<lambda>x. sensor_filter = [] \<or> sensor_name_of (tags result) x = sensor_filter) (concat (delivered_batches result))"

definition dumped :: "(TagInfo list \<Rightarrow> TelemetrySample \<Rightarrow> string list) \<Rightarrow> (string \<Rightarrow> SegmentReadResult) \<Rightarrow> string \<Rightarrow>
    string list \<Rightarrow> string list list" where
  "dumped f read sensor_filter fls =
     concat (map (\<lambda>fl. map (f (tags (read fl))) (selected sensor_filter (read fl))) fls)"

lemma no_quotes_append [simp]: "needs_quotes (s @ t) \<longleftrightarrow> needs_quotes s \<or> needs_quotes t"
  by (simp add: needs_quotes_def)

lemma no_quotes_Cons [simp]: "needs_quotes (c # s) \<longleftrightarrow> c \<in> {CHR '','', quote, newline} \<or> needs_quotes s"
  by (simp add: needs_quotes_def)

lemma no_quotes_Nil [simp]: "\<not> needs_quotes []"
  by (simp add: needs_quotes_def)

lemma no_quotes_dec [simp]: "\<not> needs_quotes (dec_nat n)"
  using dec_nat_digits [of "CHR '',''" n] dec_nat_digits [of "CHR 0x22" n] dec_nat_digits [of "CHR 0x0A" n]
  by (auto simp: needs_quotes_def list_ex_iff quote_def newline_def)

lemma no_quotes_zeros [simp]: "\<not> needs_quotes (replicate k CHR ''0'')"
  by (induction k) (simp_all add: quote_def newline_def)

lemma no_quotes_pad [simp]: "\<not> needs_quotes (pad0 w (dec_nat n))"
  by (simp add: pad0_def)

lemma no_quotes_take: "\<not> needs_quotes s \<Longrightarrow> \<not> needs_quotes (take k s)"
  by (auto simp: needs_quotes_def list_ex_iff dest: in_set_takeD)

lemma no_quotes_time: "\<not> needs_quotes (tool_iso8601 t)"
  unfolding tool_iso8601_def Let_def snprintf_def
  by (rule no_quotes_take) (auto simp: date_text_def clock_text_def Let_def quote_def newline_def split: prod.split)

lemma no_quotes_number: "\<not> needs_quotes (to_chars v)"
  using to_chars_chars [of v]
  by (auto simp: needs_quotes_def list_ex_iff list_all_iff number_char_def quote_def newline_def)

lemma sample_cells: "list_all2 cell_for (sample_fields ts x) (sample_values ts x)"
  by (simp add: sample_fields_def sample_values_def csv_cell plain_cell no_quotes_time no_quotes_number)

lemma header_cells: "list_all2 cell_for dump_header dump_header"
  by (simp add: dump_header_def plain_cell quote_def newline_def)

lemma foldl_out: "foldl (\<lambda>s x. out (f x) s) s xs = out (concat (map f xs)) s"
  by (induction xs arbitrary: s) (auto simp: out_def split: prod.split)

lemma visit_batch_out:
  "visit_batch sensor_filter ts batch s = out (concat (map (\<lambda>x. line (sample_fields ts x))
     (filter (\<lambda>x. sensor_filter = [] \<or> sensor_name_of ts x = sensor_filter) batch))) s"
  unfolding visit_batch_def by (induction batch arbitrary: s) (auto simp: out_def split: prod.split)

lemma visit_batches_out:
  "foldl (\<lambda>s batch. visit_batch sensor_filter ts batch s) s bs = out (concat (map (\<lambda>x. line (sample_fields ts x))
     (filter (\<lambda>x. sensor_filter = [] \<or> sensor_name_of ts x = sensor_filter) (concat bs)))) s"
  by (induction bs arbitrary: s) (auto simp: visit_batch_out out_def split: prod.split)

lemma out_err: "fst (out t s) = fst s @ t" "fst (err t s) = fst s"
  by (auto simp: out_def err_def split: prod.split)

lemma dump_files_out:
  "fst (snd (dump_files read sensor_filter fls st s)) =
     fst s @ concat (map line (dumped sample_fields read sensor_filter fls))"
proof (induction fls arbitrary: st s)
  case (Cons fl fls)
  then show ?case
    by (simp add: Let_def visit_batches_out out_err dumped_def selected_def comp_def)
qed (simp add: dumped_def)

lemma dump_files_status:
  "fst (dump_files read sensor_filter fls st s) = (if list_ex (\<lambda>fl. error (read fl) \<noteq> []) fls then 1 else st)"
  by (induction fls arbitrary: st s) (auto simp: Let_def)

lemma dump_rows:
  "read_rows 6 (Suc (length (dumped sample_fields read sensor_filter fls))) (fst (snd (dump read fls sensor_filter ([], e)))) =
     Some (dump_header # dumped sample_values read sensor_filter fls)"
proof -
  let ?rows = "dumped sample_fields read sensor_filter fls"
  have "list_all2 (list_all2 cell_for) ?rows (dumped sample_values read sensor_filter fls)"
    unfolding dumped_def by (induction fls) (auto intro!: list_all2_appendI simp: list_all2_map1 list_all2_map2 sample_cells list_all2_same)
  moreover have "list_all (\<lambda>row. length row = 6) ?rows"
    by (auto simp: dumped_def list_all_iff sample_fields_def)
  ultimately have "read_rows 6 (length (dump_header # ?rows)) (concat (map line (dump_header # ?rows))) =
      Some (dump_header # dumped sample_values read sensor_filter fls)"
    by (intro read_rows_lines) (simp_all add: header_cells, simp add: dump_header_def)
  then show ?thesis by (simp add: dump_def dump_files_out out_err)
qed

lemma verify_files_ok:
  "fst (verify_files read fls ok s) \<longleftrightarrow> ok \<and>
     list_all (\<lambda>fl. error (read fl) = [] \<and> corrupt_batches (read fl) = 0 \<and> \<not> truncated_tail (read fl)) fls"
  by (induction fls arbitrary: ok s) (auto simp: Let_def)

text \<open>\<open>verify\<close> exits with 0 exactly when every file was read to its end with no batch damaged.\<close>

theorem verify_status:
  "fst (verify read fls s) = 0 \<longleftrightarrow>
     list_all (\<lambda>fl. error (read fl) = [] \<and> corrupt_batches (read fl) = 0 \<and> \<not> truncated_tail (read fl)) fls"
  using verify_files_ok [of read fls True s] by (simp add: verify_def case_prod_beta)

text \<open>A directory stands for its finished segments, in name order.\<close>

theorem expand_directory:
  assumes "fs_is_directory fs d = Inr True" and "fs_entries fs d = Inr entries"
  shows "\<exists>names. expand fs [d] = Inr (map (path_join d) names) \<and> sorted names \<and>
    mset names = mset (map fst (filter (\<lambda>(name, regular). regular \<and> is_segment_name name) entries))"
  using assms by (auto simp: found_in_def intro!: exI)

section \<open>Properties\<close>



end
