(* ===== verification/ThreadPool.thy ===== *)
theory ThreadPool
  imports Main "HOL-Library.Multiset" "HOL-Library.Sublist"
begin

text \<open>
  \<open>core/thread_pool.hpp\<close>: a FIFO of tasks and a fixed number of workers, as a step relation. A worker
  waits at the condition variable, runs a task outside the lock, or has returned; each critical section
  is one step. \<open>tp_started\<close> and \<open>tp_finished\<close> are history variables.
\<close>

section \<open>The pool\<close>

datatype 'a Worker = At_queue | Running 'a | Returned

record 'a ThreadPool =
  tp_workers :: "'a Worker list"
  tp_tasks :: "'a list"
  tp_stopping :: bool
  tp_submitted :: "'a list"
  tp_started :: "'a list"
  tp_finished :: "'a list"

definition ThreadPool_make :: "nat \<Rightarrow> 'a ThreadPool" where
  "ThreadPool_make thread_count =
     (let thread_count = (if thread_count = 0 then 1 else thread_count)
      in \<lparr>tp_workers = replicate thread_count At_queue, tp_tasks = [], tp_stopping = False,
          tp_submitted = [], tp_started = [], tp_finished = []\<rparr>)"

definition pool_submit :: "'a \<Rightarrow> 'a ThreadPool \<Rightarrow> string + 'a ThreadPool" where
  "pool_submit task p =
     (if tp_stopping p then Inl ''submit() called on a stopped ThreadPool''
      else Inr (p\<lparr>tp_tasks := tp_tasks p @ [task], tp_submitted := tp_submitted p @ [task]\<rparr>))"

definition pool_shutdown :: "'a ThreadPool \<Rightarrow> 'a ThreadPool" where
  "pool_shutdown p = (if tp_stopping p then p else p\<lparr>tp_stopping := True\<rparr>)"

text \<open>The join at the end of \<open>shutdown()\<close> returns when every worker has.\<close>

definition pool_joined :: "'a ThreadPool \<Rightarrow> bool" where
  "pool_joined p \<longleftrightarrow> tp_stopping p \<and> list_all (\<lambda>w. w = Returned) (tp_workers p)"

text \<open>What worker \<open>i\<close> does next; \<open>None\<close> when it is blocked or has returned.\<close>

definition worker_loop :: "nat \<Rightarrow> 'a ThreadPool \<Rightarrow> 'a ThreadPool option" where
  "worker_loop i p =
     (case tp_workers p ! i of
        Returned \<Rightarrow> None
      | Running task \<Rightarrow> Some (p\<lparr>tp_workers := (tp_workers p)[i := At_queue], tp_finished := tp_finished p @ [task]\<rparr>)
      | At_queue \<Rightarrow>
          (case tp_tasks p of
             [] \<Rightarrow> if tp_stopping p then Some (p\<lparr>tp_workers := (tp_workers p)[i := Returned]\<rparr>) else None
           | task # tasks \<Rightarrow> Some (p\<lparr>tp_workers := (tp_workers p)[i := Running task], tp_tasks := tasks,
               tp_started := tp_started p @ [task]\<rparr>)))"

inductive pool_step :: "'a ThreadPool \<Rightarrow> 'a ThreadPool \<Rightarrow> bool" where
  submit: "pool_submit task p = Inr p' \<Longrightarrow> pool_step p p'"
| shutdown: "pool_step p (pool_shutdown p)"
| worker: "i < length (tp_workers p) \<Longrightarrow> worker_loop i p = Some p' \<Longrightarrow> pool_step p p'"

inductive pool_reachable :: "nat \<Rightarrow> 'a ThreadPool \<Rightarrow> bool" for n where
  init: "pool_reachable n (ThreadPool_make n)"
| step: "pool_reachable n p \<Longrightarrow> pool_step p p' \<Longrightarrow> pool_reachable n p'"

section \<open>Every task once, in order\<close>

fun worker_task :: "'a Worker \<Rightarrow> 'a multiset" where
  "worker_task (Running task) = {#task#}"
| "worker_task w = {#}"

definition running :: "'a ThreadPool \<Rightarrow> 'a multiset" where
  "running p = (\<Sum>w\<leftarrow>tp_workers p. worker_task w)"

definition pool_inv :: "'a ThreadPool \<Rightarrow> bool" where
  "pool_inv p \<longleftrightarrow> tp_workers p \<noteq> [] \<and> tp_started p @ tp_tasks p = tp_submitted p \<and>
     mset (tp_started p) = running p + mset (tp_finished p) \<and>
     (Returned \<in> set (tp_workers p) \<longrightarrow> tp_stopping p \<and> tp_tasks p = [])"

lemma sum_list_update_mset:
  "i < length xs \<Longrightarrow> (\<Sum>w\<leftarrow>xs[i := x]. f w) + f (xs ! i) = (\<Sum>w\<leftarrow>xs. f w) + (f x :: 'b multiset)"
proof (induction xs arbitrary: i)
  case (Cons y xs)
  show ?case
  proof (cases i)
    case (Suc j)
    with Cons have "(\<Sum>w\<leftarrow>xs[j := x]. f w) + f (xs ! j) = (\<Sum>w\<leftarrow>xs. f w) + f x" by simp
    with Suc show ?thesis by (simp add: add.assoc)
  qed simp
qed simp

lemma running_update:
  assumes "i < length (tp_workers p)" and "tp_workers p' = (tp_workers p)[i := w]"
  shows "running p' + worker_task (tp_workers p ! i) = running p + worker_task w"
  using sum_list_update_mset [OF assms(1), of worker_task w] assms(2) by (simp add: running_def)

lemma idle_workers: "(\<Sum>w\<leftarrow>replicate n At_queue. worker_task w) = {#}"
  by (induction n) simp_all

lemma pool_inv_make: "pool_inv (ThreadPool_make n)"
  using idle_workers by (auto simp: pool_inv_def ThreadPool_make_def running_def Let_def simp del: map_replicate)

lemma pool_inv_worker:
  assumes inv: "pool_inv p" and i: "i < length (tp_workers p)" and step: "worker_loop i p = Some p'"
  shows "pool_inv p'"
proof (cases "tp_workers p ! i")
  case At_queue
  show ?thesis
  proof (cases "tp_tasks p")
    case Nil
    with step At_queue have p': "p' = p\<lparr>tp_workers := (tp_workers p)[i := Returned]\<rparr>" "tp_stopping p"
      by (auto simp: worker_loop_def split: if_splits)
    from running_update [OF i, of p' Returned] p' At_queue have "running p' = running p" by simp
    with inv p' Nil show ?thesis by (auto simp: pool_inv_def)
  next
    case (Cons task tasks)
    with step At_queue have p': "p' = p\<lparr>tp_workers := (tp_workers p)[i := Running task], tp_tasks := tasks,
        tp_started := tp_started p @ [task]\<rparr>" by (simp add: worker_loop_def)
    from running_update [OF i, of p' "Running task"] p' At_queue have "running p' = running p + {#task#}" by simp
    moreover have "Returned \<notin> set (tp_workers p')"
      using inv Cons p' set_update_subset_insert [of "tp_workers p" i "Running task"] by (auto simp: pool_inv_def)
    ultimately show ?thesis using inv Cons p' by (auto simp: pool_inv_def)
  qed
next
  case (Running task)
  with step have p': "p' = p\<lparr>tp_workers := (tp_workers p)[i := At_queue], tp_finished := tp_finished p @ [task]\<rparr>"
    by (simp add: worker_loop_def)
  from running_update [OF i, of p' At_queue] p' Running have "running p = running p' + {#task#}" by simp
  moreover have "Returned \<in> set (tp_workers p') \<longrightarrow> Returned \<in> set (tp_workers p)"
    using p' set_update_subset_insert [of "tp_workers p" i At_queue] by auto
  ultimately show ?thesis using inv p' by (auto simp: pool_inv_def)
next
  case Returned
  with step show ?thesis by (simp add: worker_loop_def)
qed

lemma pool_reachable_inv: "pool_reachable n p \<Longrightarrow> pool_inv p"
proof (induction rule: pool_reachable.induct)
  case (step p p')
  from step.hyps(2) step.IH show ?case
  proof (cases rule: pool_step.cases)
    case (submit task)
    with step.IH show ?thesis by (auto simp: pool_inv_def pool_submit_def running_def split: if_splits)
  next
    case shutdown
    with step.IH show ?thesis by (auto simp: pool_inv_def pool_shutdown_def running_def)
  next
    case (worker i)
    with pool_inv_worker step.IH show ?thesis by blast
  qed
qed (rule pool_inv_make)

section \<open>Shutdown finishes\<close>

definition worker_work :: "'a Worker \<Rightarrow> nat" where
  "worker_work w = (case w of Returned \<Rightarrow> 0 | At_queue \<Rightarrow> 1 | Running _ \<Rightarrow> 2)"

definition pool_work :: "'a ThreadPool \<Rightarrow> nat" where
  "pool_work p = 2 * length (tp_tasks p) + (\<Sum>w\<leftarrow>tp_workers p. worker_work w)"

lemma sum_list_update_nat:
  "i < length xs \<Longrightarrow> (\<Sum>w\<leftarrow>xs[i := x]. f w) + f (xs ! i) = (\<Sum>w\<leftarrow>xs. f w) + (f x :: nat)"
proof (induction xs arbitrary: i)
  case (Cons y xs)
  then show ?case by (cases i) (auto simp: add.assoc)
qed simp

lemma worker_loop_work:
  assumes "i < length (tp_workers p)" and "worker_loop i p = Some p'"
  shows "pool_work p' < pool_work p"
  using assms sum_list_update_nat [of i "tp_workers p" worker_work At_queue]
    sum_list_update_nat [of i "tp_workers p" worker_work Returned]
    sum_list_update_nat [of i "tp_workers p" worker_work "Running (hd (tp_tasks p))"]
  by (auto simp: worker_loop_def pool_work_def worker_work_def split: Worker.splits list.splits if_splits)

lemma stopping_progress:
  assumes "tp_stopping p" and "\<not> pool_joined p"
  shows "\<exists>i < length (tp_workers p). worker_loop i p \<noteq> None"
proof -
  from assms obtain i where "i < length (tp_workers p)" "tp_workers p ! i \<noteq> Returned"
    by (auto simp: pool_joined_def list_all_iff in_set_conv_nth)
  with assms(1) show ?thesis
    by (intro exI [of _ i]) (auto simp: worker_loop_def split: Worker.splits list.splits)
qed

text \<open>Tasks start in the order they were submitted and none runs twice; after \<open>shutdown\<close> nothing is
  accepted, every step of a worker brings the join closer (at most \<open>pool_work\<close> steps are left) and one
  is always possible; and when the join returns every task ever submitted has been run to its end.\<close>

theorem pool_runs_every_task_once:
  assumes "pool_reachable n p"
  shows "prefix (tp_started p) (tp_submitted p) \<and> mset (tp_finished p) \<subseteq># mset (tp_submitted p) \<and>
    (tp_stopping p \<longrightarrow> pool_submit task p = Inl ''submit() called on a stopped ThreadPool'' \<and>
       (pool_joined p \<or> (\<exists>i < length (tp_workers p). worker_loop i p \<noteq> None)) \<and>
       (\<forall>i p'. i < length (tp_workers p) \<longrightarrow> worker_loop i p = Some p' \<longrightarrow> pool_work p' < pool_work p)) \<and>
    (pool_joined p \<longrightarrow> mset (tp_finished p) = mset (tp_submitted p))"
proof -
  have inv: "pool_inv p" using assms by (rule pool_reachable_inv)
  then have sub: "tp_started p @ tp_tasks p = tp_submitted p" "mset (tp_started p) = running p + mset (tp_finished p)"
    by (simp_all add: pool_inv_def)
  have "mset (tp_finished p) = mset (tp_submitted p)" if "pool_joined p"
  proof -
    from that inv have "tp_tasks p = []" by (cases "tp_workers p") (auto simp: pool_inv_def pool_joined_def)
    moreover have "(\<Sum>w\<leftarrow>ws. worker_task w) = {#}" if "list_all (\<lambda>w. w = Returned) ws" for ws :: "'a Worker list"
      using that by (induction ws) auto
    with that have "running p = {#}" by (simp add: running_def pool_joined_def)
    ultimately show ?thesis using sub by simp
  qed
  moreover have "prefix (tp_started p) (tp_submitted p)" using sub(1) by (metis prefixI)
  moreover have "mset (tp_finished p) \<subseteq># mset (tp_submitted p)"
    by (simp flip: sub(1) add: sub(2) subset_mset.add_increasing2)
  ultimately show ?thesis
    using stopping_progress [of p] worker_loop_work [of _ p] by (auto simp: pool_submit_def)
qed

end
