(* ===== verification/FrameCodec.thy ===== *)
theory FrameCodec
  imports Prelude
begin

text \<open>
  \<open>src/protocol/frame_codec.cpp\<close>: the Modbus TCP wire format. Requests are encoded, responses
  decoded; every byte the decoder reads is a checked read (\<open>vec_at\<close>), so \<open>None\<close> would be an
  out-of-range access. \<open>is_frame\<close> is the independent description of a well-formed response frame
  that the decoder is proved to accept exactly.
\<close>

section \<open>Data\<close>

text \<open>\<open>enum class FunctionCode : std::uint8_t\<close>; a cast from a byte may give any value.\<close>

type_synonym FunctionCode = u8

definition read_holding_registers :: FunctionCode where "read_holding_registers = 0x03"
definition read_input_registers :: FunctionCode where "read_input_registers = 0x04"
definition write_single_register :: FunctionCode where "write_single_register = 0x06"

lemmas function_codes = read_holding_registers_def read_input_registers_def write_single_register_def

record ModbusRequest =
  req_transaction_id :: u16
  req_unit_id :: u8
  req_function :: FunctionCode
  req_start_address :: u16
  req_quantity_or_value :: u16

record ModbusResponse =
  transaction_id :: u16
  unit_id :: u8
  resp_function :: FunctionCode
  is_exception :: bool
  exception_code :: u8
  registers :: "u16 list"

definition kProtocolId :: u16 where "kProtocolId = 0x0000"
definition kMbapHeaderLength :: nat where "kMbapHeaderLength = 7"

section \<open>Operations\<close>

definition push_u16 :: "u8 list \<Rightarrow> u16 \<Rightarrow> u8 list" where
  "push_u16 buf v = buf @ [ucast (drop_bit 8 v)] @ [ucast (v AND 0xFF)]"

definition read_u16 :: "u8 list \<Rightarrow> nat \<Rightarrow> u16 ub" where
  "read_u16 buf off = do { hi \<leftarrow> vec_at buf off; lo \<leftarrow> vec_at buf (off + 1);
     Some (push_bit 8 (ucast hi) OR ucast lo) }"

definition encode_request :: "ModbusRequest \<Rightarrow> u8 list" where
  "encode_request r =
     (let pdu_length = (5 :: u16);
          length_field = pdu_length + 1;
          buf = push_u16 [] (req_transaction_id r);
          buf = push_u16 buf kProtocolId;
          buf = push_u16 buf length_field;
          buf = buf @ [req_unit_id r];
          buf = buf @ [req_function r];
          buf = push_u16 buf (req_start_address r);
          buf = push_u16 buf (req_quantity_or_value r)
      in buf)"

definition expected_frame_length :: "u8 list \<Rightarrow> nat option ub" where
  "expected_frame_length header_bytes =
     (if length header_bytes < kMbapHeaderLength then Some None
      else do { protocol \<leftarrow> read_u16 header_bytes 2;
        if protocol \<noteq> kProtocolId then Some None
        else do { length_field \<leftarrow> read_u16 header_bytes 4;
          if length_field < 2 \<or> 254 < length_field then Some None
          else Some (Some (6 + unat length_field)) } })"

definition read_registers_at :: "u8 list \<Rightarrow> nat \<Rightarrow> u16 list ub" where
  "read_registers_at buf n = those (map (\<lambda>i. read_u16 buf (9 + i * 2)) [0..<n])"

definition decode_response :: "u8 list \<Rightarrow> ModbusResponse option ub" where
  "decode_response buffer = do {
     total \<leftarrow> expected_frame_length buffer;
     case total of None \<Rightarrow> Some None | Some total_length \<Rightarrow>
     if length buffer \<noteq> total_length then Some None
     else do {
       tid \<leftarrow> read_u16 buffer 0;
       uid \<leftarrow> vec_at buffer 6;
       function_byte \<leftarrow> vec_at buffer 7;
       let is_exc = (function_byte AND 0x80 \<noteq> 0);
       let fc = function_byte AND NOT 0x80;
       let response = \<lparr>transaction_id = tid, unit_id = uid, resp_function = fc,
         is_exception = is_exc, exception_code = 0, registers = []\<rparr>;
       if fc \<noteq> read_holding_registers \<and> fc \<noteq> read_input_registers \<and> fc \<noteq> write_single_register
       then Some None
       else if is_exc then
         (if total_length \<noteq> 9 then Some None
          else do { code \<leftarrow> vec_at buffer 8; Some (Some (response\<lparr>exception_code := code\<rparr>)) })
       else if fc = write_single_register then
         (if total_length \<noteq> 12 then Some None
          else do { v \<leftarrow> read_u16 buffer 10; Some (Some (response\<lparr>registers := [v]\<rparr>)) })
       else
         (if total_length < 9 then Some None
          else do { byte_count \<leftarrow> vec_at buffer 8;
            if byte_count = 0 \<or> 250 < byte_count \<or> unat byte_count mod 2 \<noteq> 0 \<or>
               total_length \<noteq> 9 + unat byte_count
            then Some None
            else do { regs \<leftarrow> read_registers_at buffer (unat byte_count div 2);
              Some (Some (response\<lparr>registers := regs\<rparr>)) } }) } }"

section \<open>Big-endian words\<close>

definition be16 :: "u16 \<Rightarrow> u8 list" where
  "be16 v = [ucast (drop_bit 8 v), ucast (v AND 0xFF)]"

definition join16 :: "u8 \<Rightarrow> u8 \<Rightarrow> u16" where
  "join16 hi lo = push_bit 8 (ucast hi) OR ucast lo"

lemma length_be16 [image_simps, simp]: "length (be16 v) = 2"
  by (simp add: be16_def)

lemma push_u16_be16: "push_u16 buf v = buf @ be16 v"
  by (simp add: push_u16_def be16_def)

lemma read_u16_join16: "read_u16 buf off = do { hi \<leftarrow> vec_at buf off; lo \<leftarrow> vec_at buf (off + 1);
     Some (join16 hi lo) }"
  by (simp add: read_u16_def join16_def)

lemma read_u16_in_range [safe_reads]:
  "off + 1 < length buf \<Longrightarrow> read_u16 buf off = Some (join16 (buf ! off) (buf ! (off + 1)))"
  by (simp add: read_u16_join16)

lemma ff_mask: "(0xFF :: u16) = mask 8"
  by (simp add: mask_eq_exp_minus_1)

lemma join16_be16 [image_simps]: "join16 (ucast (drop_bit 8 v)) (ucast (v AND 0xFF)) = v"
  unfolding join16_def ff_mask
  by (rule bit_word_eqI) (auto simp: bit_simps bit_imp_le_length)

lemma be16_join16 [image_simps]: "be16 (join16 hi lo) = [hi, lo]"
proof -
  have "ucast (drop_bit 8 (join16 hi lo)) = hi"
    by (rule bit_word_eqI) (auto simp: join16_def bit_simps dest: bit_imp_le_length)
  moreover have "ucast (join16 hi lo AND 0xFF) = lo"
    unfolding ff_mask
    by (rule bit_word_eqI) (auto simp: join16_def bit_simps dest: bit_imp_le_length)
  ultimately show ?thesis by (simp add: be16_def)
qed

lemma be16_inject [simp]: "be16 v = be16 w \<longleftrightarrow> v = w"
  by (metis be16_def join16_be16 list.inject)

lemma be16_eq_pair: "be16 v = [hi, lo] \<longleftrightarrow> v = join16 hi lo"
  by (metis be16_inject be16_join16)

lemma be16_small: "n < 256 \<Longrightarrow> be16 (of_nat n) = [0, of_nat n]"
proof -
  assume n: "n < 256"
  have "unat (join16 0 (of_nat n)) = n"
    using n by (simp add: join16_def unsigned_ucast_eq take_bit_nat_eq_self_iff unat_of_nat)
  then have "of_nat (unat (join16 0 (of_nat n))) = (of_nat n :: u16)" by simp
  then have "join16 0 (of_nat n) = of_nat n" by simp
  then show ?thesis by (simp flip: be16_join16)
qed

lemma read_u16_image [safe_reads]:
  "length pre = off \<Longrightarrow> read_u16 (pre @ be16 v @ post) off = Some v"
  by (auto simp: read_u16_join16 vec_at_def nth_append be16_def join16_be16)

text \<open>Registers read one after another are the registers whose images lie there.\<close>

lemma read_registers_at_images:
  assumes "buf = pre @ concat (map be16 regs) @ post" and "length pre = 9"
  shows "read_registers_at buf (length regs) = Some regs"
proof -
  have "read_u16 buf (9 + i * 2) = Some (regs ! i)" if "i < length regs" for i
  proof -
    have len: "length (concat (map be16 xs)) = 2 * length xs" for xs
      by (rule length_concat_map_const) simp
    have "regs = take i regs @ regs ! i # drop (Suc i) regs" using that by (rule id_take_nth_drop)
    then have "buf = (pre @ concat (map be16 (take i regs))) @ be16 (regs ! i) @
        concat (map be16 (drop (Suc i) regs)) @ post"
      using assms(1) by (metis append.assoc concat.simps(2) concat_append list.simps(9) map_append)
    moreover have "length (pre @ concat (map be16 (take i regs))) = 9 + i * 2"
      using assms(2) that by (simp add: len)
    ultimately show ?thesis using read_u16_image by metis
  qed
  then have "map (\<lambda>i. read_u16 buf (9 + i * 2)) [0..<length regs] = map Some regs"
    by (intro nth_equalityI) simp_all
  moreover have "those (map Some regs) = Some regs" by (induction regs) simp_all
  ultimately show ?thesis by (simp add: read_registers_at_def)
qed

lemma read_registers_at_Some:
  assumes "length buf = 9 + 2 * n"
  shows "\<exists>regs. read_registers_at buf n = Some regs \<and> length regs = n \<and>
    drop 9 buf = concat (map be16 regs)"
  using assms
proof (induction n arbitrary: buf)
  case 0
  then show ?case by (simp add: read_registers_at_def)
next
  case (Suc n)
  define hi lo where "hi = buf ! (9 + 2 * n)" and "lo = buf ! (10 + 2 * n)"
  have "length (take (9 + 2 * n) buf) = 9 + 2 * n" using Suc.prems by simp
  from Suc.IH [OF this] obtain regs where regs: "length regs = n"
    "drop 9 (take (9 + 2 * n) buf) = concat (map be16 regs)" by blast
  have "drop (9 + 2 * n) buf = [hi, lo]"
    using Suc.prems by (simp add: hi_def lo_def Cons_nth_drop_Suc [symmetric])
  then have tail: "drop (9 + 2 * n) buf = be16 (join16 hi lo)" by (simp add: be16_join16)
  have "drop 9 buf = drop 9 (take (9 + 2 * n) buf @ drop (9 + 2 * n) buf)" by simp
  also have "\<dots> = concat (map be16 (regs @ [join16 hi lo]))"
    using Suc.prems unfolding drop_append regs(2) tail by simp
  finally have images: "drop 9 buf = concat (map be16 (regs @ [join16 hi lo]))" .
  have "buf = take 9 buf @ drop 9 buf @ []" by simp
  then have "buf = take 9 buf @ concat (map be16 (regs @ [join16 hi lo])) @ []"
    unfolding images .
  from read_registers_at_images [OF this] Suc.prems regs(1)
  have "read_registers_at buf (Suc n) = Some (regs @ [join16 hi lo])" by simp
  with images regs(1) show ?case by auto
qed

section \<open>Well-formed response frames\<close>

text \<open>The MBAP header in front of a PDU, and the three kinds of response the client expects.\<close>

definition mbap_frame :: "u16 \<Rightarrow> u8 \<Rightarrow> u8 list \<Rightarrow> u8 list" where
  "mbap_frame tid uid pdu = be16 tid @ be16 0 @ be16 (of_nat (length pdu + 1)) @ [uid] @ pdu"

inductive is_frame :: "u8 list \<Rightarrow> ModbusResponse \<Rightarrow> bool" where
  exception_frame: "fc \<in> {read_holding_registers, read_input_registers, write_single_register} \<Longrightarrow>
    is_frame (mbap_frame tid uid [fc OR 0x80, code])
      \<lparr>transaction_id = tid, unit_id = uid, resp_function = fc, is_exception = True,
       exception_code = code, registers = []\<rparr>"
| read_frame: "fc \<in> {read_holding_registers, read_input_registers} \<Longrightarrow>
    regs \<noteq> [] \<Longrightarrow> length regs \<le> 125 \<Longrightarrow>
    is_frame (mbap_frame tid uid ([fc, of_nat (2 * length regs)] @ concat (map be16 regs)))
      \<lparr>transaction_id = tid, unit_id = uid, resp_function = fc, is_exception = False,
       exception_code = 0, registers = regs\<rparr>"
| write_frame:
    "is_frame (mbap_frame tid uid ([write_single_register] @ be16 addr @ be16 v))
      \<lparr>transaction_id = tid, unit_id = uid, resp_function = write_single_register,
       is_exception = False, exception_code = 0, registers = [v]\<rparr>"

inductive_cases is_frame_cases: "is_frame buf r"

lemma length_mbap_frame [image_simps, simp]: "length (mbap_frame tid uid pdu) = 7 + length pdu"
  by (simp add: mbap_frame_def)

lemma expected_mbap_frame:
  assumes "1 \<le> length pdu" "length pdu \<le> 253"
  shows "expected_frame_length (mbap_frame tid uid pdu) = Some (Some (7 + length pdu))"
proof -
  let ?f = "mbap_frame tid uid pdu" and ?l = "of_nat (length pdu + 1) :: u16"
  have p: "read_u16 ?f 2 = Some 0"
    by (simp add: mbap_frame_def read_u16_image [of "be16 tid" 2])
  have l: "read_u16 ?f 4 = Some ?l"
    using read_u16_image [of "be16 tid @ be16 0" 4 ?l "[uid] @ pdu"] by (simp add: mbap_frame_def)
  have u: "unat ?l = length pdu + 1" using assms by (simp add: unat_of_nat del: of_nat_add of_nat_Suc)
  moreover have "pdu \<noteq> []" using assms by auto
  ultimately have "\<not> ?l < 2" "\<not> 254 < ?l" using assms u by (simp_all add: word_less_nat_alt del: of_nat_add of_nat_Suc)
  then show ?thesis
    using p l u by (simp add: expected_frame_length_def kMbapHeaderLength_def kProtocolId_def)
qed

lemma header_reads_mbap_frame:
  assumes "pdu = b # pdu'"
  shows "read_u16 (mbap_frame tid uid pdu) 0 = Some tid"
    and "vec_at (mbap_frame tid uid pdu) 6 = Some uid"
    and "vec_at (mbap_frame tid uid pdu) 7 = Some b"
  using read_u16_image [of "[]" 0 tid] assms
  by (simp_all add: mbap_frame_def vec_at_def nth_append be16_def)

text \<open>The exception bit splits off the function byte.\<close>

lemma single_bit_split:
  fixes b w :: u8
  assumes w: "\<And>i. bit w i \<longleftrightarrow> i = k"
  shows "b AND w = 0 \<Longrightarrow> b AND NOT w = b" and "b AND w \<noteq> 0 \<Longrightarrow> b = (b AND NOT w) OR w"
proof -
  have iff: "b AND w = 0 \<longleftrightarrow> \<not> bit b k"
  proof
    assume "b AND w = 0"
    then have "\<not> bit (b AND w) k" by simp
    then show "\<not> bit b k" by (simp add: bit_and_iff w)
  next
    assume "\<not> bit b k"
    then show "b AND w = 0" by (intro bit_word_eqI) (auto simp: bit_and_iff w)
  qed
  show "b AND w = 0 \<Longrightarrow> b AND NOT w = b"
    unfolding iff by (rule bit_word_eqI) (auto simp: bit_simps w)
  show "b AND w \<noteq> 0 \<Longrightarrow> b = (b AND NOT w) OR w"
    unfolding iff by (rule bit_word_eqI) (auto simp: bit_simps w)
qed

lemma bit_0x80: "bit (0x80 :: u8) i \<longleftrightarrow> i = 7"
  using bit_exp_iff [where 'a = "8 word", of 7 i] by (auto simp: possible_bit_def)

lemmas exception_bit_split = single_bit_split [OF bit_0x80]

section \<open>The decoder accepts exactly the well-formed frames\<close>

lemma decode_accepts_frame: "is_frame buf r \<Longrightarrow> decode_response buf = Some (Some r)"
proof (induction rule: is_frame.induct)
  case (exception_frame fc tid uid code)
  let ?pdu = "[fc OR 0x80, code]"
  note hdr = header_reads_mbap_frame [of ?pdu _ _ tid uid, OF refl]
  have "vec_at (mbap_frame tid uid ?pdu) 8 = Some code"
    by (simp add: mbap_frame_def vec_at_def nth_append be16_def)
  then show ?case
    using exception_frame expected_mbap_frame [of ?pdu tid uid] hdr
    by (auto simp: decode_response_def function_codes)
next
  case (read_frame fc regs tid uid)
  let ?n = "length regs" and ?bc = "of_nat (2 * length regs) :: u8"
  let ?pdu = "[fc, ?bc] @ concat (map be16 regs)"
  let ?f = "mbap_frame tid uid ?pdu"
  have len: "length (concat (map be16 regs)) = 2 * ?n" by (rule length_concat_map_const) simp
  have bc: "unat ?bc = 2 * ?n" using read_frame(3) by (simp add: unat_of_nat del: of_nat_mult)
  have eight: "vec_at ?f 8 = Some ?bc"
    by (simp add: mbap_frame_def vec_at_def nth_append be16_def)
  have "\<not> 250 < ?bc" "?bc \<noteq> 0"
    using bc read_frame(2,3) by (auto simp: word_less_nat_alt simp del: of_nat_mult)
  moreover have "read_registers_at ?f ?n = Some regs"
    by (rule read_registers_at_images [where pre = "take 9 ?f" and post = "[]"])
      (simp_all add: mbap_frame_def be16_def)
  ultimately show ?case
    using read_frame expected_mbap_frame [of ?pdu tid uid] len bc eight
      header_reads_mbap_frame [of ?pdu _ _ tid uid]
    by (auto simp: decode_response_def function_codes simp del: of_nat_mult)
next
  case (write_frame tid uid addr v)
  let ?pdu = "[write_single_register] @ be16 addr @ be16 v"
  let ?f = "mbap_frame tid uid ?pdu"
  have "read_u16 ?f 10 = Some v"
    using read_u16_image [of "take 10 ?f" 10 v "[]"] by (simp add: mbap_frame_def be16_def)
  then show ?case
    using expected_mbap_frame [of ?pdu tid uid] header_reads_mbap_frame [of ?pdu _ _ tid uid]
    by (simp add: decode_response_def function_codes)
qed

lemma expected_frame_length_total: "\<exists>r. expected_frame_length h = Some r"
  by (auto simp: expected_frame_length_def kMbapHeaderLength_def read_u16_in_range)

lemma expected_frame_length_SomeD:
  assumes "expected_frame_length h = Some (Some n)"
  shows "7 \<le> length h" and "join16 (h ! 2) (h ! 3) = 0"
    and "n = 6 + unat (join16 (h ! 4) (h ! 5))" and "8 \<le> n" and "n \<le> 260"
proof -
  have len: "7 \<le> length h"
    using assms by (auto simp: expected_frame_length_def kMbapHeaderLength_def split: if_splits)
  then show "7 \<le> length h" .
  from assms len have *: "join16 (h ! 2) (h ! 3) = 0"
    "\<not> join16 (h ! 4) (h ! 5) < 2" "\<not> 254 < join16 (h ! 4) (h ! 5)"
    "n = 6 + unat (join16 (h ! 4) (h ! 5))"
    by (auto simp: expected_frame_length_def kMbapHeaderLength_def kProtocolId_def
        read_u16_in_range numeral_eq_Suc split: if_splits)
  then show "join16 (h ! 2) (h ! 3) = 0" "n = 6 + unat (join16 (h ! 4) (h ! 5))" by simp_all
  from * show "8 \<le> n" "n \<le> 260" by (simp_all add: word_less_nat_alt)
qed

text \<open>A buffer whose length matches its header is an MBAP frame around its PDU.\<close>

lemma mbap_frame_of_buffer:
  assumes "expected_frame_length buf = Some (Some (length buf))"
  shows "buf = mbap_frame (join16 (buf ! 0) (buf ! 1)) (buf ! 6) (drop 7 buf)"
    and "drop 7 buf = buf ! 7 # drop 8 buf"
proof -
  note e = expected_frame_length_SomeD [OF assms]
  let ?l = "join16 (buf ! 4) (buf ! 5)"
  have "length (drop 7 buf) + 1 = unat ?l" using e by simp
  then have l: "of_nat (length (drop 7 buf) + 1) = ?l" by (simp only: of_nat_unat ucast_id)
  have "buf = [buf!0, buf!1] @ [buf!2, buf!3] @ [buf!4, buf!5] @ [buf!6] @ drop 7 buf"
    using e(1) by (auto simp: numeral_eq_Suc Suc_le_length_iff)
  also have "[buf!0, buf!1] = be16 (join16 (buf ! 0) (buf ! 1))" by (simp add: be16_join16)
  also have "[buf!2, buf!3] = be16 0" using e(2) be16_join16 [of "buf ! 2" "buf ! 3"] by simp
  also have "[buf!4, buf!5] = be16 (of_nat (length (drop 7 buf) + 1))"
    unfolding l by (simp add: be16_join16)
  finally show "buf = mbap_frame (join16 (buf ! 0) (buf ! 1)) (buf ! 6) (drop 7 buf)"
    by (simp only: mbap_frame_def)
  show "drop 7 buf = buf ! 7 # drop 8 buf"
    using e(4) Cons_nth_drop_Suc [of 7 buf] by simp
qed


text \<open>The decoder by cases, each read replaced by the byte it finds.\<close>

lemma decode_response_cases:
  assumes "expected_frame_length buf = Some (Some (length buf))"
  defines "fb \<equiv> buf ! 7"
  defines "fc \<equiv> buf ! 7 AND NOT 0x80"
  defines "resp \<equiv> \<lparr>transaction_id = join16 (buf ! 0) (buf ! 1), unit_id = buf ! 6,
    resp_function = fc, is_exception = (fb AND 0x80 \<noteq> 0), exception_code = 0, registers = []\<rparr>"
  shows "decode_response buf =
    (if fc \<noteq> read_holding_registers \<and> fc \<noteq> read_input_registers \<and> fc \<noteq> write_single_register
     then Some None
     else if fb AND 0x80 \<noteq> 0 then
       (if length buf \<noteq> 9 then Some None else Some (Some (resp\<lparr>exception_code := buf ! 8\<rparr>)))
     else if fc = write_single_register then
       (if length buf \<noteq> 12 then Some None
        else Some (Some (resp\<lparr>registers := [join16 (buf ! 10) (buf ! 11)]\<rparr>)))
     else if length buf < 9 \<or> buf ! 8 = 0 \<or> 250 < buf ! 8 \<or> unat (buf ! 8) mod 2 \<noteq> 0 \<or>
       length buf \<noteq> 9 + unat (buf ! 8) then Some None
     else map_option (\<lambda>regs. Some (resp\<lparr>registers := regs\<rparr>))
       (read_registers_at buf (unat (buf ! 8) div 2)))"
proof -
  have "8 \<le> length buf" using expected_frame_length_SomeD(4) [OF assms(1)] .
  then show ?thesis
    using assms(1) unfolding decode_response_def resp_def fb_def fc_def
    by (auto simp: read_u16_in_range Let_def map_option_case split: option.splits)
qed

lemma decode_no_fault: "decode_response buf \<noteq> None"
proof (cases "expected_frame_length buf = Some (Some (length buf))")
  case False
  then show ?thesis
    using expected_frame_length_total [of buf] by (auto simp: decode_response_def split: option.splits)
next
  case True
  show ?thesis
  proof (cases "length buf = 9 + 2 * (unat (buf ! 8) div 2)")
    case True
    with read_registers_at_Some [OF this] show ?thesis
      unfolding decode_response_cases [OF \<open>expected_frame_length buf = _\<close>] by auto
  next
    case False
    then have "unat (buf ! 8) mod 2 \<noteq> 0 \<or> length buf \<noteq> 9 + unat (buf ! 8)" by presburger
    then show ?thesis unfolding decode_response_cases [OF True] by auto
  qed
qed

lemma decode_only_frames:
  assumes "decode_response buf = Some (Some r)"
  shows "is_frame buf r"
proof -
  have e: "expected_frame_length buf = Some (Some (length buf))"
    using assms by (auto simp: decode_response_def split: bind_splits option.splits if_splits)
  note frame = mbap_frame_of_buffer [OF e]
  let ?fb = "buf ! 7" and ?fc = "buf ! 7 AND NOT 0x80"
  let ?tid = "join16 (buf ! 0) (buf ! 1)"
  note dec = assms [unfolded decode_response_cases [OF e]]
  from dec have fc: "?fc \<in> {read_holding_registers, read_input_registers, write_single_register}"
    by (auto split: if_splits)
  consider (c_exc) "?fb AND 0x80 \<noteq> 0" | (c_write) "?fb AND 0x80 = 0" "?fc = write_single_register"
    | (c_read) "?fb AND 0x80 = 0" "?fc \<noteq> write_single_register" by blast
  then show ?thesis
  proof cases
    case c_exc
    with dec fc have len: "length buf = 9" by (auto split: if_splits)
    then have "drop 8 buf = [buf ! 8]" by (simp add: Cons_nth_drop_Suc [symmetric])
    with frame exception_bit_split(2) [OF c_exc] have "buf = mbap_frame ?tid (buf ! 6) [?fc OR 0x80, buf ! 8]"
      by simp
    with is_frame.exception_frame [OF fc, of ?tid "buf ! 6" "buf ! 8"] dec c_exc len fc show ?thesis
      by (auto split: if_splits)
  next
    case c_write
    with dec fc have len: "length buf = 12" by (auto simp: function_codes split: if_splits)
    let ?v = "join16 (buf ! 10) (buf ! 11)" and ?a = "join16 (buf ! 8) (buf ! 9)"
    have "drop 8 buf = be16 ?a @ be16 ?v"
      using len by (simp add: be16_join16 Cons_nth_drop_Suc [symmetric])
    with frame exception_bit_split(1) [OF c_write(1)] c_write(2)
    have "buf = mbap_frame ?tid (buf ! 6) ([write_single_register] @ be16 ?a @ be16 ?v)" by simp
    with is_frame.write_frame [of ?tid "buf ! 6" ?a ?v] dec c_write len show ?thesis
      by (auto simp: function_codes split: if_splits)
  next
    case c_read
    with fc have fc': "?fc \<in> {read_holding_registers, read_input_registers}" by auto
    from dec c_read fc' have bc: "buf ! 8 \<noteq> 0" "\<not> 250 < buf ! 8" "unat (buf ! 8) mod 2 = 0"
      "length buf = 9 + unat (buf ! 8)" by (auto split: if_splits)
    define n where "n = unat (buf ! 8) div 2"
    have n: "unat (buf ! 8) = 2 * n" unfolding n_def using bc(3) by presburger
    from read_registers_at_Some [of buf n] obtain regs where regs: "read_registers_at buf n = Some regs"
      "length regs = n" "drop 9 buf = concat (map be16 regs)" using bc(4) n by auto
    have "of_nat (2 * length regs) = buf ! 8" unfolding regs(2) n [symmetric] by simp
    moreover have "drop 8 buf = buf ! 8 # drop 9 buf"
      using bc(4) n by (simp add: Cons_nth_drop_Suc [symmetric])
    ultimately have "buf = mbap_frame ?tid (buf ! 6)
        ([?fc, of_nat (2 * length regs)] @ concat (map be16 regs))"
      using frame exception_bit_split(1) [OF c_read(1)] regs(3) by simp
    moreover have "regs \<noteq> []" "length regs \<le> 125"
      using bc(1,2) n regs(2) by (auto simp: word_less_nat_alt unat_eq_0)
    ultimately show ?thesis
      using is_frame.read_frame [OF fc', of regs ?tid "buf ! 6"] dec c_read regs(1) bc fc'
      by (auto simp: n_def split: if_splits)
  qed
qed

section \<open>Requests\<close>

lemma encode_request_frame:
  "encode_request r = mbap_frame (req_transaction_id r) (req_unit_id r)
     ([req_function r] @ be16 (req_start_address r) @ be16 (req_quantity_or_value r))"
  by (simp add: encode_request_def mbap_frame_def push_u16_be16 kProtocolId_def be16_def)

lemma encode_request_inject: "encode_request r = encode_request r' \<longleftrightarrow> r = r'"
proof
  assume "encode_request r = encode_request r'"
  then have "be16 (req_transaction_id r) = be16 (req_transaction_id r')"
    "be16 (req_start_address r) = be16 (req_start_address r')"
    "be16 (req_quantity_or_value r) = be16 (req_quantity_or_value r')"
    "req_unit_id r = req_unit_id r'" "req_function r = req_function r'"
    by (simp_all add: encode_request_frame mbap_frame_def be16_def)
  then show "r = r'" by (cases r, cases r') simp
qed simp

section \<open>Properties\<close>

text \<open>C1. The response decoder accepts a buffer exactly when it is a well-formed response frame
  (a Modbus exception, a register read of 1 to 125 registers, or the echo of a single-register
  write), and then returns that frame's transaction id, unit, function and registers: nothing
  malformed is accepted, nothing well-formed is rejected.\<close>

theorem decode_response_iff_frame: "decode_response buf = Some (Some r) \<longleftrightarrow> is_frame buf r"
  by (auto intro: decode_accepts_frame decode_only_frames)

text \<open>The decoder never reads outside the buffer it is given, whatever the bytes and however
  long the buffer: no device can make it.\<close>

theorem decode_response_in_bounds: "\<exists>result. decode_response buf = Some result"
  using decode_no_fault by blast

text \<open>An encoded request is a 12-byte frame whose own header announces 12 bytes, it determines
  the request, and the device's echo of a single-register write decodes to the value written.\<close>

theorem encode_request_roundtrip:
  "expected_frame_length (encode_request r) = Some (Some (length (encode_request r))) \<and>
   length (encode_request r) = 12 \<and>
   (encode_request r = encode_request r' \<longleftrightarrow> r = r') \<and>
   decode_response (encode_request (r\<lparr>req_function := write_single_register\<rparr>)) =
     Some (Some \<lparr>transaction_id = req_transaction_id r, unit_id = req_unit_id r,
       resp_function = write_single_register, is_exception = False, exception_code = 0,
       registers = [req_quantity_or_value r]\<rparr>)"
  using decode_accepts_frame [OF is_frame.write_frame] encode_request_inject [of r r']
    expected_mbap_frame [of "[req_function r] @ be16 (req_start_address r) @
      be16 (req_quantity_or_value r)"]
  by (simp add: encode_request_frame)

end
