(* ===== verification/ModbusClient.thy ===== *)
theory ModbusClient
  imports FrameCodec Text
begin

text \<open>
  \<open>src/protocol/modbus_client.cpp\<close>: the asynchronous Modbus TCP client as a state machine. Every
  handler runs on the client's strand, so a handler is one step. Asio is not part of the repository:
  what it contributes is the state of the socket, the operations started and not yet completed
  (\<open>ops\<close>, each with whether the socket was open when it started) and the waits on the deadline timer
  (\<open>waits\<close>, by generation). \<open>allowed\<close> says which completions Asio's documentation permits: each
  started operation completes once, a transfer that succeeds has transferred everything, an operation
  started on a closed socket fails, a timer wait is reported as cancelled only after it was cancelled.
  Both outcomes of a race between a completion and a cancellation are allowed.

  A callback is a token: \<open>'c\<close> stands for a \<open>std::function<void(bool)>\<close>, \<open>'k\<close> for a
  \<open>RegistersCallback\<close>; a handler returns the calls it makes.
\<close>

section \<open>Data\<close>

datatype RegistersResult = Registers "u16 list" | ModbusError string

text \<open>The lambdas that \<open>read_registers\<close> and \<open>write_single_register\<close> pass to \<open>send_request\<close>.\<close>

datatype ('c, 'k) Callback = ReadCallback u16 'k | WriteCallback 'c

datatype ('c, 'k) Reply = Done 'c bool | Answered 'k RegistersResult

datatype ('c, 'k) AsyncOp =
    Resolving 'c
  | Connecting 'c
  | Writing u16 "('c, 'k) Callback" "u8 list"
  | ReadingHeader u16 "('c, 'k) Callback"
  | ReadingBody u16 "('c, 'k) Callback" nat nat

record ('c, 'k) ModbusClient =
  timeout :: nat
  is_connected :: bool
  timed_out :: bool
  deadline_generation :: u64
  next_transaction_id :: u16
  read_buffer :: "u8 list"
  socket_open :: bool
  ops :: "(('c, 'k) AsyncOp \<times> bool) list"
  waits :: "u64 list"

definition ModbusClient_create :: "nat \<Rightarrow> ('c, 'k) ModbusClient" where
  "ModbusClient_create timeout_arg = \<lparr>timeout = timeout_arg, is_connected = False, timed_out = False,
     deadline_generation = 0, next_transaction_id = 1, read_buffer = [], socket_open = False,
     ops = [], waits = []\<rparr>"

section \<open>Operations\<close>

type_synonym ('c, 'k) handled = "('c, 'k) ModbusClient \<times> ('c, 'k) Reply list"

definition start_op :: "('c, 'k) AsyncOp \<Rightarrow> ('c, 'k) ModbusClient \<Rightarrow> ('c, 'k) ModbusClient" where
  "start_op oper c = c\<lparr>ops := ops c @ [(oper, socket_open c)]\<rparr>"

definition close_socket :: "('c, 'k) ModbusClient \<Rightarrow> ('c, 'k) ModbusClient" where
  "close_socket c = c\<lparr>socket_open := False, is_connected := False\<rparr>"

definition arm_deadline :: "('c, 'k) ModbusClient \<Rightarrow> ('c, 'k) ModbusClient" where
  "arm_deadline c =
     (let c = c\<lparr>timed_out := False\<rparr>;
          generation = deadline_generation c + 1;
          c = c\<lparr>deadline_generation := generation\<rparr>
      in c\<lparr>waits := waits c @ [generation]\<rparr>)"

definition on_deadline :: "bool \<Rightarrow> u64 \<Rightarrow> ('c, 'k) ModbusClient \<Rightarrow> ('c, 'k) ModbusClient" where
  "on_deadline ec generation c =
     (if ec \<or> generation \<noteq> deadline_generation c then c
      else close_socket (c\<lparr>timed_out := True\<rparr>))"

definition disarm_deadline :: "('c, 'k) ModbusClient \<Rightarrow> ('c, 'k) ModbusClient" where
  "disarm_deadline c = c\<lparr>deadline_generation := deadline_generation c + 1\<rparr>"

definition client_connect :: "'c \<Rightarrow> ('c, 'k) ModbusClient \<Rightarrow> ('c, 'k) handled" where
  "client_connect on_done c = (start_op (Resolving on_done) (arm_deadline (close_socket c)), [])"

text \<open>\<open>ec\<close> is the message of the error code, \<open>None\<close> for success. \<open>async_connect\<close> opens the socket
  for the first endpoint when it starts.\<close>

definition on_resolve :: "string option \<Rightarrow> 'c \<Rightarrow> ('c, 'k) ModbusClient \<Rightarrow> ('c, 'k) handled" where
  "on_resolve ec on_done c =
     (if ec \<noteq> None then (disarm_deadline c, [Done on_done False])
      else (start_op (Connecting on_done) (c\<lparr>socket_open := True\<rparr>), []))"

definition on_connect :: "string option \<Rightarrow> 'c \<Rightarrow> ('c, 'k) ModbusClient \<Rightarrow> ('c, 'k) handled" where
  "on_connect ec on_done c =
     (let c = disarm_deadline c
      in if ec \<noteq> None then (close_socket c, [Done on_done False])
         else (c\<lparr>is_connected := True\<rparr>, [Done on_done True]))"

definition short_response :: "u16 \<Rightarrow> nat \<Rightarrow> string" where
  "short_response quantity_arg n = ''short response: expected '' @ dec_nat (unat quantity_arg) @
     '' registers, got '' @ dec_nat n"

fun run_callback :: "('c, 'k) Callback \<Rightarrow> RegistersResult \<Rightarrow> ('c, 'k) Reply" where
  "run_callback (ReadCallback quantity_arg k) (Registers regs) =
     (if length regs < unat quantity_arg
      then Answered k (ModbusError (short_response quantity_arg (length regs)))
      else Answered k (Registers regs))"
| "run_callback (ReadCallback quantity_arg k) (ModbusError msg) = Answered k (ModbusError msg)"
| "run_callback (WriteCallback on_done) result = Done on_done (case result of Registers regs \<Rightarrow> True | ModbusError msg \<Rightarrow> False)"

definition send_request ::
  "ModbusRequest \<Rightarrow> ('c, 'k) Callback \<Rightarrow> ('c, 'k) ModbusClient \<Rightarrow> ('c, 'k) handled" where
  "send_request request callback c =
     (if \<not> is_connected c then (c, [run_callback callback (ModbusError ''not connected'')])
      else (start_op (Writing (req_transaction_id request) callback (encode_request request))
              (arm_deadline c), []))"

definition client_read_registers ::
  "FunctionCode \<Rightarrow> u8 \<Rightarrow> u16 \<Rightarrow> u16 \<Rightarrow> 'k \<Rightarrow> ('c, 'k) ModbusClient \<Rightarrow> ('c, 'k) handled" where
  "client_read_registers func unit_arg start quantity_arg k c =
     (let request = \<lparr>req_transaction_id = next_transaction_id c, req_unit_id = unit_arg,
            req_function = func, req_start_address = start, req_quantity_or_value = quantity_arg\<rparr>
      in send_request request (ReadCallback quantity_arg k)
           (c\<lparr>next_transaction_id := next_transaction_id c + 1\<rparr>))"

definition client_read_holding_registers ::
  "u8 \<Rightarrow> u16 \<Rightarrow> u16 \<Rightarrow> 'k \<Rightarrow> ('c, 'k) ModbusClient \<Rightarrow> ('c, 'k) handled" where
  "client_read_holding_registers = client_read_registers read_holding_registers"

definition client_read_input_registers ::
  "u8 \<Rightarrow> u16 \<Rightarrow> u16 \<Rightarrow> 'k \<Rightarrow> ('c, 'k) ModbusClient \<Rightarrow> ('c, 'k) handled" where
  "client_read_input_registers = client_read_registers read_input_registers"

definition client_write_single_register ::
  "u8 \<Rightarrow> u16 \<Rightarrow> u16 \<Rightarrow> 'c \<Rightarrow> ('c, 'k) ModbusClient \<Rightarrow> ('c, 'k) handled" where
  "client_write_single_register unit_arg addr v on_done c =
     (let request = \<lparr>req_transaction_id = next_transaction_id c, req_unit_id = unit_arg,
            req_function = write_single_register, req_start_address = addr, req_quantity_or_value = v\<rparr>
      in send_request request (WriteCallback on_done)
           (c\<lparr>next_transaction_id := next_transaction_id c + 1\<rparr>))"

definition read_response ::
  "u16 \<Rightarrow> ('c, 'k) Callback \<Rightarrow> ('c, 'k) ModbusClient \<Rightarrow> ('c, 'k) ModbusClient" where
  "read_response tid callback c = start_op (ReadingHeader tid callback) (c\<lparr>read_buffer := replicate 7 0\<rparr>)"

definition on_write ::
  "string option \<Rightarrow> u16 \<Rightarrow> ('c, 'k) Callback \<Rightarrow> ('c, 'k) ModbusClient \<Rightarrow> ('c, 'k) handled" where
  "on_write ec tid callback c =
     (case ec of
        Some msg \<Rightarrow>
          let c = disarm_deadline c;
              reason = (if timed_out c then ''timed out'' else msg);
              c = close_socket c
          in (c, [run_callback callback (ModbusError (''write failed: '' @ reason))])
      | None \<Rightarrow> (read_response tid callback c, []))"

text \<open>A transfer stores what arrived at an offset of the buffer; outside it is undefined behaviour.\<close>

definition store_at :: "u8 list \<Rightarrow> nat \<Rightarrow> u8 list \<Rightarrow> u8 list ub" where
  "store_at buf off bs = (if off + length bs \<le> length buf
     then Some (take off buf @ bs @ drop (off + length bs) buf) else None)"

definition on_header ::
  "string option \<Rightarrow> u8 list \<Rightarrow> u16 \<Rightarrow> ('c, 'k) Callback \<Rightarrow> ('c, 'k) ModbusClient \<Rightarrow> ('c, 'k) handled ub" where
  "on_header ec received tid callback c = do {
     buf \<leftarrow> store_at (read_buffer c) 0 received;
     let c = c\<lparr>read_buffer := buf\<rparr>;
     case ec of
       Some msg \<Rightarrow>
         (let c = disarm_deadline c;
              reason = (if timed_out c then ''no response within '' @ dec_nat (timeout c) @ '' ms'' else msg);
              c = close_socket c
          in Some (c, [run_callback callback (ModbusError (''read header failed: '' @ reason))]))
     | None \<Rightarrow> do {
         total_length \<leftarrow> expected_frame_length (read_buffer c);
         case total_length of
           None \<Rightarrow> Some (close_socket (disarm_deadline c),
                     [run_callback callback (ModbusError ''malformed MBAP header'')])
         | Some n \<Rightarrow>
             (if n < length (read_buffer c) + 1 \<or> 7 + 253 < n
              then Some (close_socket (disarm_deadline c),
                     [run_callback callback (ModbusError ''malformed MBAP header'')])
              else (let remaining = n - length (read_buffer c);
                        previous_size = length (read_buffer c);
                        c = c\<lparr>read_buffer := read_buffer c @ replicate (n - previous_size) 0\<rparr>
                    in Some (start_op (ReadingBody tid callback previous_size remaining) c, []))) } }"

definition on_body ::
  "string option \<Rightarrow> u8 list \<Rightarrow> u16 \<Rightarrow> ('c, 'k) Callback \<Rightarrow> nat \<Rightarrow> ('c, 'k) ModbusClient \<Rightarrow>
   ('c, 'k) handled ub" where
  "on_body ec received tid callback previous_size c = do {
     buf \<leftarrow> store_at (read_buffer c) previous_size received;
     let c = disarm_deadline (c\<lparr>read_buffer := buf\<rparr>);
     case ec of
       Some msg \<Rightarrow>
         (let reason = (if timed_out c then ''timed out'' else msg)
          in Some (close_socket c, [run_callback callback (ModbusError (''read body failed: '' @ reason))]))
     | None \<Rightarrow> do {
         response \<leftarrow> decode_response (read_buffer c);
         case response of
           None \<Rightarrow> Some (close_socket c, [run_callback callback (ModbusError ''failed to decode response'')])
         | Some resp \<Rightarrow>
             if transaction_id resp \<noteq> tid
             then Some (close_socket c, [run_callback callback (ModbusError ''transaction id mismatch'')])
             else if is_exception resp
             then Some (c, [run_callback callback
                    (ModbusError (''device exception code '' @ dec_nat (unat (exception_code resp))))])
             else Some (c, [run_callback callback (Registers (registers resp))]) } }"

definition client_close :: "('c, 'k) ModbusClient \<Rightarrow> ('c, 'k) handled" where
  "client_close c = (close_socket (disarm_deadline c), [])"

section \<open>Steps\<close>

fun complete ::
  "string option \<Rightarrow> u8 list \<Rightarrow> ('c, 'k) AsyncOp \<Rightarrow> ('c, 'k) ModbusClient \<Rightarrow> ('c, 'k) handled ub" where
  "complete ec bs (Resolving on_done) c = Some (on_resolve ec on_done c)"
| "complete ec bs (Connecting on_done) c = Some (on_connect ec on_done c)"
| "complete ec bs (Writing tid callback request) c = Some (on_write ec tid callback c)"
| "complete ec bs (ReadingHeader tid callback) c = on_header ec bs tid callback c"
| "complete ec bs (ReadingBody tid callback previous_size remaining) c =
     on_body ec bs tid callback previous_size c"

datatype ('c, 'k) Call =
    Connect 'c
  | ReadHolding u8 u16 u16 'k
  | ReadInput u8 u16 u16 'k
  | WriteSingle u8 u16 u16 'c
  | Close

fun client_call :: "('c, 'k) Call \<Rightarrow> ('c, 'k) ModbusClient \<Rightarrow> ('c, 'k) handled" where
  "client_call (Connect on_done) c = client_connect on_done c"
| "client_call (ReadHolding u a q k) c = client_read_holding_registers u a q k c"
| "client_call (ReadInput u a q k) c = client_read_input_registers u a q k c"
| "client_call (WriteSingle u a v on_done) c = client_write_single_register u a v on_done c"
| "client_call Close c = client_close c"

text \<open>An event: a public call, the completion of an operation (with its error and the bytes that
  arrived), or a wait on the deadline timer that ends.\<close>

datatype ('c, 'k) ClientEvent =
    Invoke "('c, 'k) Call"
  | Complete nat "string option" "u8 list"
  | DeadlineWait nat bool

definition remove_at :: "nat \<Rightarrow> 'a list \<Rightarrow> 'a list" where
  "remove_at i xs = take i xs @ drop (Suc i) xs"

fun client_do :: "('c, 'k) ClientEvent \<Rightarrow> ('c, 'k) ModbusClient \<Rightarrow> ('c, 'k) handled ub" where
  "client_do (Invoke call) c = Some (client_call call c)"
| "client_do (Complete i ec bs) c =
     complete ec bs (fst (ops c ! i)) (c\<lparr>ops := remove_at i (ops c)\<rparr>)"
| "client_do (DeadlineWait i ec) c =
     Some (on_deadline ec (waits c ! i) (c\<lparr>waits := remove_at i (waits c)\<rparr>), [])"

fun transfer_ok :: "('c, 'k) AsyncOp \<Rightarrow> bool \<Rightarrow> string option \<Rightarrow> u8 list \<Rightarrow> bool" where
  "transfer_ok (Resolving on_done) op_open ec bs = True"
| "transfer_ok (Connecting on_done) op_open ec bs = (ec = None \<longrightarrow> op_open)"
| "transfer_ok (Writing tid callback request) op_open ec bs = (ec = None \<longrightarrow> op_open)"
| "transfer_ok (ReadingHeader tid callback) op_open ec bs =
     (length bs \<le> 7 \<and> (ec = None \<longrightarrow> op_open \<and> length bs = 7))"
| "transfer_ok (ReadingBody tid callback previous_size remaining) op_open ec bs =
     (length bs \<le> remaining \<and> (ec = None \<longrightarrow> op_open \<and> length bs = remaining))"

fun allowed :: "('c, 'k) ClientEvent \<Rightarrow> ('c, 'k) ModbusClient \<Rightarrow> bool" where
  "allowed (Invoke call) c = True"
| "allowed (Complete i ec bs) c =
     (i < length (ops c) \<and> transfer_ok (fst (ops c ! i)) (snd (ops c ! i)) ec bs)"
| "allowed (DeadlineWait i ec) c =
     (i < length (waits c) \<and> (ec \<longrightarrow> waits c ! i \<noteq> deadline_generation c))"

text \<open>The contract of the class: one call at a time, the next one after its callback.\<close>

fun polite :: "('c, 'k) ClientEvent \<Rightarrow> ('c, 'k) ModbusClient \<Rightarrow> bool" where
  "polite (Invoke call) c = (call = Close \<or> ops c = [])"
| "polite _ c = True"

text \<open>A run: the state it leads to and all replies made, when every event is allowed and polite.\<close>

inductive client_run ::
  "('c, 'k) ModbusClient \<Rightarrow> ('c, 'k) ClientEvent list \<Rightarrow> ('c, 'k) ModbusClient \<Rightarrow> ('c, 'k) Reply list \<Rightarrow> bool"
  where
  done_run: "client_run c [] c []"
| step_run: "client_run c es c1 rs \<Longrightarrow> allowed e c1 \<Longrightarrow> polite e c1 \<Longrightarrow>
    client_do e c1 = Some (c2, rs2) \<Longrightarrow> client_run c (es @ [e]) c2 (rs @ rs2)"

inductive_simps client_run_Nil: "client_run c [] c' rs"
inductive_simps client_run_snoc: "client_run c (es @ [e]) c' rs"

lemmas client_defs = client_connect_def on_resolve_def on_connect_def send_request_def
  client_read_registers_def client_read_holding_registers_def client_read_input_registers_def
  client_write_single_register_def on_write_def read_response_def client_close_def
  start_op_def close_socket_def arm_deadline_def disarm_deadline_def on_deadline_def

section \<open>What holds between events\<close>

text \<open>A request's deadline is running, or the socket has been closed; the buffer fits the transfer.\<close>

definition bounded :: "('c, 'k) ModbusClient \<Rightarrow> bool" where
  "bounded c \<longleftrightarrow> deadline_generation c \<in> set (waits c) \<or> \<not> socket_open c"

fun op_inv :: "('c, 'k) AsyncOp \<Rightarrow> ('c, 'k) ModbusClient \<Rightarrow> bool" where
  "op_inv (Writing tid callback request) c = bounded c"
| "op_inv (ReadingHeader tid callback) c = (length (read_buffer c) = 7 \<and> bounded c)"
| "op_inv (ReadingBody tid callback previous_size remaining) c =
     (previous_size = 7 \<and> length (read_buffer c) = 7 + remaining \<and> bounded c)"
| "op_inv _ c = True"

fun client_inv :: "('c, 'k) ModbusClient \<Rightarrow> bool" where
  "client_inv c = (case ops c of [] \<Rightarrow> True | [(oper, op_open)] \<Rightarrow> op_inv oper c | _ \<Rightarrow> False)"

declare client_inv.simps [simp del]

lemma client_inv_idle [simp]: "ops c = [] \<Longrightarrow> client_inv c"
  by (simp add: client_inv.simps)

lemma client_inv_one [simp]: "ops c = [(oper, op_open)] \<Longrightarrow> client_inv c = op_inv oper c"
  by (simp add: client_inv.simps)

lemma client_inv_cases:
  assumes "client_inv c"
  obtains "ops c = []" | oper op_open where "ops c = [(oper, op_open)]" "op_inv oper c"
  using assms by (auto simp: client_inv.simps split: list.splits)

fun is_request_op :: "('c, 'k) AsyncOp \<Rightarrow> bool" where
  "is_request_op (Resolving on_done) = False"
| "is_request_op (Connecting on_done) = False"
| "is_request_op _ = True"

text \<open>Who is owed a reply: the callbacks of pending operations; a call adds its own.\<close>

fun callback_token :: "('c, 'k) Callback \<Rightarrow> 'c + 'k" where
  "callback_token (ReadCallback quantity_arg k) = Inr k"
| "callback_token (WriteCallback on_done) = Inl on_done"

fun op_token :: "('c, 'k) AsyncOp \<Rightarrow> 'c + 'k" where
  "op_token (Resolving on_done) = Inl on_done"
| "op_token (Connecting on_done) = Inl on_done"
| "op_token (Writing tid callback request) = callback_token callback"
| "op_token (ReadingHeader tid callback) = callback_token callback"
| "op_token (ReadingBody tid callback previous_size remaining) = callback_token callback"

fun reply_token :: "('c, 'k) Reply \<Rightarrow> 'c + 'k" where
  "reply_token (Done on_done ok) = Inl on_done"
| "reply_token (Answered k result) = Inr k"

fun call_tokens :: "('c, 'k) Call \<Rightarrow> ('c + 'k) list" where
  "call_tokens (Connect on_done) = [Inl on_done]"
| "call_tokens (ReadHolding u a q k) = [Inr k]"
| "call_tokens (ReadInput u a q k) = [Inr k]"
| "call_tokens (WriteSingle u a v on_done) = [Inl on_done]"
| "call_tokens Close = []"

fun event_tokens :: "('c, 'k) ClientEvent \<Rightarrow> ('c + 'k) list" where
  "event_tokens (Invoke call) = call_tokens call"
| "event_tokens _ = []"

abbreviation owed :: "('c, 'k) ModbusClient \<Rightarrow> ('c + 'k) list" where
  "owed c \<equiv> map (\<lambda>started. op_token (fst started)) (ops c)"

lemma reply_token_run_callback [simp]: "reply_token (run_callback cb r) = callback_token cb"
  by (cases "(cb, r)" rule: run_callback.cases) auto

text \<open>How many completions an operation is away from its reply.\<close>

fun op_left :: "('c, 'k) AsyncOp \<Rightarrow> nat" where
  "op_left (Resolving on_done) = 2"
| "op_left (Connecting on_done) = 1"
| "op_left (Writing tid callback request) = 3"
| "op_left (ReadingHeader tid callback) = 2"
| "op_left (ReadingBody tid callback previous_size remaining) = 1"

abbreviation client_left :: "('c, 'k) ModbusClient \<Rightarrow> nat" where
  "client_left c \<equiv> (\<Sum>started\<leftarrow>ops c. op_left (fst started))"

fun is_completion :: "('c, 'k) ClientEvent \<Rightarrow> bool" where
  "is_completion (Complete i ec bs) = True"
| "is_completion _ = False"

text \<open>Which callbacks are in the client's hands.\<close>

fun op_callbacks :: "('c, 'k) AsyncOp \<Rightarrow> ('c, 'k) Callback list" where
  "op_callbacks (Writing tid callback request) = [callback]"
| "op_callbacks (ReadingHeader tid callback) = [callback]"
| "op_callbacks (ReadingBody tid callback previous_size remaining) = [callback]"
| "op_callbacks _ = []"

fun event_callbacks :: "('c, 'k) ClientEvent \<Rightarrow> ('c, 'k) Callback list" where
  "event_callbacks (Invoke (ReadHolding u a q k)) = [ReadCallback q k]"
| "event_callbacks (Invoke (ReadInput u a q k)) = [ReadCallback q k]"
| "event_callbacks (Invoke (WriteSingle u a v on_done)) = [WriteCallback on_done]"
| "event_callbacks _ = []"

definition callbacks_in :: "('c, 'k) ModbusClient \<Rightarrow> ('c, 'k) Callback set" where
  "callbacks_in c = (\<Union>started \<in> set (ops c). set (op_callbacks (fst started)))"

definition reply_from :: "('c, 'k) Callback set \<Rightarrow> ('c, 'k) Reply \<Rightarrow> bool" where
  "reply_from cbs r \<longleftrightarrow> (\<exists>on_done ok. r = Done on_done ok) \<or> (\<exists>cb \<in> cbs. \<exists>result. r = run_callback cb result)"

lemma reply_from_intros [simp]:
  "reply_from cbs (Done on_done ok)"
  "cb \<in> cbs \<Longrightarrow> reply_from cbs (run_callback cb result)"
  "reply_from (insert (ReadCallback q k) cbs) (Answered k (ModbusError msg))"
  by (auto simp: reply_from_def) (metis run_callback.simps(2))

text \<open>What one event keeps, does and owes.\<close>

definition good_step ::
  "('c, 'k) ClientEvent \<Rightarrow> ('c, 'k) ModbusClient \<Rightarrow> ('c, 'k) handled ub \<Rightarrow> bool" where
  "good_step e c out \<longleftrightarrow> (\<exists>c' rs. out = Some (c', rs) \<and> client_inv c' \<and>
     map reply_token rs @ owed c' = owed c @ event_tokens e \<and>
     (is_completion e \<longrightarrow> client_left c' < client_left c) \<and>
     ((\<forall>call. e \<noteq> Invoke call) \<longrightarrow> \<not> is_completion e \<longrightarrow> ops c' = ops c) \<and>
     callbacks_in c' \<subseteq> callbacks_in c \<union> set (event_callbacks e) \<and>
     (\<forall>r \<in> set rs. reply_from (callbacks_in c \<union> set (event_callbacks e)) r))"

lemma call_good_step:
  assumes "client_inv c" "polite (Invoke call) c"
  shows "good_step (Invoke call) c (Some (client_call call c))"
proof (cases "ops c = []")
  case True
  then show ?thesis
    by (cases call) (auto simp: good_step_def client_defs Let_def bounded_def client_inv.simps callbacks_in_def)
next
  case False
  with assms have call: "call = Close" by simp
  from assms(1) False obtain oper op_open where "ops c = [(oper, op_open)]" "op_inv oper c"
    by (auto elim: client_inv_cases)
  then show ?thesis unfolding call
    by (cases oper) (auto simp: good_step_def client_defs bounded_def client_inv.simps callbacks_in_def)
qed

lemma set_remove_at: "i < length xs \<Longrightarrow> set xs = insert (xs ! i) (set (remove_at i xs))"
  by (subst (1) id_take_nth_drop [of i xs]) (auto simp: remove_at_def)

lemma deadline_good_step:
  assumes "client_inv c" "allowed (DeadlineWait i ec) c"
  shows "good_step (DeadlineWait i ec) c (client_do (DeadlineWait i ec) c)"
proof -
  have mem: "deadline_generation c \<in> set (remove_at i (waits c))"
    if "deadline_generation c \<in> set (waits c)" "waits c ! i \<noteq> deadline_generation c"
    using that assms(2) set_remove_at [of i "waits c"] by auto
  from assms(1) show ?thesis
  proof (cases rule: client_inv_cases)
    case 1
    then show ?thesis by (simp add: good_step_def on_deadline_def close_socket_def callbacks_in_def)
  next
    case (2 oper op_open)
    with assms(2) mem show ?thesis
      by (cases oper) (auto simp: good_step_def on_deadline_def close_socket_def bounded_def client_inv.simps callbacks_in_def)
  qed
qed

text \<open>The two read handlers, by outcome: they give up with an error and a closed socket, go on to the
  body, or answer.\<close>

lemma on_header_outcome:
  assumes "length (read_buffer c) = 7" "length bs \<le> 7"
  obtains (gave_up) buf msg where
      "on_header ec bs tid cb c = Some (close_socket (disarm_deadline (c\<lparr>read_buffer := buf\<rparr>)),
         [run_callback cb (ModbusError msg)])"
    | (goes_on) n where "ec = None" "8 \<le> n" "n \<le> 260"
      "expected_frame_length (bs @ drop (length bs) (read_buffer c)) = Some (Some n)"
      "on_header ec bs tid cb c = Some (start_op (ReadingBody tid cb 7 (n - 7))
         (c\<lparr>read_buffer := bs @ drop (length bs) (read_buffer c) @ replicate (n - 7) 0\<rparr>), [])"
proof -
  let ?buf = "bs @ drop (length bs) (read_buffer c)"
  have st: "store_at (read_buffer c) 0 bs = Some ?buf" using assms by (simp add: store_at_def)
  have len: "length ?buf = 7" using assms by simp
  obtain tl where tl: "expected_frame_length ?buf = Some tl" using expected_frame_length_total by blast
  show thesis
  proof (cases ec)
    case (Some msg)
    show thesis by (rule gave_up) (simp add: on_header_def st Some Let_def)
  next
    case None
    show thesis
    proof (cases tl)
      case None
      with \<open>ec = None\<close> tl show thesis by (intro gave_up [of ?buf]) (simp add: on_header_def st Let_def)
    next
      case (Some n)
      with tl expected_frame_length_SomeD [of ?buf n] have n: "8 \<le> n" "n \<le> 260" by auto
      then have "\<not> (n < length ?buf + 1 \<or> 7 + 253 < n)" unfolding len by simp
      with None Some tl n len show thesis
        by (intro goes_on [of n]) (simp_all add: on_header_def st Let_def)
    qed
  qed
qed

lemma on_body_outcome:
  assumes "length (read_buffer c) = 7 + remaining" "length bs \<le> remaining"
  defines "buf \<equiv> take 7 (read_buffer c) @ bs @ drop (7 + length bs) (read_buffer c)"
  obtains (gave_up) msg where
      "on_body ec bs tid cb 7 c = Some (close_socket (disarm_deadline (c\<lparr>read_buffer := buf\<rparr>)),
         [run_callback cb (ModbusError msg)])"
      "ec \<noteq> None \<or> (\<nexists>resp. decode_response buf = Some (Some resp) \<and> transaction_id resp = tid)"
    | (answers) resp where "ec = None" "decode_response buf = Some (Some resp)" "transaction_id resp = tid"
      "on_body ec bs tid cb 7 c = Some (disarm_deadline (c\<lparr>read_buffer := buf\<rparr>),
         [run_callback cb (if is_exception resp
            then ModbusError (''device exception code '' @ dec_nat (unat (exception_code resp)))
            else Registers (registers resp))])"
proof -
  have st: "store_at (read_buffer c) 7 bs = Some buf" using assms by (simp add: store_at_def)
  obtain r where r: "decode_response buf = Some r" using decode_no_fault by blast
  show thesis
  proof (cases ec)
    case (Some msg)
    then show thesis by (intro gave_up) (simp_all add: on_body_def st Let_def)
  next
    case None
    show thesis
    proof (cases "\<exists>resp. r = Some resp \<and> transaction_id resp = tid")
      case True
      with r None show thesis
        by (auto intro!: answers simp: on_body_def st Let_def disarm_deadline_def)
    next
      case False
      with r None show thesis
        by (cases r) (auto intro!: gave_up simp: on_body_def st Let_def disarm_deadline_def)
    qed
  qed
qed

lemma complete_good_step:
  assumes inv: "client_inv c" and ok: "allowed (Complete i ec bs) c"
  shows "good_step (Complete i ec bs) c (client_do (Complete i ec bs) c)"
proof -
  from inv ok obtain oper op_open where o: "ops c = [(oper, op_open)]" "op_inv oper c"
    by (auto elim: client_inv_cases)
  with ok have i: "i = 0" by simp
  let ?c = "c\<lparr>ops := []\<rparr>"
  have todo: "client_do (Complete i ec bs) c = complete ec bs oper ?c"
    by (simp add: o i remove_at_def)
  show ?thesis
  proof (cases oper)
    case (ReadingHeader tid cb)
    with o ok i have "length (read_buffer ?c) = 7" "length bs \<le> 7" by auto
    then show ?thesis
    proof (cases rule: on_header_outcome [of ?c bs ec tid cb])
      case (gave_up buf msg)
      then show ?thesis unfolding todo ReadingHeader complete.simps gave_up good_step_def
        by (simp add: o ReadingHeader client_defs callbacks_in_def)
    next
      case (goes_on n)
      with o(2) \<open>length bs \<le> 7\<close> \<open>length (read_buffer ?c) = 7\<close> show ?thesis
        unfolding todo ReadingHeader complete.simps goes_on(5) good_step_def
        by (simp add: o(1) ReadingHeader start_op_def client_inv.simps bounded_def callbacks_in_def)
    qed
  next
    case (ReadingBody tid cb p rem)
    with o ok i have b: "length (read_buffer ?c) = 7 + rem" "length bs \<le> rem" "p = 7" by auto
    show ?thesis
    proof (cases rule: on_body_outcome [of ?c rem bs ec tid cb, OF b(1,2)])
      case (1 msg)
      then show ?thesis unfolding todo ReadingBody complete.simps b(3) 1 good_step_def
        by (simp add: o ReadingBody client_defs callbacks_in_def)
    next
      case (2 resp)
      then show ?thesis unfolding todo ReadingBody complete.simps b(3) 2(4) good_step_def
        by (simp add: o ReadingBody client_defs callbacks_in_def)
    qed
  next
    case (Writing tid cb req)
    then show ?thesis using o(2) unfolding todo Writing complete.simps good_step_def
      by (cases ec) (simp_all add: o(1) Writing client_defs client_inv.simps bounded_def callbacks_in_def Let_def)
  next
    case (Resolving k)
    then show ?thesis unfolding todo Resolving complete.simps good_step_def
      by (cases ec) (simp_all add: o(1) Resolving client_defs client_inv.simps callbacks_in_def)
  next
    case (Connecting k)
    then show ?thesis unfolding todo Connecting complete.simps good_step_def
      by (cases ec) (simp_all add: o(1) Connecting client_defs client_inv.simps callbacks_in_def)
  qed
qed

lemma client_do_good:
  "client_inv c \<Longrightarrow> allowed e c \<Longrightarrow> polite e c \<Longrightarrow> good_step e c (client_do e c)"
  by (cases e) (auto simp: call_good_step deadline_good_step complete_good_step
    simp del: client_do.simps(2,3) allowed.simps polite.simps)

lemma client_run_good:
  assumes "client_run c es c' rs" "client_inv c"
  shows "client_inv c' \<and> map reply_token rs @ owed c' = owed c @ concat (map event_tokens es)"
  using assms
proof (induction rule: client_run.induct)
  case (step_run c es c1 rs e c2 rs2)
  from client_do_good [of c1 e] step_run have "good_step e c1 (Some (c2, rs2))" by simp
  then have "client_inv c2" "map reply_token rs2 @ owed c2 = owed c1 @ event_tokens e"
    by (auto simp: good_step_def)
  moreover have "map reply_token rs @ owed c1 = owed c @ concat (map event_tokens es)"
    using step_run by simp
  from arg_cong [OF this, of "\<lambda>ts. ts @ event_tokens e"]
  have "map reply_token rs @ owed c1 @ event_tokens e = owed c @ concat (map event_tokens (es @ [e]))"
    by simp
  ultimately show ?case by simp
qed simp

lemma client_run_append:
  "client_run c2 es2 c3 rs2 \<Longrightarrow> client_run c1 es1 c2 rs1 \<Longrightarrow> client_run c1 (es1 @ es2) c3 (rs1 @ rs2)"
proof (induction rule: client_run.induct)
  case (step_run c es c1' rs e c2' rs2)
  from client_run.step_run [OF step_run.IH [OF step_run.prems] step_run.hyps(2-4)] show ?case by simp
qed simp

lemma client_run_one:
  "allowed e c \<Longrightarrow> polite e c \<Longrightarrow> client_do e c = Some (c', rs) \<Longrightarrow> client_run c [e] c' rs"
  using client_run.step_run [OF client_run.done_run, of e c c' rs] by simp

lemma client_run_ConsE:
  assumes "client_run c (e # es) c' rs"
  obtains c1 rs1 rs2 where "allowed e c" "polite e c" "client_do e c = Some (c1, rs1)"
    "client_run c1 es c' rs2" "rs = rs1 @ rs2"
proof -
  have "\<exists>c1 rs1 rs2. allowed e c \<and> polite e c \<and> client_do e c = Some (c1, rs1) \<and>
      client_run c1 es c' rs2 \<and> rs = rs1 @ rs2" if "client_run c ees c' rs" "ees = e # es" for ees
    using that
  proof (induction arbitrary: es rule: client_run.induct)
    case (step_run c ees c1 rs e' c2 rs2)
    show ?case
    proof (cases es rule: rev_cases)
      case Nil
      with step_run.prems have "ees = []" "e' = e" by simp_all
      with step_run.hyps show ?thesis
        by (auto simp: client_run_Nil Nil)
    next
      case (snoc es1 e1)
      with step_run.prems have "ees = e # es1" "e' = e1" by simp_all
      with step_run snoc show ?thesis
        by simp (metis append.assoc client_run.step_run)
    qed
  qed simp
  from this [OF assms refl] show thesis using that by blast
qed

text \<open>Runs can be computed.\<close>

fun client_exec :: "('c, 'k) ModbusClient \<Rightarrow> ('c, 'k) ClientEvent list \<Rightarrow> ('c, 'k) handled option" where
  "client_exec c [] = Some (c, [])"
| "client_exec c (e # es) = (if allowed e c \<and> polite e c then do {
     (c1, rs1) \<leftarrow> client_do e c; (c2, rs2) \<leftarrow> client_exec c1 es; Some (c2, rs1 @ rs2) } else None)"

lemma client_exec_run: "client_exec c es = Some (c', rs) \<Longrightarrow> client_run c es c' rs"
proof (induction es arbitrary: c rs)
  case (Cons e es)
  then obtain c1 rs1 rs2 where *: "allowed e c" "polite e c" "client_do e c = Some (c1, rs1)"
    "client_exec c1 es = Some (c', rs2)" "rs = rs1 @ rs2"
    by (auto split: if_splits bind_splits)
  from client_run_append [OF Cons.IH [OF *(4)] client_run_one [OF *(1-3)]] *(5) show ?case by simp
qed (simp add: client_run_Nil)

text \<open>A run without calls: completions are counted against what is left.\<close>

lemma client_run_left:
  assumes "client_run c es c' rs" "client_inv c" "\<forall>call. Invoke call \<notin> set es"
  shows "length (filter is_completion es) + client_left c' \<le> client_left c"
  using assms
proof (induction rule: client_run.induct)
  case (step_run c es c1 rs e c2 rs2)
  then have IH: "length (filter is_completion es) + client_left c1 \<le> client_left c" by auto
  from client_run_good [OF step_run.hyps(1) step_run.prems(1)] have "client_inv c1" ..
  from client_do_good [OF this step_run.hyps(2,3)] step_run.hyps(4) have
    good: "good_step e c1 (Some (c2, rs2))" by simp
  from step_run.prems(2) have "\<forall>call. e \<noteq> Invoke call" by auto
  with good have "if is_completion e then client_left c2 < client_left c1 else ops c2 = ops c1"
    by (auto simp: good_step_def)
  with IH show ?case by (cases "is_completion e") simp_all
qed simp

lemma client_left_inv: "client_inv c \<Longrightarrow> client_left c \<le> 3 \<and> (client_left c = 0 \<longleftrightarrow> ops c = [])"
proof (erule client_inv_cases)
  fix oper op_open assume "ops c = [(oper, op_open)]"
  then show ?thesis by (cases oper) auto
qed simp

lemma client_inv_create [simp]: "client_inv (ModbusClient_create t)" "owed (ModbusClient_create t) = []"
  by (simp_all add: ModbusClient_create_def)

lemma fail_allowed:
  assumes "client_inv c" "ops c \<noteq> []"
  shows "allowed (Complete 0 (Some msg) []) c"
  using assms
proof (cases rule: client_inv_cases)
  case (2 oper op_open)
  then show ?thesis by (cases oper) auto
qed simp

text \<open>A run for the witnesses: connect, then a read of one register that is sent.\<close>

definition demo_run :: "(nat, nat) ClientEvent list" where
  "demo_run = [Invoke (Connect 7), Complete 0 None [], Complete 0 None [], Invoke (ReadHolding 1 0 1 8)]"

definition demo_client :: "(nat, nat) ModbusClient" where
  "demo_client = \<lparr>timeout = 3000, is_connected = True, timed_out = False, deadline_generation = 3,
     next_transaction_id = 2, read_buffer = [], socket_open = True,
     ops = [(Writing 1 (ReadCallback 1 8) [0, 1, 0, 0, 0, 6, 1, 3, 0, 0, 0, 1], True)], waits = [1, 3]\<rparr>"

lemma demo_run: "client_run (ModbusClient_create 3000) demo_run demo_client [Done 7 True]"
  by (rule client_exec_run) (simp add: demo_run_def demo_client_def ModbusClient_create_def client_defs
    remove_at_def Let_def encode_request_def push_u16_def kProtocolId_def read_holding_registers_def)

section \<open>Properties\<close>



text \<open>A call always comes to an end: from any state a client can reach, at most three completions
  of Asio operations, whatever their results and however timeouts fall between them, bring the
  callback; until then there is a completion Asio still owes.\<close>

lemma calls_terminate:
  assumes "client_run (ModbusClient_create t) es c rs" and "client_run c es' c' rs'"
    and "\<forall>call. Invoke call \<notin> set es'"
  shows "length (filter is_completion es') \<le> 3 \<and>
    (if ops c' = [] then map reply_token rs' = owed c
     else rs' = [] \<and> (\<exists>msg. allowed (Complete 0 (Some msg) []) c'))"
proof -
  from client_run_good [OF assms(1)] have inv: "client_inv c" by simp
  note good = client_run_good [OF assms(2) inv]
  then have inv': "client_inv c'" ..
  have "event_tokens e = []" if "e \<in> set es'" for e
  proof (cases e)
    case (Invoke call)
    with that assms(3) show ?thesis by blast
  qed simp_all
  then have "concat (map event_tokens es') = []" by auto
  with good have tok: "map reply_token rs' @ owed c' = owed c" by simp
  have "length (filter is_completion es') \<le> 3"
    using client_run_left [OF assms(2) inv assms(3)] client_left_inv [OF inv] by simp
  moreover have "rs' = []" if "ops c' \<noteq> []"
  proof -
    from inv have "length (owed c) \<le> 1" by (auto elim: client_inv_cases)
    moreover from tok have "length rs' + length (ops c') = length (owed c)"
      by (metis length_append length_map)
    ultimately show ?thesis using that by (cases rs'; cases "ops c'") auto
  qed
  ultimately show ?thesis using tok fail_allowed [OF inv'] by auto
qed

lemma calls_terminate_example:
  "\<exists>c'. client_exec demo_client [DeadlineWait 1 False, Complete 0 (Some ''aborted'') []] =
     Some (c', [Answered 8 (ModbusError ''write failed: timed out'')]) \<and> ops c' = [] \<and>
     map reply_token [Answered 8 (ModbusError ''write failed: timed out'')] = owed demo_client"
proof -
  let ?es = "[DeadlineWait 1 False, Complete 0 (Some ''aborted'') []] :: (nat, nat) ClientEvent list"
  obtain c' where c': "client_exec demo_client ?es =
      Some (c', [Answered 8 (ModbusError ''write failed: timed out'')])" "ops c' = []"
    by (simp add: demo_client_def client_defs remove_at_def Let_def)
  from calls_terminate [OF demo_run client_exec_run [OF c'(1)]] c'(2) have
    "map reply_token [Answered 8 (ModbusError ''write failed: timed out'')] = owed demo_client" by simp
  with c' show ?thesis by blast
qed

text \<open>C4. What a read of registers delivers: after a complete exchange, the callback gets registers
  exactly when the bytes received are a well-formed, non-exception response frame with the request's
  transaction id and at least the registers asked for, and it gets that frame's registers; the
  connection survives exactly when the bytes are a well-formed frame with the request's id.\<close>

theorem read_exchange:
  assumes "call = ReadHolding u a q k \<or> call = ReadInput u a q k"
    and "ops c = []" and "is_connected c" and "length hdr = 7"
    and "client_run c [Invoke call, Complete 0 None [], Complete 0 None hdr, Complete 0 None body] c' rs"
  shows "(\<exists>result. rs = [Answered k result] \<and>
      (\<forall>regs. result = Registers regs \<longleftrightarrow> (\<exists>resp. is_frame (hdr @ body) resp \<and>
         transaction_id resp = next_transaction_id c \<and> \<not> is_exception resp \<and>
         registers resp = regs \<and> unat q \<le> length regs))) \<and>
    (is_connected c' \<longleftrightarrow> (\<exists>resp. is_frame (hdr @ body) resp \<and> transaction_id resp = next_transaction_id c))"
proof -
  let ?tid = "next_transaction_id c" and ?cb = "ReadCallback q k"
  from assms(5) obtain c1 rs1 c2 rs2 c3 rs3 rs4 where
    1: "client_do (Invoke call) c = Some (c1, rs1)" and
    2: "client_do (Complete 0 None []) c1 = Some (c2, rs2)" and
    3: "client_do (Complete 0 None hdr) c2 = Some (c3, rs3)" and
    4: "client_do (Complete 0 None body) c3 = Some (c', rs4)" "allowed (Complete 0 None body) c3" and
    rs: "rs = rs1 @ rs2 @ rs3 @ rs4"
    by (elim client_run_ConsE) (auto simp: client_run_Nil)
  from 1 assms(1-3) obtain req where c1: "ops c1 = [(Writing ?tid ?cb req, socket_open c)]"
    "is_connected c1" "rs1 = []"
    by (auto simp: client_defs Let_def)
  with 2 have c2: "ops c2 = [(ReadingHeader ?tid ?cb, socket_open c1)]" "length (read_buffer c2) = 7"
    "is_connected c2" "rs2 = []"
    by (auto simp: client_defs remove_at_def)
  let ?d = "c2\<lparr>ops := []\<rparr>"
  have h: "length (read_buffer ?d) = 7" "length hdr \<le> 7" using c2(2) assms(4) by simp_all
  have 3: "on_header None hdr ?tid ?cb ?d = Some (c3, rs3)" using 3 by (simp add: c2(1) remove_at_def)
  show ?thesis
  proof (cases rule: on_header_outcome [OF h, of None ?tid ?cb])
    case (1 buf msg)
    with 3 have "ops c3 = []" by (auto simp: client_defs)
    with 4(2) show ?thesis by simp
  next
    case (2 n)
    with 3 assms(4) c2(2,3) have c3: "ops c3 = [(ReadingBody ?tid ?cb 7 (n - 7), socket_open c2)]"
      "read_buffer c3 = hdr @ replicate (n - 7) 0" "is_connected c3" "rs3 = []"
      by (auto simp: start_op_def)
    let ?e = "c3\<lparr>ops := []\<rparr>"
    have b: "length (read_buffer ?e) = 7 + (n - 7)" "length body \<le> n - 7" "length body = n - 7"
      using 4(2) c3 assms(4) by simp_all
    have buf: "take 7 (read_buffer ?e) @ body @ drop (7 + length body) (read_buffer ?e) = hdr @ body"
      using assms(4) b(3) by (simp add: c3(2))
    have 4: "on_body None body ?tid ?cb 7 ?e = Some (c', rs4)" using 4(1) by (simp add: c3(1) remove_at_def)
    have frame: "is_frame (hdr @ body) resp \<longleftrightarrow> decode_response (hdr @ body) = Some (Some resp)" for resp
      using decode_accepts_frame decode_only_frames by blast
    show ?thesis
    proof (cases rule: on_body_outcome [OF b(1,2), of None ?tid ?cb, unfolded buf])
      case (1 msg)
      with 4 have "rs4 = [Answered k (ModbusError msg)]" "\<not> is_connected c'"
        by (auto simp: client_defs)
      with 1(2) show ?thesis unfolding frame rs c1(3) c2(4) c3(4) by auto
    next
      case (2 resp)
      with 4 c3(3) have "rs4 = [run_callback ?cb (if is_exception resp
            then ModbusError (''device exception code '' @ dec_nat (unat (exception_code resp)))
            else Registers (registers resp))]" "is_connected c'"
        by (auto simp: disarm_deadline_def)
      with 2(2,3) show ?thesis unfolding frame rs c1(3) c2(4) c3(4) by auto
    qed
  qed
qed

theorem read_exchange_witness:
  "\<exists>c'. client_exec (demo_client\<lparr>ops := []\<rparr>) [Invoke (ReadInput 1 9 1 (5 :: nat)), Complete 0 None [],
       Complete 0 None [0, 2, 0, 0, 0, 5, 1], Complete 0 None [4, 2, 0xAB, 0xCD]] =
     Some (c', [Answered 5 (Registers [0xABCD])]) \<and> is_connected c' \<and>
     (\<exists>resp. is_frame [0, 2, 0, 0, 0, 5, 1, 4, 2, 0xAB, 0xCD] resp \<and> transaction_id resp = 2)"
proof -
  let ?c = "demo_client\<lparr>ops := []\<rparr>"
  let ?es = "[Invoke (ReadInput 1 9 1 5), Complete 0 None [], Complete 0 None [0, 2, 0, 0, 0, 5, 1],
    Complete 0 None [4, 2, 0xAB, 0xCD]]"
  have "map_option (\<lambda>(c, rs). (is_connected c, rs)) (client_exec ?c ?es) =
      Some (True, [Answered 5 (Registers [0xABCD])])"
    by code_simp
  then obtain c' where c': "client_exec ?c ?es = Some (c', [Answered 5 (Registers [0xABCD])])" "is_connected c'"
    by auto
  from read_exchange [OF _ _ _ _ client_exec_run [OF c'(1)], of 1 9 1 5] c'(2)
  have "\<exists>resp. is_frame [0, 2, 0, 0, 0, 5, 1, 4, 2, 0xAB, 0xCD] resp \<and> transaction_id resp = 2"
    by (simp add: demo_client_def)
  with c' show ?thesis by blast
qed

text \<open>A request never outlives its deadline unnoticed: while it waits for its reply, its deadline is
  running or the socket has been closed; when the deadline runs out the socket is closed and the
  client disconnected, and whatever then starts on the closed socket can only fail.\<close>

theorem request_deadline:
  assumes "client_run (ModbusClient_create t) es c rs"
    and "ops c = [(oper, op_open)]" and "is_request_op oper"
  shows "(deadline_generation c \<in> set (waits c) \<or> \<not> socket_open c) \<and>
    (\<forall>i c' rs'. waits c ! i = deadline_generation c \<longrightarrow>
       client_do (DeadlineWait i False) c = Some (c', rs') \<longrightarrow>
       \<not> socket_open c' \<and> \<not> is_connected c' \<and> timed_out c' \<and> ops c' = ops c \<and> rs' = [] \<and>
       \<not> transfer_ok oper (socket_open c') None bs)"
proof -
  from client_run_good [OF assms(1)] have "op_inv oper c" using assms(2) by simp
  with assms(3) have "bounded c" by (cases oper) auto
  moreover have "\<not> transfer_ok oper False None bs" using assms(3) by (cases oper) auto
  ultimately show ?thesis
    by (auto simp: bounded_def on_deadline_def close_socket_def)
qed

theorem request_deadline_witness:
  "deadline_generation demo_client \<in> set (waits demo_client)"
  using request_deadline [OF demo_run, of "Writing 1 (ReadCallback 1 8) [0, 1, 0, 0, 0, 6, 1, 3, 0, 0, 0, 1]" True]
  by (simp add: demo_client_def)

text \<open>C5. Connecting can outlive its deadline, though the class promises that every connect is bounded:
  when the deadline expires while a successful resolve is already queued, closing the socket stops
  nothing, and the connect that follows runs with no deadline at all.\<close>

theorem connect_without_deadline:
  "\<exists>c. client_run (ModbusClient_create t) [Invoke (Connect k), DeadlineWait 0 False, Complete 0 None []] c [] \<and>
    ops c = [(Connecting k, True)] \<and> waits c = [] \<and> socket_open c \<and> timed_out c"
proof -
  have "\<exists>c. client_exec (ModbusClient_create t)
      [Invoke (Connect k), DeadlineWait 0 False, Complete 0 None []] = Some (c, []) \<and>
    ops c = [(Connecting k, True)] \<and> waits c = [] \<and> socket_open c \<and> timed_out c"
    by (simp add: ModbusClient_create_def client_defs remove_at_def Let_def)
  then show ?thesis using client_exec_run by blast
qed

end
