(* ===== verification/RegisterDecoder.thy ===== *)
theory RegisterDecoder
  imports CoreTypes "HOL-Library.Multiset"
begin

text \<open>
  \<open>src/protocol/register_decoder.cpp\<close>: grouping a device's sensors into read requests
  (\<open>plan_reads\<close>), interpreting raw registers (\<open>decode_raw\<close>) and extracting a sensor's value from a
  block's response (\<open>extract_value\<close>). \<open>std::sort\<close> leaves the order of equal keys open, so the
  planner takes the sort as an argument and its properties hold for every sort that meets the
  standard's contract (\<open>std_sort\<close>). Register reads are checked reads.
\<close>

section \<open>Data\<close>

record ReadBlock =
  block_register_type :: RegisterType
  start_address :: u16
  quantity :: u16
  sensor_indices :: "nat list"

text \<open>What the standard promises of \<open>std::sort\<close> with a key comparison.\<close>

type_synonym sort_fn = "(nat \<Rightarrow> nat) \<Rightarrow> nat list \<Rightarrow> nat list"

definition std_sort :: "sort_fn \<Rightarrow> bool" where
  "std_sort srt \<longleftrightarrow> (\<forall>key xs. mset (srt key xs) = mset xs \<and> sorted (map key (srt key xs)))"

lemma std_sort_sort_key: "std_sort sort_key"
  by (simp add: std_sort_def)

section \<open>Planning\<close>

text \<open>The addresses are widened to 32 bits before they are added (\<open>std::uint32_t begin\<close>), where
  nothing can wrap; the narrowing casts back to 16 bits are \<open>of_nat\<close>. The loop's \<open>current\<close> with
  its \<open>open\<close> flag is an optional block.\<close>

definition plan_sensor ::
  "SensorConfig list \<Rightarrow> RegisterType \<Rightarrow> u16 \<Rightarrow> u16 \<Rightarrow> ReadBlock list \<times> ReadBlock option \<Rightarrow> nat \<Rightarrow>
   ReadBlock list \<times> ReadBlock option" where
  "plan_sensor ss type max_quantity max_gap st index =
     (let sensor = ss ! index;
          begin = unat (address sensor);
          end = begin + unat (register_count (data_type sensor));
          fresh = \<lparr>block_register_type = type, start_address = address sensor,
                   quantity = of_nat (end - begin), sensor_indices = [index]\<rparr>
      in case st of
           (blocks, None) \<Rightarrow> (blocks, Some fresh)
         | (blocks, Some current) \<Rightarrow>
             let block_end = unat (start_address current) + unat (quantity current);
                 gap = (if begin > block_end then begin - block_end else 0);
                 merged_end = max block_end end
             in if gap \<le> unat max_gap \<and> merged_end - unat (start_address current) \<le> unat max_quantity
                then (blocks, Some (current
                  \<lparr>quantity := of_nat (merged_end - unat (start_address current)),
                   sensor_indices := sensor_indices current @ [index]\<rparr>))
                else (blocks @ [current], Some fresh))"

definition plan_order :: "sort_fn \<Rightarrow> SensorConfig list \<Rightarrow> RegisterType \<Rightarrow> nat list" where
  "plan_order srt ss type =
     srt (\<lambda>i. unat (address (ss ! i))) (filter (\<lambda>i. register_type (ss ! i) = type) [0..<length ss])"

definition plan_type ::
  "sort_fn \<Rightarrow> SensorConfig list \<Rightarrow> u16 \<Rightarrow> u16 \<Rightarrow> RegisterType \<Rightarrow> ReadBlock list" where
  "plan_type srt ss max_quantity max_gap type =
     (case foldl (plan_sensor ss type max_quantity max_gap) ([], None) (plan_order srt ss type) of
        (blocks, None) \<Rightarrow> blocks | (blocks, Some current) \<Rightarrow> blocks @ [current])"

definition plan_reads :: "sort_fn \<Rightarrow> SensorConfig list \<Rightarrow> u16 \<Rightarrow> u16 \<Rightarrow> ReadBlock list" where
  "plan_reads srt ss max_quantity max_gap =
     concat (map (plan_type srt ss max_quantity max_gap) [RT_holding, RT_input])"

section \<open>Decoding\<close>

definition decode_raw :: "u16 list \<Rightarrow> DataType \<Rightarrow> WordOrder \<Rightarrow> double ub" where
  "decode_raw regs type order =
     (if type = DT_uint16 then map_option (\<lambda>r. d_of_int (uint r)) (vec_at regs 0)
      else if type = DT_int16 then map_option (\<lambda>r. d_of_int (sint r)) (vec_at regs 0)
      else do {
        first \<leftarrow> vec_at regs 0;
        second \<leftarrow> vec_at regs 1;
        let hi = (if order = WO_big then ucast first else ucast second :: u32);
        let lo = (if order = WO_big then ucast second else ucast first :: u32);
        let bits = push_bit 16 hi OR lo;
        Some (case type of
            DT_uint32 \<Rightarrow> d_of_int (uint bits)
          | DT_int32 \<Rightarrow> d_of_int (sint bits)
          | DT_float32 \<Rightarrow> f_to_double bits
          | _ \<Rightarrow> 0) })"

definition extract_value :: "ReadBlock \<Rightarrow> u16 list \<Rightarrow> SensorConfig \<Rightarrow> double option ub" where
  "extract_value block regs sensor =
     (let off = unat (address sensor) - unat (start_address block);
          cnt = unat (register_count (data_type sensor))
      in if address sensor < start_address block \<or> length regs < off + cnt then Some None
         else do {
           raw \<leftarrow> decode_raw (take cnt (drop off regs)) (data_type sensor) (word_order sensor);
           let v = d_add (d_mul raw (scale sensor)) (offset sensor);
           Some (if d_finite v then Some v else None) })"

section \<open>Plans are well formed\<close>

lemma register_count_cases: "unat (register_count t) = 1 \<or> unat (register_count t) = 2"
  by (simp add: register_count_def)

abbreviation sensor_begin :: "SensorConfig \<Rightarrow> nat" where
  "sensor_begin s \<equiv> unat (address s)"

abbreviation sensor_end :: "SensorConfig \<Rightarrow> nat" where
  "sensor_end s \<equiv> unat (address s) + unat (register_count (data_type s))"

abbreviation block_end :: "ReadBlock \<Rightarrow> nat" where
  "block_end b \<equiv> unat (start_address b) + unat (quantity b)"

text \<open>A block serves sensors of its own table, covers their registers, respects the limit on the
  number of registers, starts and ends with a sensor, and leaves no unused run longer than the gap
  limit.\<close>

definition block_ok :: "SensorConfig list \<Rightarrow> u16 \<Rightarrow> u16 \<Rightarrow> ReadBlock \<Rightarrow> bool" where
  "block_ok ss max_quantity max_gap b \<longleftrightarrow>
     0 < quantity b \<and> quantity b \<le> max_quantity \<and>
     (\<forall>i \<in> set (sensor_indices b). i < length ss \<and>
        register_type (ss ! i) = block_register_type b \<and>
        unat (start_address b) \<le> sensor_begin (ss ! i) \<and> sensor_end (ss ! i) \<le> block_end b) \<and>
     (\<exists>i \<in> set (sensor_indices b). sensor_begin (ss ! i) = unat (start_address b)) \<and>
     (\<exists>i \<in> set (sensor_indices b). sensor_end (ss ! i) = block_end b) \<and>
     (\<forall>x. unat (start_address b) \<le> x \<longrightarrow> x < block_end b \<longrightarrow>
        (\<exists>i \<in> set (sensor_indices b). sensor_begin (ss ! i) \<le> x \<and>
           x < sensor_end (ss ! i) + unat max_gap))"

text \<open>The state of the loop: closed blocks and the open one are well formed, and together they
  serve the sensors seen so far.\<close>

fun all_blocks :: "ReadBlock list \<times> ReadBlock option \<Rightarrow> ReadBlock list" where
  "all_blocks (bs, None) = bs"
| "all_blocks (bs, Some b) = bs @ [b]"

lemma plan_type_all_blocks:
  "plan_type srt ss mq mg type =
     all_blocks (foldl (plan_sensor ss type mq mg) ([], None) (plan_order srt ss type))"
  by (auto simp: plan_type_def split: prod.splits option.splits)

lemma fresh_block_ok:
  assumes "i < length ss" "register_type (ss ! i) = type" "2 \<le> mq"
  shows "block_ok ss mq mg \<lparr>block_register_type = type, start_address = address (ss ! i),
    quantity = of_nat (sensor_end (ss ! i) - sensor_begin (ss ! i)), sensor_indices = [i]\<rparr>"
proof -
  have "register_count (data_type (ss ! i)) \<le> mq" "register_count (data_type (ss ! i)) \<noteq> 0"
    using register_count_cases [of "data_type (ss ! i)"] assms(3)
    by (auto simp: word_le_nat_alt)
  then show ?thesis using assms by (auto simp: block_ok_def word_gt_0)
qed

text \<open>Appending the next sensor in address order to the open block keeps it well formed.\<close>

lemma merged_block_ok:
  assumes b: "block_ok ss mq mg b" and i: "i < length ss" "register_type (ss ! i) = block_register_type b"
    and sorted: "\<forall>j \<in> set (sensor_indices b). sensor_begin (ss ! j) \<le> sensor_begin (ss ! i)"
    and gap: "sensor_begin (ss ! i) \<le> block_end b + unat mg"
    and fits: "max (block_end b) (sensor_end (ss ! i)) - unat (start_address b) \<le> unat mq"
  shows "block_ok ss mq mg (b\<lparr>quantity :=
      of_nat (max (block_end b) (sensor_end (ss ! i)) - unat (start_address b)),
    sensor_indices := sensor_indices b @ [i]\<rparr>)" (is "block_ok ss mq mg ?m")
proof -
  let ?bs = "unat (start_address b)" and ?me = "max (block_end b) (sensor_end (ss ! i))"
  from b obtain j k where j: "j \<in> set (sensor_indices b)" "sensor_begin (ss ! j) = ?bs"
    and k: "k \<in> set (sensor_indices b)" "sensor_end (ss ! k) = block_end b"
    by (auto simp: block_ok_def)
  have le: "?bs \<le> sensor_begin (ss ! i)" using sorted j by fastforce
  have q: "0 < unat (quantity b)" using b by (simp add: block_ok_def word_less_nat_alt)
  have "unat mq < 2 ^ 16" using unsigned_less [of mq] by simp
  then have "?me - ?bs < 2 ^ 16" using fits by linarith
  then have uq: "unat (of_nat (?me - ?bs) :: u16) = ?me - ?bs"
    by (intro unat_of_nat_less) simp
  have me: "?bs < ?me" using q by simp
  have be: "block_end ?m = ?me" using uq me by simp
  have cover: "\<exists>n \<in> set (sensor_indices ?m). sensor_begin (ss ! n) \<le> x \<and>
      x < sensor_end (ss ! n) + unat mg" if x: "?bs \<le> x" "x < ?me" for x
  proof -
    consider "x < block_end b" | "sensor_begin (ss ! i) \<le> x" "x < sensor_end (ss ! i)"
      | "block_end b \<le> x" "x < sensor_begin (ss ! i)" using x by linarith
    then show ?thesis
    proof cases
      case 1
      with b x(1) show ?thesis by (auto simp: block_ok_def)
    next
      case 2
      then show ?thesis by auto
    next
      case 3
      then show ?thesis using k gap by (intro bexI [of _ k]) auto
    qed
  qed
  have "\<exists>n \<in> set (sensor_indices ?m). sensor_end (ss ! n) = ?me"
    using k by (cases "block_end b \<le> sensor_end (ss ! i)") (auto simp: max_def)
  moreover have "\<forall>n \<in> set (sensor_indices ?m). n < length ss \<and>
      register_type (ss ! n) = block_register_type b \<and> ?bs \<le> sensor_begin (ss ! n) \<and>
      sensor_end (ss ! n) \<le> ?me"
    using b i le by (auto simp: block_ok_def)
  moreover have "0 < quantity ?m" "quantity ?m \<le> mq"
    using uq me fits by (simp_all add: word_less_nat_alt word_le_nat_alt)
  ultimately show ?thesis
    using j cover unfolding block_ok_def be by (auto simp del: max_less_iff_conj)
qed

definition plan_inv :: "SensorConfig list \<Rightarrow> RegisterType \<Rightarrow> u16 \<Rightarrow> u16 \<Rightarrow> nat list \<Rightarrow>
    ReadBlock list \<times> ReadBlock option \<Rightarrow> bool" where
  "plan_inv ss type mq mg seen st \<longleftrightarrow>
     (\<forall>b \<in> set (all_blocks st). block_ok ss mq mg b \<and> block_register_type b = type) \<and>
     concat (map sensor_indices (all_blocks st)) = seen \<and> (snd st = None \<longrightarrow> fst st = [])"

lemma plan_sensor_open:
  "plan_sensor ss type mq mg (bs, Some b) i =
     (if (if sensor_begin (ss ! i) > block_end b then sensor_begin (ss ! i) - block_end b else 0)
           \<le> unat mg \<and>
         max (block_end b) (sensor_end (ss ! i)) - unat (start_address b) \<le> unat mq
      then (bs, Some (b\<lparr>quantity :=
             of_nat (max (block_end b) (sensor_end (ss ! i)) - unat (start_address b)),
             sensor_indices := sensor_indices b @ [i]\<rparr>))
      else (bs @ [b], Some \<lparr>block_register_type = type, start_address = address (ss ! i),
             quantity = of_nat (sensor_end (ss ! i) - sensor_begin (ss ! i)),
             sensor_indices = [i]\<rparr>))"
  by (simp only: plan_sensor_def Let_def prod.case option.case)

lemma plan_sensor_inv:
  assumes inv: "plan_inv ss type mq mg seen st" and i: "i < length ss" "register_type (ss ! i) = type"
    and sorted: "\<forall>j \<in> set seen. sensor_begin (ss ! j) \<le> sensor_begin (ss ! i)" and mq: "2 \<le> mq"
  shows "plan_inv ss type mq mg (seen @ [i]) (plan_sensor ss type mq mg st i)"
proof (cases st)
  case (Pair bs cur)
  show ?thesis
  proof (cases cur)
    case None
    with inv Pair fresh_block_ok [OF i mq] show ?thesis
      by (auto simp: plan_inv_def plan_sensor_def Let_def)
  next
    case (Some b)
    let ?gap = "if sensor_begin (ss ! i) > block_end b then sensor_begin (ss ! i) - block_end b else 0"
    let ?merged = "max (block_end b) (sensor_end (ss ! i)) - unat (start_address b)"
    show ?thesis
    proof (cases "?gap \<le> unat mg \<and> ?merged \<le> unat mq")
      case True
      have "block_ok ss mq mg b" "block_register_type b = type"
        "\<forall>j \<in> set (sensor_indices b). sensor_begin (ss ! j) \<le> sensor_begin (ss ! i)"
        using inv Pair Some sorted by (auto simp: plan_inv_def)
      moreover have "sensor_begin (ss ! i) \<le> block_end b + unat mg"
        using True by (auto split: if_splits)
      ultimately have "block_ok ss mq mg (b\<lparr>quantity := of_nat ?merged,
          sensor_indices := sensor_indices b @ [i]\<rparr>)"
        using merged_block_ok [of ss mq mg b i] i True by simp
      then show ?thesis
        using inv unfolding Pair Some plan_sensor_open if_P [OF True] by (auto simp: plan_inv_def)
    next
      case False
      then show ?thesis
        using inv fresh_block_ok [OF i mq] unfolding Pair Some plan_sensor_open if_not_P [OF False]
        by (auto simp: plan_inv_def)
    qed
  qed
qed

lemma foldl_plan_sensor_inv:
  assumes "plan_inv ss type mq mg seen st" "2 \<le> mq"
    and "\<forall>i \<in> set order. i < length ss \<and> register_type (ss ! i) = type"
    and "sorted (map (\<lambda>i. sensor_begin (ss ! i)) (seen @ order))"
  shows "plan_inv ss type mq mg (seen @ order) (foldl (plan_sensor ss type mq mg) st order)"
  using assms
proof (induction order arbitrary: seen st)
  case Nil
  then show ?case by simp
next
  case (Cons i order)
  have "plan_inv ss type mq mg (seen @ [i]) (plan_sensor ss type mq mg st i)"
    using Cons.prems by (intro plan_sensor_inv) (auto simp: sorted_append)
  from Cons.IH [OF this] Cons.prems show ?case by simp
qed

lemma plan_order_sort:
  assumes "std_sort srt"
  shows "mset (plan_order srt ss type) =
      mset (filter (\<lambda>i. register_type (ss ! i) = type) [0..<length ss])"
    and "set (plan_order srt ss type) = {i. i < length ss \<and> register_type (ss ! i) = type}"
    and "sorted (map (\<lambda>i. sensor_begin (ss ! i)) (plan_order srt ss type))"
proof -
  show m: "mset (plan_order srt ss type) =
      mset (filter (\<lambda>i. register_type (ss ! i) = type) [0..<length ss])"
    using assms by (simp add: std_sort_def plan_order_def)
  show "set (plan_order srt ss type) = {i. i < length ss \<and> register_type (ss ! i) = type}"
    using arg_cong [OF m, of set_mset] by auto
  show "sorted (map (\<lambda>i. sensor_begin (ss ! i)) (plan_order srt ss type))"
    using assms by (simp add: std_sort_def plan_order_def)
qed

lemma plan_type_inv:
  assumes "std_sort srt" "2 \<le> mq"
  shows "\<forall>b \<in> set (plan_type srt ss mq mg type). block_ok ss mq mg b \<and> block_register_type b = type"
    and "concat (map sensor_indices (plan_type srt ss mq mg type)) = plan_order srt ss type"
proof -
  have "plan_inv ss type mq mg ([] @ plan_order srt ss type)
      (foldl (plan_sensor ss type mq mg) ([], None) (plan_order srt ss type))"
    using plan_order_sort [OF assms(1), of ss type] assms(2)
    by (intro foldl_plan_sensor_inv) (auto simp: plan_inv_def)
  then show "\<forall>b \<in> set (plan_type srt ss mq mg type). block_ok ss mq mg b \<and> block_register_type b = type"
    "concat (map sensor_indices (plan_type srt ss mq mg type)) = plan_order srt ss type"
    by (simp_all add: plan_inv_def plan_type_all_blocks)
qed

lemma plan_reads_inv:
  assumes "std_sort srt" "2 \<le> mq"
  shows "\<forall>b \<in> set (plan_reads srt ss mq mg). block_ok ss mq mg b"
    and "mset (concat (map sensor_indices (plan_reads srt ss mq mg))) = mset [0..<length ss]"
proof -
  show "\<forall>b \<in> set (plan_reads srt ss mq mg). block_ok ss mq mg b"
    using plan_type_inv(1) [OF assms, of ss mg] by (auto simp: plan_reads_def)
  have "mset (concat (map sensor_indices (plan_reads srt ss mq mg))) =
      filter_mset (\<lambda>i. register_type (ss ! i) = RT_holding) (mset [0..<length ss]) +
      filter_mset (\<lambda>i. register_type (ss ! i) = RT_input) (mset [0..<length ss])"
    using plan_type_inv(2) [OF assms, of ss mg] plan_order_sort(1) [OF assms(1), of ss]
    by (simp add: plan_reads_def)
  also have "(\<lambda>i. register_type (ss ! i) = RT_input) = (\<lambda>i. register_type (ss ! i) \<noteq> RT_holding)"
    by (rule ext) (metis RegisterType.exhaust RegisterType.distinct(1))
  also have "filter_mset (\<lambda>i. register_type (ss ! i) = RT_holding) (mset [0..<length ss]) +
      filter_mset (\<lambda>i. register_type (ss ! i) \<noteq> RT_holding) (mset [0..<length ss]) = mset [0..<length ss]"
    by (rule multiset_partition [symmetric])
  finally show "mset (concat (map sensor_indices (plan_reads srt ss mq mg))) = mset [0..<length ss]" .
qed

section \<open>Properties\<close>

text \<open>C2. Planning loses no sensor and duplicates none: whatever order \<open>std::sort\<close> gives equal
  addresses, every index of the device's sensor list is in exactly one block, and every block is a
  legal read that covers its sensors, starts and ends with one, stays within the limit on the number
  of registers and leaves no unused run longer than the gap limit.\<close>

theorem plan_reads_partition:
  assumes "std_sort srt" and "2 \<le> mq"
  shows "mset (concat (map sensor_indices (plan_reads srt ss mq mg))) = mset [0..<length ss] \<and>
    (\<forall>b \<in> set (plan_reads srt ss mq mg). block_ok ss mq mg b)"
  using plan_reads_inv [OF assms] by blast

theorem plan_reads_partition_witness:
  "mset (concat (map sensor_indices (plan_reads sort_key
      [default_SensorConfig\<lparr>address := 7\<rparr>, default_SensorConfig] 125 8))) = mset [0..<2]"
  using plan_reads_partition [OF std_sort_sort_key, of 125
      "[default_SensorConfig\<lparr>address := 7\<rparr>, default_SensorConfig]" 8]
  by (simp only: upt_conv_Cons list.size) simp

text \<open>What the registers of a sensor spell, without the code's shifts and casts.\<close>

definition raw_spec :: "u16 list \<Rightarrow> DataType \<Rightarrow> WordOrder \<Rightarrow> double" where
  "raw_spec regs t ord =
     (let w = (if ord = WO_big then word_cat (regs ! 0) (regs ! 1) else word_cat (regs ! 1) (regs ! 0)) :: u32
      in case t of DT_uint16 \<Rightarrow> d_of_int (uint (regs ! 0))
         | DT_int16 \<Rightarrow> d_of_int (sint (regs ! 0))
         | DT_uint32 \<Rightarrow> d_of_int (uint w)
         | DT_int32 \<Rightarrow> d_of_int (sint w)
         | DT_float32 \<Rightarrow> f_to_double w)"

lemma word_cat_or: "push_bit 16 (ucast (a :: u16) :: u32) OR ucast (b :: u16) = word_cat a b"
  by (rule bit_word_eqI) (auto simp: bit_word_cat_iff bit_or_iff bit_push_bit_iff bit_ucast_iff dest: bit_imp_le_length)

lemma decode_raw_spec:
  assumes "length regs = unat (register_count t)"
  shows "decode_raw regs t ord = Some (raw_spec regs t ord)"
  using assms
  by (cases t; cases ord) (auto simp: decode_raw_def raw_spec_def register_count_def word_cat_or Let_def)

text \<open>A sensor of a planned block is always read inside the response: when the response has the
  registers the block asked for, \<open>extract_value\<close> reads in range, finds the sensor's registers at
  its offset, and gives scale and offset applied to what they spell, or nothing when that is not
  finite.\<close>

theorem extract_value_planned:
  assumes "std_sort srt" and "2 \<le> mq" and "b \<in> set (plan_reads srt ss mq mg)"
    and "i \<in> set (sensor_indices b)" and "unat (quantity b) \<le> length regs"
  shows "extract_value b regs (ss ! i) =
    (let s = ss ! i;
         own = take (unat (register_count (data_type s)))
                 (drop (unat (address s) - unat (start_address b)) regs);
         v = d_add (d_mul (raw_spec own (data_type s) (word_order s)) (scale s)) (offset s)
     in Some (if d_finite v then Some v else None))"
proof -
  let ?s = "ss ! i"
  have "block_ok ss mq mg b" using plan_reads_inv(1) [OF assms(1,2)] assms(3) by blast
  then have lo: "unat (start_address b) \<le> unat (address ?s)" and hi: "sensor_end ?s \<le> block_end b"
    using assms(4) by (auto simp: block_ok_def)
  let ?own = "take (unat (register_count (data_type ?s)))
                 (drop (unat (address ?s) - unat (start_address b)) regs)"
  have fit: "unat (address ?s) - unat (start_address b) + unat (register_count (data_type ?s)) \<le> length regs"
    using lo hi assms(5) by linarith
  then have "length ?own = unat (register_count (data_type ?s))" by auto
  from decode_raw_spec [OF this] fit lo show ?thesis
    by (auto simp: extract_value_def Let_def word_le_nat_alt word_less_nat_alt)
qed

theorem extract_value_planned_witness:
  "extract_value \<lparr>block_register_type = RT_holding, start_address = 0, quantity = 1,
      sensor_indices = [0]\<rparr> [5] default_SensorConfig \<noteq> None"
proof -
  have "plan_reads sort_key [default_SensorConfig] 125 8 = [\<lparr>block_register_type = RT_holding,
      start_address = 0, quantity = 1, sensor_indices = [0]\<rparr>]"
    by (simp add: plan_reads_def plan_type_def plan_order_def plan_sensor_def
        default_SensorConfig_def register_count_def)
  then show ?thesis
    using extract_value_planned [OF std_sort_sort_key, of 125 _ "[default_SensorConfig]" 8 0 "[5]"]
    by (simp add: Let_def)
qed

lemma uint_word_cat16: "uint (word_cat (a :: u16) (b :: u16) :: u32) = 65536 * uint a + uint b"
proof -
  have "65536 * uint a + uint b < 2 ^ 32" using uint_lt2p [of a] uint_lt2p [of b] by simp
  then have "uint (word_of_int (65536 * uint a + uint b) :: u32) = 65536 * uint a + uint b"
    by (simp only: uint_word_of_int len_num1 len_bit0 len_num0) simp
  then show ?thesis
    by (simp add: word_cat_eq concat_bit_eq push_bit_eq_mult mult.commute)
qed

lemma centred_mod:
  assumes "0 \<le> (x::int)" "x < 2 * m"
  shows "(x + m) mod (2 * m) - m = (if x < m then x else x - 2 * m)"
proof (cases "x < m")
  case True
  with assms show ?thesis by simp
next
  case False
  have "(x + m) mod (2 * m) = (x - m) mod (2 * m)"
    using mod_add_self2 [of "x - m" "2 * m"] by (simp add: algebra_simps)
  with False assms show ?thesis by simp
qed

lemma sint_word_cat16: "sint (word_cat (a :: u16) (b :: u16) :: u32) = 65536 * sint a + uint b"
proof -
  have b: "0 \<le> uint b" "uint b < 65536" and a: "0 \<le> uint a" "uint a < 65536"
    using uint_lt2p [of b] uint_lt2p [of a] by simp_all
  have "sint a = (if uint a < 32768 then uint a else uint a - 65536)"
    using a centred_mod [of "uint a" 32768]
    by (simp add: sint_uint signed_take_bit_eq_take_bit_shift take_bit_eq_mod)
  moreover have "sint (word_cat a b :: u32) = (if 65536 * uint a + uint b < 2147483648
      then 65536 * uint a + uint b else 65536 * uint a + uint b - 4294967296)"
    using a b centred_mod [of "65536 * uint a + uint b" 2147483648]
    unfolding sint_uint uint_word_cat16
    by (simp add: signed_take_bit_eq_take_bit_shift take_bit_eq_mod)
  moreover obtain y where y: "uint b = y" by simp
  ultimately show ?thesis using a b unfolding y by auto
qed

text \<open>Integer registers decode without rounding: the double is exactly the unsigned or the
  two's complement number that the register pair spells in the configured word order.\<close>

theorem decode_raw_exact:
  fixes hi lo :: u16
  shows "map_option d_val (decode_raw [hi, lo] DT_uint32 WO_big) = Some (of_int (65536 * uint hi + uint lo)) \<and>
    map_option d_val (decode_raw [lo, hi] DT_uint32 WO_little) = Some (of_int (65536 * uint hi + uint lo)) \<and>
    map_option d_val (decode_raw [hi, lo] DT_int32 WO_big) = Some (of_int (65536 * sint hi + uint lo)) \<and>
    map_option d_val (decode_raw [lo, hi] DT_int32 WO_little) = Some (of_int (65536 * sint hi + uint lo)) \<and>
    map_option d_val (decode_raw [hi] DT_uint16 ord) = Some (of_int (uint hi)) \<and>
    map_option d_val (decode_raw [hi] DT_int16 ord) = Some (of_int (sint hi))"
proof -
  have u: "0 \<le> uint hi" "uint hi < 65536" "0 \<le> uint lo" "uint lo < 65536"
    using uint_lt2p [of hi] uint_lt2p [of lo] by simp_all
  have s: "- 32768 \<le> sint hi" "sint hi < 32768"
    using sint_ge [of hi] sint_lt [of hi] by simp_all
  have p: "(2::int) ^ 53 = 9007199254740992" by simp
  have "\<bar>65536 * uint hi + uint lo\<bar> < 2 ^ 53" "\<bar>65536 * sint hi + uint lo\<bar> < 2 ^ 53"
    "\<bar>uint hi\<bar> < 2 ^ 53" "\<bar>sint hi\<bar> < 2 ^ 53"
    unfolding p abs_less_iff using u s by linarith+
  note ex = this [THEN d_of_int_exact(1)]
  have "length [hi, lo] = unat (register_count DT_uint32)" "length [lo, hi] = unat (register_count DT_uint32)"
    "length [hi, lo] = unat (register_count DT_int32)" "length [lo, hi] = unat (register_count DT_int32)"
    "length [hi] = unat (register_count DT_uint16)" "length [hi] = unat (register_count DT_int16)"
    by (simp_all add: register_count_def)
  note this [THEN decode_raw_spec]
  then show ?thesis
    using ex by (simp add: raw_spec_def uint_word_cat16 sint_word_cat16)
qed

end
