(* ===== verification/DevicePoller.thy ===== *)
theory DevicePoller
  imports ModbusClient RegisterDecoder
begin

text \<open>
  \<open>src/protocol/device_poller.cpp\<close>: one device polled at a fixed rate. The poller runs on its own
  strand and its client on another; between them are two queues: \<open>inbox\<close> holds the calls dispatched
  to the client, \<open>mailbox\<close> the handlers posted back (\<open>asio::post(strand_, ...)\<close>). One step of the
  system is one handler of either strand, the completion of one of the client's operations, the timer,
  or \<open>stop()\<close> called from another thread; any order is possible. \<open>bus\<close> is the sequence of events
  published. The clocks are inputs of the steps that read them. The connect callback is the only
  \<open>std::function<void(bool)>\<close> the poller makes; a read callback captures the block's index and the
  values collected so far.
\<close>

section \<open>Data\<close>

datatype PollEvent =
    Reading SensorReadingEvent
  | Status DeviceStatusEvent
  | PollError PollErrorEvent

type_synonym values_so_far = "double option list"
type_synonym PollClient = "(unit, nat \<times> values_so_far) ModbusClient"
type_synonym PollClientEvent = "(unit, nat \<times> values_so_far) ClientEvent"
type_synonym PollCall = "(unit, nat \<times> values_so_far) Call"

datatype Task =
    ConnectDone bool
  | ResultDone nat values_so_far RegistersResult
  | CancelTimer

record Clock =
  steady :: int
  wall :: time_point

record DevicePoller =
  config :: ModbusDeviceConfig
  client :: PollClient
  blocks :: "ReadBlock list"
  next_tick :: int
  last_status :: "bool option"
  stopped :: bool
  timer_armed :: bool
  inbox :: "PollCall list"
  mailbox :: "Task list"
  bus :: "PollEvent list"

text \<open>\<open>plan_reads\<close> with its default arguments: at most 125 registers, gaps of at most 8.\<close>

definition DevicePoller_create :: "sort_fn \<Rightarrow> ModbusDeviceConfig \<Rightarrow> DevicePoller" where
  "DevicePoller_create srt cfg = \<lparr>config = cfg,
     client = ModbusClient_create (unat (timeout_ms cfg)), blocks = plan_reads srt (sensors cfg) 125 8,
     next_tick = 0, last_status = None, stopped = False, timer_armed = False, inbox = [], mailbox = [],
     bus = []\<rparr>"

section \<open>Operations\<close>

definition publish_event :: "PollEvent \<Rightarrow> DevicePoller \<Rightarrow> DevicePoller" where
  "publish_event ev p = p\<lparr>bus := bus p @ [ev]\<rparr>"

definition publish_status :: "Clock \<Rightarrow> bool \<Rightarrow> DevicePoller \<Rightarrow> DevicePoller" where
  "publish_status now online p =
     (if last_status p = Some online then p
      else publish_event (Status \<lparr>s_device_id = device_id (config p), s_online = online,
             s_timestamp = wall now\<rparr>) (p\<lparr>last_status := Some online\<rparr>))"

text \<open>Milliseconds to the nanoseconds of \<open>steady_clock\<close>.\<close>

definition interval_ns :: "DevicePoller \<Rightarrow> int" where
  "interval_ns p = uint (poll_interval_ms (config p)) * 1000000"

definition schedule_next :: "Clock \<Rightarrow> DevicePoller \<Rightarrow> DevicePoller" where
  "schedule_next now p =
     (if stopped p then p
      else let interval = interval_ns p;
               tick = next_tick p + interval;
               tick = (if tick < steady now then steady now + interval else tick)
           in p\<lparr>next_tick := tick, timer_armed := True\<rparr>)"

fun publish_readings ::
  "time_point \<Rightarrow> SensorConfig list \<Rightarrow> values_so_far \<Rightarrow> DevicePoller \<Rightarrow> DevicePoller" where
  "publish_readings timestamp (s # ss) (Some v # vs) p = publish_readings timestamp ss vs
     (publish_event (Reading \<lparr>r_sensor_id = sensor_id s, r_value = v, r_timestamp = timestamp\<rparr>) p)"
| "publish_readings timestamp (s # ss) (None # vs) p = publish_readings timestamp ss vs p"
| "publish_readings timestamp ss vs p = p"

definition finish_cycle :: "Clock \<Rightarrow> values_so_far \<Rightarrow> DevicePoller \<Rightarrow> DevicePoller" where
  "finish_cycle now vs p =
     schedule_next now (publish_readings (wall now) (sensors (config p)) vs (publish_status now True p))"

definition fail_cycle :: "Clock \<Rightarrow> string \<Rightarrow> DevicePoller \<Rightarrow> DevicePoller" where
  "fail_cycle now msg p =
     (let p = publish_event (PollError \<lparr>e_device_id = device_id (config p), e_message = msg\<rparr>) p;
          p = (if is_connected (client p) then publish_status now True p else publish_status now False p)
      in schedule_next now p)"

definition read_block :: "Clock \<Rightarrow> nat \<Rightarrow> values_so_far \<Rightarrow> DevicePoller \<Rightarrow> DevicePoller" where
  "read_block now block_index vs p =
     (if length (blocks p) \<le> block_index then finish_cycle now vs p
      else let block = blocks p ! block_index; uid = device_unit_id (config p);
               on_result = (block_index, vs)
           in if block_register_type block = RT_input
              then p\<lparr>inbox := inbox p @ [ReadInput uid (start_address block) (quantity block) on_result]\<rparr>
              else p\<lparr>inbox := inbox p @ [ReadHolding uid (start_address block) (quantity block) on_result]\<rparr>)"

definition no_values :: "DevicePoller \<Rightarrow> values_so_far" where
  "no_values p = replicate (length (sensors (config p))) None"

definition run_cycle :: "Clock \<Rightarrow> DevicePoller \<Rightarrow> DevicePoller" where
  "run_cycle now p =
     (if stopped p then p
      else if \<not> is_connected (client p) then p\<lparr>inbox := inbox p @ [Connect ()]\<rparr>
      else read_block now 0 (no_values p) p)"

definition on_connected :: "Clock \<Rightarrow> bool \<Rightarrow> DevicePoller \<Rightarrow> DevicePoller" where
  "on_connected now ok p =
     (if stopped p then p
      else if \<not> ok then fail_cycle now (''cannot connect to '' @ host (config p) @ '':'' @
             dec_nat (unat (port (config p)))) p
      else read_block now 0 (no_values p) p)"

text \<open>The loop over the block's sensors; an index outside the vectors is undefined behaviour.\<close>

fun extract_all ::
  "ReadBlock \<Rightarrow> u16 list \<Rightarrow> SensorConfig list \<Rightarrow> nat list \<Rightarrow> values_so_far \<Rightarrow> values_so_far ub" where
  "extract_all block regs ss [] vs = Some vs"
| "extract_all block regs ss (i # is) vs = do {
     s \<leftarrow> vec_at ss i;
     v \<leftarrow> extract_value block regs s;
     if i < length vs then extract_all block regs ss is (vs[i := v]) else None }"

definition on_result :: "Clock \<Rightarrow> nat \<Rightarrow> values_so_far \<Rightarrow> RegistersResult \<Rightarrow> DevicePoller \<Rightarrow> DevicePoller ub" where
  "on_result now block_index vs result p =
     (if stopped p then Some p
      else case result of
        ModbusError msg \<Rightarrow> Some (fail_cycle now msg p)
      | Registers regs \<Rightarrow> do {
          block \<leftarrow> vec_at (blocks p) block_index;
          vs' \<leftarrow> extract_all block regs (sensors (config p)) (sensor_indices block) vs;
          Some (read_block now (block_index + 1) vs' p) })"

definition poller_start :: "Clock \<Rightarrow> DevicePoller \<Rightarrow> DevicePoller" where
  "poller_start now p = run_cycle now (p\<lparr>next_tick := steady now\<rparr>)"

definition poller_stop :: "DevicePoller \<Rightarrow> DevicePoller" where
  "poller_stop p = p\<lparr>stopped := True, mailbox := mailbox p @ [CancelTimer], inbox := inbox p @ [Close]\<rparr>"

section \<open>Steps\<close>

fun run_task :: "Clock \<Rightarrow> Task \<Rightarrow> DevicePoller \<Rightarrow> DevicePoller ub" where
  "run_task now (ConnectDone ok) p = Some (on_connected now ok p)"
| "run_task now (ResultDone i vs result) p = on_result now i vs result p"
| "run_task now CancelTimer p = Some (p\<lparr>timer_armed := False\<rparr>)"

text \<open>The callbacks the poller gives to its client post a task.\<close>

fun post_reply :: "(unit, nat \<times> values_so_far) Reply \<Rightarrow> Task" where
  "post_reply (Done on_done ok) = ConnectDone ok"
| "post_reply (Answered k result) = ResultDone (fst k) (snd k) result"

definition client_event ::
  "(unit, nat \<times> values_so_far) ClientEvent \<Rightarrow> DevicePoller \<Rightarrow> DevicePoller ub" where
  "client_event e p = map_option (\<lambda>(c, rs). p\<lparr>client := c, mailbox := mailbox p @ map post_reply rs\<rparr>)
     (client_do e (client p))"

text \<open>The steps that move a cycle forward, and all the steps.\<close>

inductive cycle_step :: "DevicePoller \<Rightarrow> DevicePoller ub \<Rightarrow> bool" where
  call_step: "inbox p = call # rest \<Longrightarrow> cycle_step p (client_event (Invoke call) (p\<lparr>inbox := rest\<rparr>))"
| io_step: "allowed (Complete i ec bs) (client p) \<Longrightarrow> cycle_step p (client_event (Complete i ec bs) p)"
| task_step: "mailbox p = t # rest \<Longrightarrow> cycle_step p (run_task now t (p\<lparr>mailbox := rest\<rparr>))"

inductive poll_step :: "DevicePoller \<Rightarrow> DevicePoller ub \<Rightarrow> bool" where
  of_cycle: "cycle_step p r \<Longrightarrow> poll_step p r"
| deadline_step: "allowed (DeadlineWait i ec) (client p) \<Longrightarrow>
    poll_step p (client_event (DeadlineWait i ec) p)"
| tick_step: "timer_armed p \<Longrightarrow> next_tick p \<le> steady now \<Longrightarrow>
    poll_step p (Some (run_cycle now (p\<lparr>timer_armed := False\<rparr>)))"
| stop_step: "poll_step p (Some (poller_stop p))"

inductive poll_reachable :: "sort_fn \<Rightarrow> ModbusDeviceConfig \<Rightarrow> DevicePoller \<Rightarrow> bool"
  for srt cfg where
  started: "poll_reachable srt cfg (poller_start now (DevicePoller_create srt cfg))"
| stepped: "poll_reachable srt cfg p \<Longrightarrow> poll_step p (Some p') \<Longrightarrow> poll_reachable srt cfg p'"

inductive_cases poll_stepE: "poll_step p r"
inductive_cases cycle_stepE: "cycle_step p r"

section \<open>What holds in every reachable state\<close>

lemmas poll_defs = publish_event_def publish_status_def schedule_next_def finish_cycle_def
  fail_cycle_def read_block_def run_cycle_def on_connected_def Let_def

text \<open>A read callback belongs to a block of the plan and to the quantity that block asks for; the values
  collected so far are finite and one per sensor.\<close>

definition callback_ok :: "DevicePoller \<Rightarrow> u16 \<Rightarrow> nat \<times> values_so_far \<Rightarrow> bool" where
  "callback_ok p q k \<longleftrightarrow> fst k < length (blocks p) \<and> q = quantity (blocks p ! fst k) \<and>
     length (snd k) = length (sensors (config p)) \<and> (\<forall>v. Some v \<in> set (snd k) \<longrightarrow> d_finite v)"

fun call_ok :: "DevicePoller \<Rightarrow> PollCall \<Rightarrow> bool" where
  "call_ok p (ReadHolding u a q k) = callback_ok p q k"
| "call_ok p (ReadInput u a q k) = callback_ok p q k"
| "call_ok p (WriteSingle u a v on_done) = False"
| "call_ok p (Connect on_done) = True"
| "call_ok p Close = stopped p"

fun cb_ok :: "DevicePoller \<Rightarrow> (unit, nat \<times> values_so_far) Callback \<Rightarrow> bool" where
  "cb_ok p (ReadCallback q k) = callback_ok p q k"
| "cb_ok p (WriteCallback on_done) = False"

fun task_ok :: "DevicePoller \<Rightarrow> Task \<Rightarrow> bool" where
  "task_ok p (ConnectDone ok) = True"
| "task_ok p (ResultDone i vs result) = (\<exists>q. callback_ok p q (i, vs) \<and>
     (\<forall>regs. result = Registers regs \<longrightarrow> unat q \<le> length regs))"
| "task_ok p CancelTimer = stopped p"

text \<open>How many things the poller is waiting for: its timer, a call not yet made, an operation of the
  client, a reply not yet handled.\<close>

definition is_cycle_task :: "Task \<Rightarrow> bool" where
  "is_cycle_task t \<longleftrightarrow> t \<noteq> CancelTimer"

definition activity :: "DevicePoller \<Rightarrow> nat" where
  "activity p = (if timer_armed p then 1 else 0) + length (filter (\<lambda>call. call \<noteq> Close) (inbox p)) +
     length (ops (client p)) + length (filter is_cycle_task (mailbox p))"

definition statuses :: "DevicePoller \<Rightarrow> bool list" where
  "statuses p = concat (map (\<lambda>ev. case ev of Status d \<Rightarrow> [s_online d] | _ \<Rightarrow> []) (bus p))"

fun reading_ok :: "ModbusDeviceConfig \<Rightarrow> PollEvent \<Rightarrow> bool" where
  "reading_ok cfg (Reading r) = (d_finite (r_value r) \<and> r_sensor_id r \<in> sensor_id ` set (sensors cfg))"
| "reading_ok cfg _ = True"

text \<open>What has been published: statuses alternate, the last one is remembered, readings are finite.\<close>

definition bus_inv :: "DevicePoller \<Rightarrow> bool" where
  "bus_inv p \<longleftrightarrow> distinct_adj (statuses p) \<and>
     last_status p = (if statuses p = [] then None else Some (last (statuses p))) \<and>
     (\<forall>ev \<in> set (bus p). reading_ok (config p) ev)"

definition poll_wf :: "DevicePoller \<Rightarrow> bool" where
  "poll_wf p \<longleftrightarrow> (\<exists>srt. std_sort srt \<and> blocks p = plan_reads srt (sensors (config p)) 125 8) \<and>
     client_inv (client p) \<and> bus_inv p \<and>
     (\<forall>call \<in> set (inbox p). call_ok p call) \<and> (\<forall>cb \<in> callbacks_in (client p). cb_ok p cb) \<and>
     (\<forall>t \<in> set (mailbox p). task_ok p t)"

text \<open>Between steps one thing is pending; inside a handler, before it decides what is next, none is.\<close>

definition poll_inv :: "DevicePoller \<Rightarrow> bool" where
  "poll_inv p \<longleftrightarrow> poll_wf p \<and> activity p \<le> 1 \<and> (\<not> stopped p \<longrightarrow> activity p = 1)"

definition poll_ready :: "DevicePoller \<Rightarrow> bool" where
  "poll_ready p \<longleftrightarrow> poll_wf p \<and> activity p = 0"

text \<open>The parts of the state the queues' conditions depend on.\<close>

definition same_context :: "DevicePoller \<Rightarrow> DevicePoller \<Rightarrow> bool" where
  "same_context p p' \<longleftrightarrow> config p' = config p \<and> blocks p' = blocks p \<and> stopped p' = stopped p"

lemma call_ok_context: "same_context p p' \<Longrightarrow> call_ok p' call = call_ok p call"
  by (cases call) (auto simp: same_context_def callback_ok_def)

lemma cb_ok_context: "same_context p p' \<Longrightarrow> cb_ok p' cb = cb_ok p cb"
  by (cases cb) (auto simp: same_context_def callback_ok_def)

lemma task_ok_context: "same_context p p' \<Longrightarrow> task_ok p' t = task_ok p t"
  by (cases t) (auto simp: same_context_def callback_ok_def)

lemma poll_wf_update:
  assumes "poll_wf p" "same_context p p'" "client_inv (client p')" "bus_inv p'"
    and "\<forall>call \<in> set (inbox p'). call_ok p call" "\<forall>cb \<in> callbacks_in (client p'). cb_ok p cb"
    and "\<forall>t \<in> set (mailbox p'). task_ok p t"
  shows "poll_wf p'"
proof -
  note oks = call_ok_context [OF assms(2)] cb_ok_context [OF assms(2)] task_ok_context [OF assms(2)]
  from assms(2) have "config p' = config p" "blocks p' = blocks p" by (simp_all add: same_context_def)
  with assms(1) have "\<exists>srt. std_sort srt \<and> blocks p' = plan_reads srt (sensors (config p')) 125 8"
    by (simp add: poll_wf_def)
  with assms(3-7) show ?thesis by (simp add: poll_wf_def oks)
qed

lemma poll_wfD:
  assumes "poll_wf p"
  shows "client_inv (client p)" "bus_inv p" "\<forall>call \<in> set (inbox p). call_ok p call"
    "\<forall>cb \<in> callbacks_in (client p). cb_ok p cb" "\<forall>t \<in> set (mailbox p). task_ok p t"
  using assms unfolding poll_wf_def by blast+

section \<open>Publishing\<close>

lemma statuses_snoc: "statuses (p\<lparr>bus := bus p @ [ev]\<rparr>) =
    statuses p @ (case ev of Status d \<Rightarrow> [s_online d] | _ \<Rightarrow> [])"
  by (simp add: statuses_def)

lemma statuses_cong: "bus p' = bus p \<Longrightarrow> statuses p' = statuses p"
  by (simp add: statuses_def)

text \<open>An update that leaves the bus, the last status and the configuration alone.\<close>

lemma bus_inv_cong:
  "bus p' = bus p \<Longrightarrow> last_status p' = last_status p \<Longrightarrow> config p' = config p \<Longrightarrow> bus_inv p' = bus_inv p"
  by (simp add: bus_inv_def statuses_def)

text \<open>Publishing touches the bus and the last status only.\<close>

definition published :: "DevicePoller \<Rightarrow> DevicePoller \<Rightarrow> bool" where
  "published p p' \<longleftrightarrow> (\<exists>evs st. p' = p\<lparr>bus := bus p @ evs, last_status := st\<rparr>) \<and> bus_inv p'"

lemma published_trans:
  assumes "published p p1" "published p1 p2"
  shows "published p p2"
proof -
  from assms obtain evs1 st1 evs2 st2 where
    "p1 = p\<lparr>bus := bus p @ evs1, last_status := st1\<rparr>" "p2 = p1\<lparr>bus := bus p1 @ evs2, last_status := st2\<rparr>"
    "bus_inv p2" by (auto simp: published_def)
  then show ?thesis
    unfolding published_def by (intro conjI exI [of _ "evs1 @ evs2"] exI [of _ st2]) simp_all
qed

lemma published_self: "bus_inv p \<Longrightarrow> published p p"
  by (auto simp: published_def intro!: exI [of _ "[]"] exI [of _ "last_status p"])

lemma publish_event_published:
  assumes "bus_inv p" "\<nexists>d. ev = Status d" "reading_ok (config p) ev"
  shows "published p (publish_event ev p)"
proof -
  have "statuses (p\<lparr>bus := bus p @ [ev]\<rparr>) = statuses p"
    using assms(2) unfolding statuses_snoc by (cases ev) auto
  with assms have "bus_inv (p\<lparr>bus := bus p @ [ev]\<rparr>)" by (simp add: bus_inv_def)
  then show ?thesis unfolding published_def publish_event_def
    by (intro conjI exI [of _ "[ev]"] exI [of _ "last_status p"]) simp_all
qed

lemma publish_status_published:
  assumes "bus_inv p"
  shows "published p (publish_status now online p)"
proof (cases "last_status p = Some online")
  case False
  let ?p = "p\<lparr>last_status := Some online\<rparr>"
  let ?ev = "Status \<lparr>s_device_id = device_id (config p), s_online = online, s_timestamp = wall now\<rparr>"
  have st: "statuses (?p\<lparr>bus := bus ?p @ [?ev]\<rparr>) = statuses p @ [online]"
    unfolding statuses_snoc by (simp add: statuses_def)
  have "statuses p = [] \<or> last (statuses p) \<noteq> online"
    using assms False by (auto simp: bus_inv_def split: if_splits)
  then have "distinct_adj (statuses p @ [online])"
    using assms by (auto simp: bus_inv_def distinct_adj_append_iff)
  with assms st have "bus_inv (?p\<lparr>bus := bus ?p @ [?ev]\<rparr>)" by (simp add: bus_inv_def)
  with False show ?thesis unfolding published_def publish_status_def publish_event_def
    by (intro conjI exI [of _ "[?ev]"] exI [of _ "Some online"]) simp_all
qed (simp add: publish_status_def published_self assms)

lemma publish_readings_published:
  assumes "bus_inv p" "set ss \<subseteq> set (sensors (config p))" "\<forall>v. Some v \<in> set vs \<longrightarrow> d_finite v"
  shows "published p (publish_readings t ss vs p)"
  using assms
proof (induction t ss vs p rule: publish_readings.induct)
  case (1 t s ss v vs p)
  let ?p = "publish_event (Reading \<lparr>r_sensor_id = sensor_id s, r_value = v, r_timestamp = t\<rparr>) p"
  have p: "published p ?p" by (rule publish_event_published) (use 1 in auto)
  then have "bus_inv ?p" "config ?p = config p" by (simp_all add: published_def publish_event_def)
  with 1 have "published ?p (publish_readings t ss vs ?p)" by auto
  with p show ?case by (simp add: published_trans)
qed (simp_all add: published_self)

lemma publishedD:
  assumes "published p p'"
  shows "same_context p p'" "client p' = client p" "inbox p' = inbox p" "mailbox p' = mailbox p"
    "timer_armed p' = timer_armed p" "next_tick p' = next_tick p" "bus_inv p'"
  using assms by (auto simp: published_def same_context_def)

lemma published_ready:
  assumes "poll_ready p" "published p p'"
  shows "poll_ready p'"
proof -
  note pub = publishedD [OF assms(2)]
  from assms(1) have wf: "poll_wf p" and "activity p = 0" by (simp_all add: poll_ready_def)
  moreover have "poll_wf p'"
    by (rule poll_wf_update [OF wf pub(1)]) (use poll_wfD [OF wf] pub in simp_all)
  ultimately show ?thesis using pub by (simp add: poll_ready_def activity_def)
qed

section \<open>A cycle\<close>

text \<open>Each handler that runs with nothing pending leaves one thing pending, or none after \<open>stop\<close>.\<close>

lemma schedule_next_inv:
  assumes "poll_ready p"
  shows "poll_inv (schedule_next now p)"
proof (cases "stopped p")
  case True
  with assms show ?thesis by (simp add: schedule_next_def poll_ready_def poll_inv_def)
next
  case False
  define p' where "p' = schedule_next now p"
  with False have p': "same_context p p'" "client p' = client p" "inbox p' = inbox p"
    "mailbox p' = mailbox p" "timer_armed p'" "bus p' = bus p" "last_status p' = last_status p"
    by (auto simp: schedule_next_def Let_def same_context_def)
  from assms have wf: "poll_wf p" and a: "activity p = 0" by (simp_all add: poll_ready_def)
  from p' have "bus_inv p' = bus_inv p" by (intro bus_inv_cong) (simp_all add: same_context_def)
  then have "poll_wf p'"
    by (intro poll_wf_update [OF wf p'(1)]) (use poll_wfD [OF wf] p' in simp_all)
  moreover from a p' have "activity p' = 1" by (simp add: activity_def split: if_splits)
  ultimately show ?thesis unfolding p'_def [symmetric] by (simp add: poll_inv_def)
qed

lemma fail_cycle_inv:
  assumes "poll_ready p"
  shows "poll_inv (fail_cycle now msg p)"
proof -
  let ?ev = "PollError \<lparr>e_device_id = device_id (config p), e_message = msg\<rparr>"
  let ?p = "publish_event ?ev p"
  from assms have "bus_inv p" by (intro poll_wfD) (simp add: poll_ready_def)
  then have "published p ?p" by (intro publish_event_published) simp_all
  moreover from this have "published ?p (publish_status now online ?p)" for online
    by (intro publish_status_published) (rule publishedD)
  ultimately have "poll_ready (publish_status now online ?p)" for online
    using assms published_trans published_ready by blast
  then show ?thesis by (simp add: fail_cycle_def Let_def schedule_next_inv)
qed

lemma finish_cycle_inv:
  assumes "poll_ready p" "\<forall>v. Some v \<in> set vs \<longrightarrow> d_finite v"
  shows "poll_inv (finish_cycle now vs p)"
proof -
  let ?p = "publish_status now True p"
  have p: "published p ?p"
    using assms by (intro publish_status_published poll_wfD) (simp add: poll_ready_def)
  then have "config ?p = config p" using publishedD(1) by (auto simp: same_context_def)
  then have "published ?p (publish_readings (wall now) (sensors (config p)) vs ?p)"
    using publishedD(7) [OF p] assms(2) by (intro publish_readings_published) simp_all
  then show ?thesis
    unfolding finish_cycle_def using p assms(1) published_trans published_ready schedule_next_inv by blast
qed

text \<open>Queueing a call is the one pending thing.\<close>

lemma queue_call_inv:
  assumes "poll_ready p" "call_ok p call" "call \<noteq> Close"
  shows "poll_inv (p\<lparr>inbox := inbox p @ [call]\<rparr>)"
proof -
  let ?p = "p\<lparr>inbox := inbox p @ [call]\<rparr>"
  from assms(1) have wf: "poll_wf p" by (simp add: poll_ready_def)
  have "bus_inv ?p = bus_inv p" by (rule bus_inv_cong) simp_all
  then have "poll_wf ?p"
    by (intro poll_wf_update [OF wf]) (use poll_wfD [OF wf] assms(2) in \<open>auto simp: same_context_def\<close>)
  moreover have "activity ?p = Suc (activity p)" using assms(3) by (simp add: activity_def)
  ultimately show ?thesis using assms(1) by (simp add: poll_ready_def poll_inv_def)
qed

lemma poll_ready_inv: "poll_ready p \<Longrightarrow> stopped p \<Longrightarrow> poll_inv p"
  by (simp add: poll_ready_def poll_inv_def)

lemma read_block_inv:
  assumes "poll_ready p" "length vs = length (sensors (config p))" "\<forall>v. Some v \<in> set vs \<longrightarrow> d_finite v"
  shows "poll_inv (read_block now i vs p)"
proof (cases "length (blocks p) \<le> i")
  case True
  with finish_cycle_inv [OF assms(1,3)] show ?thesis by (simp add: read_block_def)
next
  case False
  then have "callback_ok p (quantity (blocks p ! i)) (i, vs)" using assms by (simp add: callback_ok_def)
  with False show ?thesis
    using queue_call_inv [OF assms(1)] by (simp add: read_block_def Let_def)
qed

lemma no_values_ok: "length (no_values p) = length (sensors (config p))" "Some v \<notin> set (no_values p)"
  by (simp_all add: no_values_def)

lemma run_cycle_inv: "poll_ready p \<Longrightarrow> poll_inv (run_cycle now p)"
  unfolding run_cycle_def
  using read_block_inv [of p "no_values p" now 0] queue_call_inv [of p "Connect ()"] no_values_ok
  by (auto intro: poll_ready_inv)

lemma on_connected_inv: "poll_ready p \<Longrightarrow> poll_inv (on_connected now ok p)"
  unfolding on_connected_def
  using read_block_inv [of p "no_values p" now 0] fail_cycle_inv [of p] no_values_ok
  by (auto intro: poll_ready_inv)

lemma extract_value_in_range:
  assumes "block_ok ss mq mg b" "i \<in> set (sensor_indices b)" "unat (quantity b) \<le> length regs"
  shows "\<exists>v. extract_value b regs (ss ! i) = Some v \<and> (\<forall>x. v = Some x \<longrightarrow> d_finite x)"
proof -
  let ?s = "ss ! i"
  have lo: "unat (start_address b) \<le> unat (address ?s)" and hi: "sensor_end ?s \<le> block_end b"
    using assms(1,2) by (auto simp: block_ok_def)
  let ?own = "take (unat (register_count (data_type ?s)))
                 (drop (unat (address ?s) - unat (start_address b)) regs)"
  have fit: "unat (address ?s) - unat (start_address b) + unat (register_count (data_type ?s)) \<le> length regs"
    using lo hi assms(3) by linarith
  then have "length ?own = unat (register_count (data_type ?s))" by auto
  from decode_raw_spec [OF this] fit lo show ?thesis
    by (auto simp: extract_value_def Let_def word_le_nat_alt word_less_nat_alt)
qed

lemma extract_all_in_range:
  assumes "block_ok ss mq mg b" "set is \<subseteq> set (sensor_indices b)" "unat (quantity b) \<le> length regs"
    and "length vs = length ss" "\<forall>v. Some v \<in> set vs \<longrightarrow> d_finite v"
  shows "\<exists>vs'. extract_all b regs ss is vs = Some vs' \<and> length vs' = length ss \<and>
    (\<forall>v. Some v \<in> set vs' \<longrightarrow> d_finite v)"
  using assms
proof (induction "is" arbitrary: vs)
  case (Cons i js)
  from Cons.prems have i: "i \<in> set (sensor_indices b)" "i < length ss" by (auto simp: block_ok_def)
  from extract_value_in_range [OF Cons.prems(1) i(1) Cons.prems(3)] obtain v where
    v: "extract_value b regs (ss ! i) = Some v" "\<forall>x. v = Some x \<longrightarrow> d_finite x" by blast
  have "Some x \<in> set (vs[i := v]) \<Longrightarrow> d_finite x" for x
    using v(2) Cons.prems(5) set_update_subset_insert [of vs i v] by auto
  with Cons.IH [of "vs[i := v]"] Cons.prems v(1) i(2) show ?case by simp
qed simp

lemma on_result_inv:
  assumes "poll_ready p" "task_ok p (ResultDone i vs result)"
  shows "\<exists>p'. on_result now i vs result p = Some p' \<and> poll_inv p'"
proof (cases "stopped p")
  case True
  with assms(1) show ?thesis by (simp add: on_result_def poll_ready_inv)
next
  case False
  show ?thesis
  proof (cases result)
    case (ModbusError msg)
    with False fail_cycle_inv [OF assms(1)] show ?thesis by (simp add: on_result_def)
  next
    case (Registers regs)
    let ?b = "blocks p ! i" and ?ss = "sensors (config p)"
    from assms(2) Registers have i: "i < length (blocks p)" "unat (quantity ?b) \<le> length regs"
      "length vs = length ?ss" "\<forall>v. Some v \<in> set vs \<longrightarrow> d_finite v"
      by (auto simp: callback_ok_def)
    from assms(1) obtain srt where "std_sort srt" "blocks p = plan_reads srt ?ss 125 8"
      by (auto simp: poll_ready_def poll_wf_def)
    then have "block_ok ?ss 125 8 ?b" using plan_reads_inv(1) [of srt 125 ?ss 8] i(1) by auto
    from extract_all_in_range [OF this order_refl i(2,3,4)] obtain vs' where
      "extract_all ?b regs ?ss (sensor_indices ?b) vs = Some vs'" "length vs' = length ?ss"
      "\<forall>v. Some v \<in> set vs' \<longrightarrow> d_finite v" by blast
    with False Registers i(1) read_block_inv [OF assms(1)] show ?thesis by (simp add: on_result_def)
  qed
qed

section \<open>Steps\<close>

lemma task_of_reply_ok:
  assumes "reply_from cbs r" "\<forall>cb \<in> cbs. cb_ok p cb"
  shows "task_ok p (post_reply r) \<and> is_cycle_task (post_reply r)"
proof (cases r)
  case (Done on_done ok)
  then show ?thesis by (simp add: is_cycle_task_def)
next
  case (Answered k result)
  with assms obtain cb res where cb: "cb_ok p cb" "r = run_callback cb res"
    by (auto simp: reply_from_def)
  then show ?thesis
  proof (cases "(cb, res)" rule: run_callback.cases)
    case (1 q k regs)
    with cb show ?thesis
      by (cases k) (auto simp: is_cycle_task_def not_less split: if_splits)
  next
    case (2 q k msg)
    with cb show ?thesis by (cases k) (auto simp: is_cycle_task_def)
  next
    case (3 on_done result)
    with cb show ?thesis by simp
  qed
qed

text \<open>One event of the client, as the poller sees it. \<open>p\<close> is the state after the call was taken from
  the inbox.\<close>

lemma client_event_wf:
  assumes wf: "poll_wf p" and ok: "allowed e (client p)" "polite e (client p)"
    and cbs: "\<forall>cb \<in> set (event_callbacks e). cb_ok p cb"
  obtains p' c rs where "client_event e p = Some p'" "poll_wf p'" "same_context p p'"
    "p' = p\<lparr>client := c, mailbox := mailbox p @ map post_reply rs\<rparr>"
    "client_do e (client p) = Some (c, rs)" "good_step e (client p) (Some (c, rs))"
    "activity p' = activity p + length (event_tokens e)"
proof -
  note wfs = poll_wfD [OF wf]
  from client_do_good [OF wfs(1) ok] obtain c rs where
    c: "client_do e (client p) = Some (c, rs)" "client_inv c"
      "map reply_token rs @ owed c = owed (client p) @ event_tokens e"
      "callbacks_in c \<subseteq> callbacks_in (client p) \<union> set (event_callbacks e)"
      "\<forall>r \<in> set rs. reply_from (callbacks_in (client p) \<union> set (event_callbacks e)) r"
    and good: "good_step e (client p) (Some (c, rs))"
    unfolding good_step_def by (metis (no_types, lifting))
  define p' where "p' = p\<lparr>client := c, mailbox := mailbox p @ map post_reply rs\<rparr>"
  have ctx: "same_context p p'" by (simp add: p'_def same_context_def)
  have in_hand: "\<forall>cb \<in> callbacks_in (client p) \<union> set (event_callbacks e). cb_ok p cb"
    using wfs(4) cbs by blast
  then have tasks: "task_ok p (post_reply r) \<and> is_cycle_task (post_reply r)" if "r \<in> set rs" for r
    using task_of_reply_ok c(5) that by blast
  have "bus_inv p' = bus_inv p" by (rule bus_inv_cong) (simp_all add: p'_def)
  then have "poll_wf p'"
    by (intro poll_wf_update [OF wf ctx]) (use wfs c(2,4) in_hand tasks in \<open>auto simp: p'_def\<close>)
  moreover have "filter is_cycle_task (map post_reply rs) = map post_reply rs"
    using tasks by (simp add: filter_id_conv)
  with arg_cong [OF c(3), of length] have "activity p' = activity p + length (event_tokens e)"
    by (simp add: p'_def activity_def)
  moreover have "client_event e p = Some p'" by (simp add: client_event_def c(1) p'_def)
  ultimately show thesis using ctx p'_def c(1) good by (intro that)
qed

lemma take_call:
  assumes "poll_inv p" "inbox p = call # rest"
  shows "poll_wf (p\<lparr>inbox := rest\<rparr>)" "polite (Invoke call) (client p)"
    "activity p = activity (p\<lparr>inbox := rest\<rparr>) + length (call_tokens call)"
    "\<forall>cb \<in> set (event_callbacks (Invoke call)). cb_ok p cb"
proof -
  from assms have wf: "poll_wf p" and a: "activity p \<le> 1" by (simp_all add: poll_inv_def)
  note wfs = poll_wfD [OF wf]
  have "bus_inv (p\<lparr>inbox := rest\<rparr>) = bus_inv p" by (rule bus_inv_cong) simp_all
  then show "poll_wf (p\<lparr>inbox := rest\<rparr>)"
    by (intro poll_wf_update [OF wf]) (use wfs assms(2) in \<open>simp_all add: same_context_def\<close>)
  from wfs(3) assms(2) have call: "call_ok p call" by simp
  then show "activity p = activity (p\<lparr>inbox := rest\<rparr>) + length (call_tokens call)"
    using assms(2) by (cases call) (simp_all add: activity_def)
  show "\<forall>cb \<in> set (event_callbacks (Invoke call)). cb_ok p cb" using call by (cases call) simp_all
  show "polite (Invoke call) (client p)" using a assms(2) by (auto simp: activity_def split: if_splits)
qed

lemma take_task:
  assumes "poll_inv p" "mailbox p = t # rest"
  shows "poll_wf (p\<lparr>mailbox := rest\<rparr>)" "task_ok p t"
    "is_cycle_task t \<Longrightarrow> poll_ready (p\<lparr>mailbox := rest\<rparr>)"
proof -
  from assms have wf: "poll_wf p" and a: "activity p \<le> 1" by (simp_all add: poll_inv_def)
  note wfs = poll_wfD [OF wf]
  have "bus_inv (p\<lparr>mailbox := rest\<rparr>) = bus_inv p" by (rule bus_inv_cong) simp_all
  then show wf': "poll_wf (p\<lparr>mailbox := rest\<rparr>)"
    by (intro poll_wf_update [OF wf]) (use wfs assms(2) in \<open>simp_all add: same_context_def\<close>)
  show "task_ok p t" using wfs(5) assms(2) by simp
  show "poll_ready (p\<lparr>mailbox := rest\<rparr>)" if "is_cycle_task t"
    using that wf' a assms(2) by (auto simp: poll_ready_def activity_def split: if_splits)
qed

lemma cycle_step_inv:
  assumes "cycle_step p r" "poll_inv p"
  shows "\<exists>p'. r = Some p' \<and> poll_inv p'"
  using assms
proof (cases rule: cycle_step.cases)
  case (call_step call rest)
  let ?p = "p\<lparr>inbox := rest\<rparr>"
  note t = take_call [OF assms(2) call_step(2)]
  have "\<forall>cb \<in> set (event_callbacks (Invoke call)). cb_ok ?p cb"
    using t(4) cb_ok_context [of p ?p] by (simp add: same_context_def)
  moreover have "allowed (Invoke call) (client ?p)" "polite (Invoke call) (client ?p)"
    using t(2) by simp_all
  ultimately obtain p' where
    p': "client_event (Invoke call) ?p = Some p'" "poll_wf p'" "same_context ?p p'"
      "activity p' = activity ?p + length (event_tokens (Invoke call))"
    using client_event_wf [OF t(1)] by blast
  with t(3) assms(2) call_step(1) show ?thesis by (simp add: poll_inv_def same_context_def)
next
  case (io_step i ec bs)
  from assms(2) have wf: "poll_wf p" by (simp add: poll_inv_def)
  have e: "polite (Complete i ec bs) (client p)"
    "\<forall>cb \<in> set (event_callbacks (Complete i ec bs)). cb_ok p cb" by simp_all
  obtain p' where "client_event (Complete i ec bs) p = Some p'" "poll_wf p'" "same_context p p'"
    "activity p' = activity p + length (event_tokens (Complete i ec bs :: PollClientEvent))"
    by (rule client_event_wf [OF wf io_step(2) e], rule that)
  with assms(2) io_step(1) show ?thesis by (simp add: poll_inv_def same_context_def)
next
  case (task_step t rest now)
  let ?p = "p\<lparr>mailbox := rest\<rparr>"
  note t = take_task [OF assms(2) task_step(2)]
  have ctx: "same_context p ?p" by (simp add: same_context_def)
  show ?thesis
  proof (cases t)
    case (ConnectDone ok)
    with t(3) task_step(1) on_connected_inv [of ?p now ok] show ?thesis by (simp add: is_cycle_task_def)
  next
    case (ResultDone i vs result)
    have "task_ok ?p (ResultDone i vs result)" using t(2) by (simp only: task_ok_context [OF ctx] ResultDone)
    with ResultDone t(3) task_step(1) on_result_inv [of ?p i vs result now] show ?thesis
      by (simp add: is_cycle_task_def)
  next
    case CancelTimer
    let ?q = "?p\<lparr>timer_armed := False\<rparr>"
    have "bus_inv ?q = bus_inv ?p" by (rule bus_inv_cong) simp_all
    then have "poll_wf ?q"
      by (intro poll_wf_update [OF t(1)]) (use poll_wfD [OF t(1)] in \<open>simp_all add: same_context_def\<close>)
    moreover have "activity ?q \<le> activity p"
      using task_step(2) CancelTimer by (simp add: activity_def is_cycle_task_def)
    moreover have "stopped p" using t(2) CancelTimer by simp
    ultimately show ?thesis using assms(2) task_step(1) CancelTimer by (simp add: poll_inv_def)
  qed
qed

lemma deadline_step_inv:
  assumes "poll_inv p" "allowed (DeadlineWait i ec) (client p)"
  shows "\<exists>p'. client_event (DeadlineWait i ec) p = Some p' \<and> poll_inv p' \<and> same_context p p' \<and>
    inbox p' = inbox p \<and> mailbox p' = mailbox p \<and> ops (client p') = ops (client p)"
proof -
  from assms(1) have wf: "poll_wf p" by (simp add: poll_inv_def)
  have e: "polite (DeadlineWait i ec) (client p)"
    "\<forall>cb \<in> set (event_callbacks (DeadlineWait i ec)). cb_ok p cb" by simp_all
  obtain p' c rs where "client_event (DeadlineWait i ec) p = Some p'" "poll_wf p'" "same_context p p'"
    "p' = p\<lparr>client := c, mailbox := mailbox p @ map post_reply rs\<rparr>"
    "client_do (DeadlineWait i ec) (client p) = Some (c, rs)"
    "activity p' = activity p + length (event_tokens (DeadlineWait i ec :: PollClientEvent))"
    by (rule client_event_wf [OF wf assms(2) e], rule that)
  moreover from this(5) have "rs = []" "ops c = ops (client p)"
    by (auto simp: on_deadline_def close_socket_def)
  ultimately show ?thesis using assms(1) by (simp add: poll_inv_def same_context_def)
qed

lemma tick_step_inv:
  assumes "poll_inv p" "timer_armed p"
  shows "poll_inv (run_cycle now (p\<lparr>timer_armed := False\<rparr>))"
proof -
  let ?p = "p\<lparr>timer_armed := False\<rparr>"
  from assms(1) have wf: "poll_wf p" by (simp add: poll_inv_def)
  have "bus_inv ?p = bus_inv p" by (rule bus_inv_cong) simp_all
  then have "poll_wf ?p"
    by (intro poll_wf_update [OF wf]) (use poll_wfD [OF wf] in \<open>simp_all add: same_context_def\<close>)
  moreover have "activity ?p = 0" using assms by (simp add: poll_inv_def activity_def)
  ultimately show ?thesis by (intro run_cycle_inv) (simp add: poll_ready_def)
qed

lemma poller_stop_inv:
  assumes "poll_inv p"
  shows "poll_inv (poller_stop p)"
proof -
  let ?s = "p\<lparr>stopped := True\<rparr>"
  from assms have wf: "poll_wf p" by (simp add: poll_inv_def)
  have "callback_ok ?s q k = callback_ok p q k" for q k by (simp add: callback_ok_def)
  then have "call_ok p call \<Longrightarrow> call_ok (poller_stop p) call" "cb_ok p cb = cb_ok (poller_stop p) cb"
    "task_ok p t \<Longrightarrow> task_ok (poller_stop p) t" for call cb t
    by (cases call; cases cb; cases t; simp add: poller_stop_def callback_ok_def)+
  moreover have "bus_inv (poller_stop p) = bus_inv p"
    by (rule bus_inv_cong) (simp_all add: poller_stop_def)
  ultimately have "poll_wf (poller_stop p)"
    using wf unfolding poll_wf_def by (auto simp: poller_stop_def)
  moreover have "activity (poller_stop p) = activity p"
    by (simp add: poller_stop_def activity_def is_cycle_task_def)
  ultimately show ?thesis using assms by (simp add: poll_inv_def poller_stop_def)
qed

lemma poll_step_inv:
  assumes "poll_step p r" "poll_inv p"
  shows "\<exists>p'. r = Some p' \<and> poll_inv p'"
  using assms
proof (cases rule: poll_step.cases)
  case of_cycle
  with assms(2) show ?thesis by (simp add: cycle_step_inv)
next
  case (deadline_step i ec)
  with assms(2) deadline_step_inv [of p i ec] show ?thesis by blast
next
  case (tick_step now)
  with assms(2) tick_step_inv [of p now] show ?thesis by blast
next
  case stop_step
  with assms(2) poller_stop_inv [of p] show ?thesis by blast
qed

lemma poll_reachable_inv:
  assumes "poll_reachable srt cfg p" "std_sort srt"
  shows "poll_inv p"
  using assms
proof (induction rule: poll_reachable.induct)
  case (started now)
  have "poll_ready (DevicePoller_create srt cfg\<lparr>next_tick := steady now\<rparr>)"
    using started by (auto simp: poll_ready_def poll_wf_def activity_def DevicePoller_create_def bus_inv_def
      statuses_def ModbusClient_create_def callbacks_in_def)
  then show ?case unfolding poller_start_def by (rule run_cycle_inv)
next
  case (stepped p p')
  with poll_step_inv show ?case by blast
qed

section \<open>A cycle ends\<close>

text \<open>How many steps of its own a poller is away from its next pause: five per block still to read, and
  three at most to connect.\<close>

fun token_work :: "nat \<Rightarrow> unit + nat \<times> values_so_far \<Rightarrow> nat" where
  "token_work n (Inl u) = 5 * n + 1"
| "token_work n (Inr k) = 5 * (n - fst k) - 4"

fun task_work :: "nat \<Rightarrow> Task \<Rightarrow> nat" where
  "task_work n (ConnectDone ok) = token_work n (Inl ())"
| "task_work n (ResultDone i vs result) = token_work n (Inr (i, vs))"
| "task_work n CancelTimer = 1"

definition call_work :: "nat \<Rightarrow> PollCall \<Rightarrow> nat" where
  "call_work n call = 1 + (\<Sum>t\<leftarrow>call_tokens call. token_work n t + 3)"

definition work :: "DevicePoller \<Rightarrow> nat" where
  "work p = (let n = length (blocks p) in (\<Sum>call\<leftarrow>inbox p. call_work n call) +
     (\<Sum>t\<leftarrow>owed (client p). token_work n t) + client_left (client p) + (\<Sum>t\<leftarrow>mailbox p. task_work n t))"

lemma task_work_post_reply [simp]: "task_work n (post_reply r) = token_work n (reply_token r)"
  by (cases r) auto

lemma client_event_work:
  assumes "p' = p\<lparr>client := c, mailbox := mailbox p @ map post_reply rs\<rparr>"
    and "good_step e (client p) (Some (c, rs))"
  shows "work p' + client_left (client p) =
    work p + (\<Sum>t\<leftarrow>event_tokens e. token_work (length (blocks p)) t) + client_left c"
proof -
  let ?n = "length (blocks p)"
  have "map reply_token rs @ owed c = owed (client p) @ event_tokens e"
    using assms(2) unfolding good_step_def by blast
  from arg_cong [OF this, of "\<lambda>ts. \<Sum>t\<leftarrow>ts. token_work ?n t"]
  have "(\<Sum>t\<leftarrow>map reply_token rs. token_work ?n t) + (\<Sum>t\<leftarrow>owed c. token_work ?n t) =
      (\<Sum>t\<leftarrow>owed (client p). token_work ?n t) + (\<Sum>t\<leftarrow>event_tokens e. token_work ?n t)"
    by (simp only: map_append sum_list_append)
  moreover have "(\<Sum>t\<leftarrow>map post_reply rs. task_work ?n t) = (\<Sum>t\<leftarrow>map reply_token rs. token_work ?n t)"
    by (simp add: comp_def)
  ultimately show ?thesis by (simp only: work_def assms(1) Let_def) simp
qed

lemma work_cong:
  "blocks p' = blocks p \<Longrightarrow> inbox p' = inbox p \<Longrightarrow> client p' = client p \<Longrightarrow> mailbox p' = mailbox p \<Longrightarrow>
   work p' = work p"
  by (simp add: work_def)

lemma schedule_next_work [simp]: "work (schedule_next now p) = work p"
  by (rule work_cong) (simp_all add: schedule_next_def Let_def)

lemma publish_event_work [simp]: "work (publish_event ev p) = work p"
  by (rule work_cong) (simp_all add: publish_event_def)

lemma publish_status_work [simp]: "work (publish_status now online p) = work p"
proof -
  have "work (p\<lparr>last_status := Some online\<rparr>) = work p" by (rule work_cong) simp_all
  then show ?thesis by (simp add: publish_status_def)
qed

lemma publish_readings_work [simp]: "work (publish_readings t ss vs p) = work p"
  by (induction t ss vs p rule: publish_readings.induct) simp_all

lemma fail_cycle_work [simp]: "work (fail_cycle now msg p) = work p"
  by (simp add: fail_cycle_def Let_def)

lemma read_block_work: "work (read_block now i vs p) = work p + 5 * (length (blocks p) - i)"
proof (cases "length (blocks p) \<le> i")
  case True
  then show ?thesis by (simp add: read_block_def finish_cycle_def)
next
  case False
  then show ?thesis
    by (simp add: read_block_def Let_def work_def call_work_def)
qed

lemma mailbox_work: "mailbox p = t # rest \<Longrightarrow> work p = task_work (length (blocks p)) t + work (p\<lparr>mailbox := rest\<rparr>)"
  by (simp add: work_def Let_def)

lemma inbox_work: "inbox p = call # rest \<Longrightarrow> work p = call_work (length (blocks p)) call + work (p\<lparr>inbox := rest\<rparr>)"
  by (simp add: work_def Let_def)

lemma call_step_work:
  assumes "poll_inv p" "inbox p = call # rest" "client_event (Invoke call) (p\<lparr>inbox := rest\<rparr>) = Some p'"
  shows "work p' < work p"
proof -
  let ?p = "p\<lparr>inbox := rest\<rparr>" and ?n = "length (blocks p)"
  from assms(1) have inv: "client_inv (client p)" using poll_wfD(1) by (simp add: poll_inv_def)
  note polite = take_call(2) [OF assms(1,2)]
  from assms(3) obtain c rs where p': "p' = ?p\<lparr>client := c, mailbox := mailbox ?p @ map post_reply rs\<rparr>"
    and c: "client_call call (client p) = (c, rs)"
    by (cases "client_call call (client p)") (auto simp: client_event_def)
  have good: "good_step (Invoke call) (client p) (Some (c, rs))"
    using client_do_good [OF inv _ polite] c by simp
  have "client_left c \<le> client_left (client p) + 3 * length (call_tokens call)"
  proof (cases "call = Close")
    case True
    with c have "ops c = ops (client p)" by (auto simp: client_close_def close_socket_def disarm_deadline_def)
    then show ?thesis by simp
  next
    case False
    from good have "client_inv c" unfolding good_step_def by blast
    with client_left_inv have "client_left c \<le> 3" by blast
    with False show ?thesis by (cases call) simp_all
  qed
  moreover have "work p' + client_left (client p) =
      work ?p + (\<Sum>t\<leftarrow>call_tokens call. token_work ?n t) + client_left c"
    using client_event_work [OF p', of "Invoke call"] good by simp
  moreover have "(\<Sum>t\<leftarrow>call_tokens call. token_work ?n t) + 3 * length (call_tokens call) < call_work ?n call"
    by (simp add: call_work_def sum_list_addf sum_list_triv)
  ultimately show ?thesis using inbox_work [OF assms(2)] by linarith
qed

lemma io_step_work:
  assumes "poll_inv p" "allowed (Complete i ec bs) (client p)" "client_event (Complete i ec bs) p = Some p'"
  shows "work p' < work p"
proof -
  from assms(1) have inv: "client_inv (client p)" using poll_wfD(1) by (simp add: poll_inv_def)
  let ?e = "Complete i ec bs :: PollClientEvent"
  from client_do_good [OF inv assms(2)] assms(3) obtain c rs where
    p': "p' = p\<lparr>client := c, mailbox := mailbox p @ map post_reply rs\<rparr>"
    and good: "good_step ?e (client p) (Some (c, rs))"
    by (auto simp: client_event_def simp del: client_do.simps)
  from good have "client_left c < client_left (client p)" unfolding good_step_def by auto
  with client_event_work [OF p' good] show ?thesis by simp
qed

lemma task_step_work:
  assumes "poll_inv p" "mailbox p = t # rest" "run_task now t (p\<lparr>mailbox := rest\<rparr>) = Some p'"
  shows "work p' < work p"
proof -
  let ?p = "p\<lparr>mailbox := rest\<rparr>" and ?n = "length (blocks p)"
  note w = mailbox_work [OF assms(2)]
  show ?thesis
  proof (cases t)
    case (ConnectDone ok)
    with assms(3) have "p' = on_connected now ok ?p" by simp
    then have "work p' \<le> work ?p + 5 * ?n" by (auto simp: on_connected_def read_block_work)
    with w ConnectDone show ?thesis by simp
  next
    case (ResultDone i vs result)
    with take_task(2) [OF assms(1,2)] have i: "i < ?n" by (auto simp: callback_ok_def)
    from ResultDone assms(3) have "on_result now i vs result ?p = Some p'" by simp
    then have "work p' \<le> work ?p + 5 * (?n - (i + 1))"
      by (auto simp: on_result_def read_block_work split: if_splits RegistersResult.splits bind_splits)
    with w ResultDone i show ?thesis by simp
  next
    case CancelTimer
    with assms(3) have "p' = ?p\<lparr>timer_armed := False\<rparr>" by simp
    then have "work p' = work ?p" by (intro work_cong) simp_all
    with w CancelTimer show ?thesis by simp
  qed
qed

lemma cycle_step_work:
  assumes "cycle_step p (Some p')" "poll_inv p"
  shows "work p' < work p"
  using assms(1)
proof (cases rule: cycle_step.cases)
  case (call_step call rest)
  then show ?thesis using call_step_work [OF assms(2)] by metis
next
  case (io_step i ec bs)
  then show ?thesis using io_step_work [OF assms(2)] by metis
next
  case (task_step t rest now)
  then show ?thesis using task_step_work [OF assms(2)] by metis
qed

text \<open>A run inside one cycle: its own steps, counted, with deadline handlers in between.\<close>

inductive cycle_run :: "DevicePoller \<Rightarrow> nat \<Rightarrow> DevicePoller \<Rightarrow> bool" where
  no_step: "cycle_run p 0 p"
| own_step: "cycle_run p n p1 \<Longrightarrow> cycle_step p1 (Some p2) \<Longrightarrow> cycle_run p (Suc n) p2"
| timeout_step: "cycle_run p n p1 \<Longrightarrow> allowed (DeadlineWait i ec) (client p1) \<Longrightarrow>
    client_event (DeadlineWait i ec) p1 = Some p2 \<Longrightarrow> cycle_run p n p2"

lemma on_deadline_work:
  assumes "poll_inv p" "allowed (DeadlineWait i ec) (client p)" "client_event (DeadlineWait i ec) p = Some p'"
  shows "poll_inv p' \<and> work p' = work p"
  using deadline_step_inv [OF assms(1,2)] assms(3) by (auto simp: work_def same_context_def)

lemma cycle_run_work: "cycle_run p n p' \<Longrightarrow> poll_inv p \<Longrightarrow> poll_inv p' \<and> n + work p' \<le> work p"
proof (induction rule: cycle_run.induct)
  case (own_step p n p1 p2)
  then have "poll_inv p1" "n + work p1 \<le> work p" by simp_all
  with cycle_step_inv [OF own_step.hyps(2)] cycle_step_work [OF own_step.hyps(2)] show ?case by fastforce
next
  case (timeout_step p n p1 i ec p2)
  with on_deadline_work show ?case by fastforce
qed simp

lemma cycle_progress:
  assumes "poll_inv p" "\<not> stopped p" "\<not> timer_armed p"
  shows "\<exists>p'. cycle_step p (Some p')"
proof -
  have "activity p = 1" using assms by (simp add: poll_inv_def)
  then consider "inbox p \<noteq> []" | "ops (client p) \<noteq> []" | "mailbox p \<noteq> []"
    using assms(3) by (cases "inbox p"; cases "ops (client p)"; cases "mailbox p") (auto simp: activity_def)
  then show ?thesis
  proof cases
    case 1
    then obtain call rest where "inbox p = call # rest" by (cases "inbox p") auto
    then have "cycle_step p (client_event (Invoke call) (p\<lparr>inbox := rest\<rparr>))" by (rule cycle_step.call_step)
    with cycle_step_inv [OF this assms(1)] show ?thesis by auto
  next
    case 2
    from assms(1) have "client_inv (client p)" using poll_wfD(1) by (simp add: poll_inv_def)
    from fail_allowed [OF this 2, of "[]"] have "cycle_step p (client_event (Complete 0 (Some []) []) p)"
      by (rule cycle_step.io_step)
    with cycle_step_inv [OF this assms(1)] show ?thesis by auto
  next
    case 3
    then obtain t rest where "mailbox p = t # rest" by (cases "mailbox p") auto
    then have "cycle_step p (run_task \<lparr>steady = 0, wall = 0\<rparr> t (p\<lparr>mailbox := rest\<rparr>))"
      by (rule cycle_step.task_step)
    with cycle_step_inv [OF this assms(1)] show ?thesis by auto
  qed
qed

lemma work_bound:
  assumes "poll_inv p" "\<not> stopped p"
  shows "work p \<le> 5 * length (blocks p) + 5"
proof -
  let ?n = "length (blocks p)" and ?B = "5 * length (blocks p) + 5"
  from assms have wf: "poll_wf p" and a: "activity p = 1" by (simp_all add: poll_inv_def)
  note wfs = poll_wfD [OF wf]
  have tok: "token_work ?n t \<le> 5 * ?n + 1" for t by (cases "(?n, t)" rule: token_work.cases) auto
  have calls: "filter (\<lambda>call. call \<noteq> Close) (inbox p) = inbox p"
    using wfs(3) assms(2) by (auto simp: filter_id_conv)
  have tasks: "filter is_cycle_task (mailbox p) = mailbox p"
    using wfs(5) assms(2) by (auto simp: filter_id_conv is_cycle_task_def)
  have "call_work ?n call \<le> ?B" for call
    using tok [of "Inl ()"] tok by (cases call) (auto simp: call_work_def intro: order_trans)
  then have 1: "(\<Sum>call\<leftarrow>inbox p. call_work ?n call) \<le> ?B * length (inbox p)"
    using sum_list_mono [of "inbox p" "call_work ?n" "\<lambda>_. ?B"] by (simp add: sum_list_triv mult.commute)
  from wfs(1) have 2: "(\<Sum>t\<leftarrow>owed (client p). token_work ?n t) + client_left (client p) \<le> ?B * length (ops (client p))"
  proof (cases rule: client_inv_cases)
    case (2 oper op_open)
    have "op_left oper \<le> 3" by (cases oper) simp_all
    then show ?thesis using tok [of "op_token oper"] unfolding 2(1) by simp
  qed simp
  have "task_work ?n t \<le> ?B" for t by (cases t) auto
  then have 3: "(\<Sum>t\<leftarrow>mailbox p. task_work ?n t) \<le> ?B * length (mailbox p)"
    using sum_list_mono [of "mailbox p" "task_work ?n" "\<lambda>_. ?B"] by (simp add: sum_list_triv mult.commute)
  have "length (inbox p) + length (ops (client p)) + length (mailbox p) \<le> 1"
    using a by (simp add: activity_def calls tasks split: if_splits)
  from mult_le_mono2 [OF this, of ?B]
  have "?B * length (inbox p) + ?B * length (ops (client p)) + ?B * length (mailbox p) \<le> ?B"
    by (simp only: add_mult_distrib2 mult_1_right)
  from order_trans [OF add_mono [OF add_mono [OF 1 2] 3] this] show ?thesis
    by (simp only: work_def Let_def add.assoc)
qed

text \<open>For the witnesses: a device with one sensor, whose name does not resolve.\<close>

definition demo_device :: ModbusDeviceConfig where
  "demo_device = default_ModbusDeviceConfig\<lparr>sensors := [default_SensorConfig]\<rparr>"

definition midnight :: Clock where "midnight = \<lparr>steady = 0, wall = 0\<rparr>"

definition demo_poller :: DevicePoller where
  "demo_poller = poller_start midnight (DevicePoller_create sort_key demo_device)"

definition demo_offline :: DevicePoller where
  "demo_offline = fail_cycle midnight (''cannot connect to :'' @ dec_nat 502) (demo_poller\<lparr>inbox := [],
     client := (client demo_poller)\<lparr>deadline_generation := 2, waits := [1]\<rparr>, mailbox := []\<rparr>)"

lemma demo_poller_reachable: "poll_reachable sort_key demo_device demo_poller"
  unfolding demo_poller_def by (rule started)

lemma demo_poller_fields: "\<not> stopped demo_poller" "inbox demo_poller = [Connect ()]" "mailbox demo_poller = []"
  "client demo_poller = ModbusClient_create 3000" "config demo_poller = demo_device"
  "\<not> timer_armed demo_poller" "bus demo_poller = []" "last_status demo_poller = None"
  by (simp_all add: demo_poller_def poller_start_def run_cycle_def DevicePoller_create_def
    ModbusClient_create_def demo_device_def default_ModbusDeviceConfig_def)

lemma demo_offline_reachable: "poll_reachable sort_key demo_device demo_offline"
proof -
  define p1 where "p1 = demo_poller\<lparr>inbox := [], client := (ModbusClient_create 3000)
    \<lparr>deadline_generation := 1, waits := [1], ops := [(Resolving (), False)]\<rparr>\<rparr>"
  define p2 where "p2 = demo_poller\<lparr>inbox := [], mailbox := [ConnectDone False],
    client := (ModbusClient_create 3000)\<lparr>deadline_generation := 2, waits := [1]\<rparr>\<rparr>"
  have "client_event (Invoke (Connect ())) (demo_poller\<lparr>inbox := []\<rparr>) = Some p1"
    by (simp add: client_event_def p1_def demo_poller_fields ModbusClient_create_def client_defs Let_def)
  with poll_step.of_cycle [OF cycle_step.call_step [OF demo_poller_fields(2)]] stepped [OF demo_poller_reachable]
  have 1: "poll_reachable sort_key demo_device p1" by simp
  have "client_event (Complete 0 (Some ''not found'') []) p1 = Some p2"
    by (simp add: client_event_def p1_def p2_def demo_poller_fields ModbusClient_create_def client_defs
        remove_at_def)
  moreover have "allowed (Complete 0 (Some ''not found'') []) (client p1)" by (simp add: p1_def)
  ultimately have 2: "poll_reachable sort_key demo_device p2"
    using poll_step.of_cycle [OF cycle_step.io_step] stepped [OF 1] by metis
  have m: "mailbox p2 = ConnectDone False # []" by (simp add: p2_def)
  have "run_task midnight (ConnectDone False) (p2\<lparr>mailbox := []\<rparr>) = Some demo_offline"
    by (simp add: p2_def on_connected_def demo_poller_fields demo_offline_def demo_device_def
        default_ModbusDeviceConfig_def)
  with poll_step.of_cycle [OF cycle_step.task_step [OF m, of midnight]] stepped [OF 2] show ?thesis by simp
qed

section \<open>Properties\<close>

text \<open>C7. The poller and its client never access memory out of range and never have two requests
  outstanding, whatever the device sends, however timeouts fall, and whenever \<open>stop\<close> comes: in every
  reachable state every possible step is defined, and at most one request is queued or in flight.\<close>

theorem poller_no_fault:
  assumes "std_sort srt" and "poll_reachable srt cfg p" and "poll_step p result"
  shows "result \<noteq> None \<and>
    length (filter (\<lambda>call. call \<noteq> Close) (inbox p)) + length (ops (client p)) \<le> 1"
proof -
  from poll_reachable_inv [OF assms(2,1)] have "poll_inv p" .
  with poll_step_inv [OF assms(3)] show ?thesis by (auto simp: poll_inv_def activity_def)
qed

theorem poller_no_fault_witness:
  "client_event (Invoke (Connect ())) (demo_poller\<lparr>inbox := []\<rparr>) \<noteq> None"
  using poller_no_fault [OF std_sort_sort_key demo_poller_reachable
      poll_step.of_cycle [OF cycle_step.call_step [OF demo_poller_fields(2)]]] by simp

text \<open>C6. Every polling cycle ends: from any reachable state of a running poller, at most five steps
  per planned block and five more lead back to the armed timer, whatever the replies and however many
  deadlines expire in between; and until the timer is armed a next step is always possible.\<close>

theorem poller_cycle_terminates:
  assumes "std_sort srt" and "poll_reachable srt cfg p" and "\<not> stopped p" and "cycle_run p n p'"
  shows "n \<le> 5 * length (blocks p) + 5 \<and> (stopped p' \<or> timer_armed p' \<or> (\<exists>p''. cycle_step p' (Some p'')))"
proof -
  from poll_reachable_inv [OF assms(2,1)] have inv: "poll_inv p" .
  from cycle_run_work [OF assms(4) inv] work_bound [OF inv assms(3)]
  have "n \<le> 5 * length (blocks p) + 5" and "poll_inv p'" by simp_all
  with cycle_progress show ?thesis by blast
qed

theorem poller_cycle_terminates_witness:
  "\<exists>p''. cycle_step demo_poller (Some p'')"
  using poller_cycle_terminates [OF std_sort_sort_key demo_poller_reachable _ cycle_run.no_step]
  by (simp add: demo_poller_fields)

text \<open>C8. What a poller publishes, over any run: its status events alternate between online and offline
  (no transition is reported twice), the remembered status is
  the last one published, and every reading is a finite number of one of the device's sensors.\<close>

theorem poller_publishes:
  assumes "std_sort srt" and "poll_reachable srt cfg p"
  shows "distinct_adj (statuses p) \<and>
    last_status p = (if statuses p = [] then None else Some (last (statuses p))) \<and>
    (\<forall>r. Reading r \<in> set (bus p) \<longrightarrow> d_finite (r_value r) \<and> r_sensor_id r \<in> sensor_id ` set (sensors (config p)))"
proof -
  have "bus_inv p"
    using poll_reachable_inv [OF assms(2,1)] poll_wfD(2) by (simp add: poll_inv_def)
  then show ?thesis unfolding bus_inv_def using reading_ok.simps(1) by blast
qed

theorem poller_publishes_witness:
  "statuses demo_offline = [False] \<and> last_status demo_offline = Some False"
  using poller_publishes [OF std_sort_sort_key demo_offline_reachable]
  by (simp add: demo_offline_def fail_cycle_def schedule_next_def publish_status_def publish_event_def
    demo_poller_fields statuses_def ModbusClient_create_def Let_def)

end
