(* ===== verification/SpscConcurrent.thy ===== *)
theory SpscConcurrent
  imports SpscRing
begin

text \<open>
  \<open>ingest/ring_buffer.hpp\<close>, the two threads interleaved: every load, store, construction, move and
  destruction of \<open>emplace\<close> and \<open>pop\<close> is a step of its own. An acquire load of the other thread's
  index may return a stale value: any value that index has had since the one this thread last
  read (per-location coherence); what release/acquire orders is that the elements below the value
  read are visible. \<open>pushed\<close>, \<open>popped\<close>, \<open>head_read\<close> and \<open>tail_read\<close> are ghost state: the elements
  published and taken, and how much of the other side each thread has seen.
\<close>

section \<open>States and steps\<close>

datatype 'a producer_pc = P_idle | P_test 'a u64 | P_reload 'a u64 | P_retest 'a u64
  | P_construct 'a u64 | P_publish 'a u64

datatype 'a consumer_pc = C_idle | C_test u64 | C_reload u64 | C_retest u64 | C_move u64
  | C_destroy 'a u64 | C_publish 'a u64

record 'a conc =
  ring :: "'a SpscRingBuffer"
  ppc :: "'a producer_pc"
  cpc :: "'a consumer_pc"
  pushed :: "'a list"
  popped :: "'a list"
  head_read :: nat
  tail_read :: nat

inductive conc_step :: "'a conc \<Rightarrow> 'a conc \<Rightarrow> bool" where
  p_call: "ppc s = P_idle \<Longrightarrow> conc_step s (s\<lparr>ppc := P_test x (rb_tail (ring s))\<rparr>)"
| p_test: "ppc s = P_test x t \<Longrightarrow>
    conc_step s (s\<lparr>ppc := (if rb_capacity (ring s) \<le> t - rb_head_cached (ring s)
                           then P_reload x t else P_construct x t)\<rparr>)"
| p_reload: "ppc s = P_reload x t \<Longrightarrow> head_read s \<le> k \<Longrightarrow> k \<le> length (popped s) \<Longrightarrow>
    conc_step s (s\<lparr>ppc := P_retest x t, head_read := k,
                   ring := ring s\<lparr>rb_head_cached := of_nat k\<rparr>\<rparr>)"
| p_full: "ppc s = P_retest x t \<Longrightarrow> rb_capacity (ring s) \<le> t - rb_head_cached (ring s) \<Longrightarrow>
    conc_step s (s\<lparr>ppc := P_idle\<rparr>)"
| p_room: "ppc s = P_retest x t \<Longrightarrow> \<not> rb_capacity (ring s) \<le> t - rb_head_cached (ring s) \<Longrightarrow>
    conc_step s (s\<lparr>ppc := P_construct x t\<rparr>)"
| p_construct: "ppc s = P_construct x t \<Longrightarrow>
    construct_at (rb_slots (ring s)) (unat (t AND rb_mask (ring s))) x = Some sl \<Longrightarrow>
    conc_step s (s\<lparr>ppc := P_publish x t, ring := ring s\<lparr>rb_slots := sl\<rparr>\<rparr>)"
| p_publish: "ppc s = P_publish x t \<Longrightarrow>
    conc_step s (s\<lparr>ppc := P_idle, ring := ring s\<lparr>rb_tail := t + 1\<rparr>, pushed := pushed s @ [x]\<rparr>)"
| c_call: "cpc s = C_idle \<Longrightarrow> conc_step s (s\<lparr>cpc := C_test (rb_head (ring s))\<rparr>)"
| c_test: "cpc s = C_test h \<Longrightarrow>
    conc_step s (s\<lparr>cpc := (if h = rb_tail_cached (ring s) then C_reload h else C_move h)\<rparr>)"
| c_reload: "cpc s = C_reload h \<Longrightarrow> tail_read s \<le> k \<Longrightarrow> k \<le> length (pushed s) \<Longrightarrow>
    conc_step s (s\<lparr>cpc := C_retest h, tail_read := k,
                   ring := ring s\<lparr>rb_tail_cached := of_nat k\<rparr>\<rparr>)"
| c_empty: "cpc s = C_retest h \<Longrightarrow> h = rb_tail_cached (ring s) \<Longrightarrow> conc_step s (s\<lparr>cpc := C_idle\<rparr>)"
| c_some: "cpc s = C_retest h \<Longrightarrow> h \<noteq> rb_tail_cached (ring s) \<Longrightarrow> conc_step s (s\<lparr>cpc := C_move h\<rparr>)"
| c_move: "cpc s = C_move h \<Longrightarrow>
    take_from (rb_slots (ring s)) (unat (h AND rb_mask (ring s))) = Some (x, sl) \<Longrightarrow>
    conc_step s (s\<lparr>cpc := C_destroy x h\<rparr>)"
| c_destroy: "cpc s = C_destroy x h \<Longrightarrow>
    take_from (rb_slots (ring s)) (unat (h AND rb_mask (ring s))) = Some (y, sl) \<Longrightarrow>
    conc_step s (s\<lparr>cpc := C_publish x h, ring := ring s\<lparr>rb_slots := sl\<rparr>\<rparr>)"
| c_publish: "cpc s = C_publish x h \<Longrightarrow>
    conc_step s (s\<lparr>cpc := C_idle, ring := ring s\<lparr>rb_head := h + 1\<rparr>, popped := popped s @ [x]\<rparr>)"

inductive_cases conc_stepE: "conc_step s s'"

definition conc_init :: "'a SpscRingBuffer \<Rightarrow> 'a conc" where
  "conc_init q = \<lparr>ring = q, ppc = P_idle, cpc = C_idle, pushed = [], popped = [],
     head_read = 0, tail_read = 0\<rparr>"

inductive conc_reachable :: "u64 \<Rightarrow> 'a conc \<Rightarrow> bool" for cap where
  start: "SpscRingBuffer_make cap = Inr q \<Longrightarrow> conc_reachable cap (conc_init q)"
| step: "conc_reachable cap s \<Longrightarrow> conc_step s s' \<Longrightarrow> conc_reachable cap s'"

section \<open>The invariant\<close>

abbreviation np :: "'a conc \<Rightarrow> nat" where "np s \<equiv> length (pushed s)"
abbreviation nc :: "'a conc \<Rightarrow> nat" where "nc s \<equiv> length (popped s)"

fun pending :: "'a producer_pc \<Rightarrow> 'a option" where
  "pending (P_publish x t) = Some x"
| "pending _ = None"

fun vacated :: "'a consumer_pc \<Rightarrow> bool" where
  "vacated (C_publish x h) = True"
| "vacated _ = False"

text \<open>What slot \<open>i\<close> of the window \<open>[nc, nc + capacity)\<close> holds.\<close>

definition expected :: "'a conc \<Rightarrow> nat \<Rightarrow> 'a option" where
  "expected s i = (if i = nc s \<and> vacated (cpc s) then None
     else if i < np s then Some (pushed s ! i)
     else if i = np s then pending (ppc s) else None)"

fun ppc_ok :: "'a conc \<Rightarrow> 'a producer_pc \<Rightarrow> bool" where
  "ppc_ok s P_idle = True"
| "ppc_ok s (P_test x t) = (t = of_nat (np s))"
| "ppc_ok s (P_reload x t) = (t = of_nat (np s))"
| "ppc_ok s (P_retest x t) = (t = of_nat (np s))"
| "ppc_ok s (P_construct x t) =
     (t = of_nat (np s) \<and> np s - head_read s < unat (rb_capacity (ring s)))"
| "ppc_ok s (P_publish x t) =
     (t = of_nat (np s) \<and> np s - head_read s < unat (rb_capacity (ring s)))"

fun cpc_ok :: "'a conc \<Rightarrow> 'a consumer_pc \<Rightarrow> bool" where
  "cpc_ok s C_idle = True"
| "cpc_ok s (C_test h) = (h = of_nat (nc s))"
| "cpc_ok s (C_reload h) = (h = of_nat (nc s))"
| "cpc_ok s (C_retest h) = (h = of_nat (nc s))"
| "cpc_ok s (C_move h) = (h = of_nat (nc s) \<and> nc s < tail_read s)"
| "cpc_ok s (C_destroy x h) = (h = of_nat (nc s) \<and> nc s < tail_read s \<and> x = pushed s ! nc s)"
| "cpc_ok s (C_publish x h) = (h = of_nat (nc s) \<and> nc s < tail_read s \<and> x = pushed s ! nc s)"

definition conc_shape :: "u64 \<Rightarrow> 'a conc \<Rightarrow> bool" where
  "conc_shape cap s \<longleftrightarrow> (\<exists>k. ring_capacity cap k) \<and> rb_capacity (ring s) = cap \<and>
     rb_mask (ring s) = cap - 1 \<and> length (rb_slots (ring s)) = unat cap \<and>
     rb_tail (ring s) = of_nat (np s) \<and> rb_head (ring s) = of_nat (nc s) \<and>
     rb_head_cached (ring s) = of_nat (head_read s) \<and> rb_tail_cached (ring s) = of_nat (tail_read s) \<and>
     head_read s \<le> nc s \<and> nc s \<le> tail_read s \<and> tail_read s \<le> np s \<and>
     np s - head_read s \<le> unat cap"

definition conc_inv :: "u64 \<Rightarrow> 'a conc \<Rightarrow> bool" where
  "conc_inv cap s \<longleftrightarrow> conc_shape cap s \<and> ppc_ok s (ppc s) \<and> cpc_ok s (cpc s) \<and>
     popped s = take (nc s) (pushed s) \<and>
     (\<forall>i < unat cap. rb_slots (ring s) ! ((nc s + i) mod unat cap) = expected s (nc s + i))"

lemma conc_inv_init:
  assumes "SpscRingBuffer_make cap = Inr q"
  shows "conc_inv cap (conc_init q)"
proof -
  have at: "ring_at q 0 []" "rb_capacity q = cap" using ring_make_at [OF assms] .
  have "rb_head_cached q = 0" "rb_tail_cached q = 0"
    using assms by (auto simp: SpscRingBuffer_make_def split: if_splits)
  with at show ?thesis
    by (auto simp: conc_inv_def conc_shape_def conc_init_def ring_at_def expected_def)
qed

text \<open>The two threads address their slots through the window.\<close>

lemma conc_index:
  assumes "conc_shape cap s"
  shows "unat (of_nat n AND rb_mask (ring s)) = n mod unat cap"
  using assms masked_index by (auto simp: conc_shape_def)

lemma conc_capacity:
  assumes "conc_shape cap s"
  shows "0 < unat cap" "unat cap < 2 ^ 64" "np s - nc s \<le> unat cap"
proof -
  obtain k where "ring_capacity cap k" using assms by (auto simp: conc_shape_def)
  then show "0 < unat cap" "unat cap < 2 ^ 64"
    using capacity_less by (auto simp: ring_capacity_def)
  show "np s - nc s \<le> unat cap" using assms by (auto simp: conc_shape_def)
qed

lemma conc_full:
  assumes "conc_shape cap s"
  shows "cap \<le> of_nat (np s) - rb_head_cached (ring s) \<longleftrightarrow> np s - head_read s = unat cap"
  using assms full_test [of cap _ "head_read s" "np s"] by (auto simp: conc_shape_def)

lemma conc_empty:
  assumes "conc_shape cap s"
  shows "of_nat (nc s) = rb_tail_cached (ring s) \<longleftrightarrow> nc s = tail_read s"
  using assms counters_eq [of "nc s" "tail_read s"] conc_capacity [OF assms]
  by (auto simp: conc_shape_def)

lemma construct_target:
  assumes inv: "conc_inv cap s" and pc: "ppc s = P_construct x t"
  shows "unat (t AND rb_mask (ring s)) = np s mod unat cap" (is "?i = _")
    and "construct_at (rb_slots (ring s)) (unat (t AND rb_mask (ring s))) x =
      Some ((rb_slots (ring s))[np s mod unat cap := Some x])"
    and "np s < nc s + unat cap"
proof -
  have shape: "conc_shape cap s" using inv by (simp add: conc_inv_def)
  have ok: "t = of_nat (np s)" "np s - head_read s < unat cap"
    using inv pc by (auto simp: conc_inv_def conc_shape_def)
  show i: "?i = np s mod unat cap" using ok conc_index [OF shape] by simp
  show lt: "np s < nc s + unat cap" using ok shape by (auto simp: conc_shape_def)
  have "nc s \<le> np s" using shape by (auto simp: conc_shape_def)
  with lt inv have "rb_slots (ring s) ! (np s mod unat cap) = expected s (np s)"
    by (auto simp: conc_inv_def dest!: spec [of _ "np s - nc s"])
  then have "rb_slots (ring s) ! (np s mod unat cap) = None" using pc by (simp add: expected_def)
  then show "construct_at (rb_slots (ring s)) ?i x = Some ((rb_slots (ring s))[np s mod unat cap := Some x])"
    using i shape conc_capacity [OF shape] by (simp add: construct_at_def conc_shape_def)
qed

lemma take_target:
  assumes inv: "conc_inv cap s" and pc: "cpc s = C_move h \<or> cpc s = C_destroy x h"
  shows "unat (h AND rb_mask (ring s)) = nc s mod unat cap" (is "?i = _")
    and "take_from (rb_slots (ring s)) (unat (h AND rb_mask (ring s))) =
      Some (pushed s ! nc s, (rb_slots (ring s))[nc s mod unat cap := None])"
    and "nc s < np s"
proof -
  have shape: "conc_shape cap s" using inv by (simp add: conc_inv_def)
  have ok: "h = of_nat (nc s)" "nc s < tail_read s"
    using inv pc by (auto simp: conc_inv_def)
  show i: "?i = nc s mod unat cap" using ok conc_index [OF shape] by simp
  show lt: "nc s < np s" using ok shape by (auto simp: conc_shape_def)
  have "rb_slots (ring s) ! (nc s mod unat cap) = expected s (nc s)"
    using inv conc_capacity [OF shape] by (auto simp: conc_inv_def dest!: spec [of _ "0::nat"])
  then have "rb_slots (ring s) ! (nc s mod unat cap) = Some (pushed s ! nc s)"
    using lt pc by (auto simp: expected_def)
  then show "take_from (rb_slots (ring s)) ?i =
      Some (pushed s ! nc s, (rb_slots (ring s))[nc s mod unat cap := None])"
    using i shape conc_capacity [OF shape] by (simp add: take_from_def conc_shape_def)
qed

section \<open>Every step keeps the invariant\<close>

text \<open>Steps that change neither slots nor published elements keep what the slots hold.\<close>

lemma inv_local:
  assumes inv: "conc_inv cap s" and shape: "conc_shape cap s'"
    and same: "pushed s' = pushed s" "popped s' = popped s"
      "rb_slots (ring s') = rb_slots (ring s)"
      "pending (ppc s') = pending (ppc s)" "vacated (cpc s') = vacated (cpc s)"
    and pcs: "ppc_ok s' (ppc s')" "cpc_ok s' (cpc s')"
  shows "conc_inv cap s'"
proof -
  have "expected s' = expected s" using same by (simp add: expected_def fun_eq_iff)
  with assms show ?thesis by (simp add: conc_inv_def)
qed

lemma shape_pcs:
  "conc_shape cap (s\<lparr>ppc := pc\<rparr>) = conc_shape cap s" "conc_shape cap (s\<lparr>cpc := cc\<rparr>) = conc_shape cap s"
  by (simp_all add: conc_shape_def)

lemma ppc_ok_cpc [simp]: "ppc_ok (s\<lparr>cpc := cc\<rparr>) p = ppc_ok s p" "ppc_ok (s\<lparr>ppc := pc\<rparr>) p = ppc_ok s p"
  by (cases p; simp)+

lemma cpc_ok_ppc [simp]: "cpc_ok (s\<lparr>ppc := pc\<rparr>) p = cpc_ok s p" "cpc_ok (s\<lparr>cpc := cc\<rparr>) p = cpc_ok s p"
  by (cases p; simp)+

lemma inv_ppc:
  assumes "conc_inv cap s" "pending pc = pending (ppc s)" "ppc_ok s pc"
  shows "conc_inv cap (s\<lparr>ppc := pc\<rparr>)"
  using assms by (intro inv_local [OF assms(1)]) (auto simp: conc_inv_def shape_pcs)

lemma inv_cpc:
  assumes "conc_inv cap s" "vacated pc = vacated (cpc s)" "cpc_ok s pc"
  shows "conc_inv cap (s\<lparr>cpc := pc\<rparr>)"
  using assms by (intro inv_local [OF assms(1)]) (auto simp: conc_inv_def shape_pcs)

text \<open>The producer reads a later index of the consumer: its room only grows.\<close>

lemma shape_head_read:
  assumes "conc_shape cap s" "head_read s \<le> k" "k \<le> nc s"
  shows "conc_shape cap (s\<lparr>ppc := pc, head_read := k, ring := ring s\<lparr>rb_head_cached := of_nat k\<rparr>\<rparr>)"
  using assms by (auto simp: conc_shape_def)

lemma shape_tail_read:
  assumes "conc_shape cap s" "tail_read s \<le> k" "k \<le> np s"
  shows "conc_shape cap (s\<lparr>cpc := pc, tail_read := k, ring := ring s\<lparr>rb_tail_cached := of_nat k\<rparr>\<rparr>)"
  using assms by (auto simp: conc_shape_def)

lemma inv_p_construct:
  assumes inv: "conc_inv cap s" and pc: "ppc s = P_construct x t"
  shows "conc_inv cap (s\<lparr>ppc := P_publish x t,
    ring := ring s\<lparr>rb_slots := (rb_slots (ring s))[np s mod unat cap := Some x]\<rparr>\<rparr>)" (is "conc_inv cap ?s'")
proof -
  have shape: "conc_shape cap s" using inv by (simp add: conc_inv_def)
  have lt: "np s < nc s + unat cap" using construct_target(3) [OF inv pc] .
  have le: "nc s \<le> np s" using shape by (auto simp: conc_shape_def)
  have "rb_slots (ring ?s') ! ((nc s + i) mod unat cap) = expected ?s' (nc s + i)" if i: "i < unat cap" for i
  proof -
    have "(rb_slots (ring s))[(nc s + (np s - nc s)) mod unat cap := Some x] ! ((nc s + i) mod unat cap) =
        (if i = np s - nc s then Some x else expected s (nc s + i))"
      using inv shape conc_capacity [OF shape] lt le i
      by (intro window_update) (auto simp: conc_inv_def conc_shape_def)
    moreover have "expected ?s' (nc s + i) = (if i = np s - nc s then Some x else expected s (nc s + i))"
      using inv le pc by (cases "cpc s") (auto simp: expected_def conc_inv_def conc_shape_def)
    ultimately show ?thesis using le by simp
  qed
  moreover have "cpc_ok ?s' (cpc s)" using inv by (cases "cpc s") (auto simp: conc_inv_def)
  ultimately show ?thesis
    using inv pc by (auto simp: conc_inv_def conc_shape_def)
qed

lemma inv_p_publish:
  assumes inv: "conc_inv cap s" and pc: "ppc s = P_publish x t"
  shows "conc_inv cap (s\<lparr>ppc := P_idle, ring := ring s\<lparr>rb_tail := t + 1\<rparr>, pushed := pushed s @ [x]\<rparr>)"
    (is "conc_inv cap ?s'")
proof -
  have ok: "t = of_nat (np s)" "np s - head_read s < unat cap"
    using inv pc by (auto simp: conc_inv_def conc_shape_def)
  have shape: "conc_shape cap s" using inv by (simp add: conc_inv_def)
  then have "conc_shape cap ?s'" using ok by (auto simp: conc_shape_def)
  moreover have "expected ?s' i = expected s i" for i
    using pc by (auto simp: expected_def nth_append less_Suc_eq)
  moreover have "cpc_ok ?s' (cpc s)"
    using inv by (cases "cpc s") (auto simp: conc_inv_def conc_shape_def nth_append)
  moreover have "nc s \<le> np s" using shape by (auto simp: conc_shape_def)
  ultimately show ?thesis
    using inv by (auto simp: conc_inv_def)
qed

lemma inv_c_destroy:
  assumes inv: "conc_inv cap s" and pc: "cpc s = C_destroy x h"
  shows "conc_inv cap (s\<lparr>cpc := C_publish x h,
    ring := ring s\<lparr>rb_slots := (rb_slots (ring s))[nc s mod unat cap := None]\<rparr>\<rparr>)" (is "conc_inv cap ?s'")
proof -
  have shape: "conc_shape cap s" using inv by (simp add: conc_inv_def)
  have "rb_slots (ring ?s') ! ((nc s + i) mod unat cap) = expected ?s' (nc s + i)" if i: "i < unat cap" for i
  proof -
    have "(rb_slots (ring s))[(nc s + 0) mod unat cap := None] ! ((nc s + i) mod unat cap) =
        (if i = 0 then None else expected s (nc s + i))"
      using inv shape conc_capacity [OF shape] i
      by (intro window_update) (auto simp: conc_inv_def conc_shape_def)
    moreover have "expected ?s' (nc s + i) = (if i = 0 then None else expected s (nc s + i))"
      using pc by (auto simp: expected_def)
    ultimately show ?thesis by simp
  qed
  moreover have "ppc_ok ?s' (ppc s)" using inv by (cases "ppc s") (auto simp: conc_inv_def)
  ultimately show ?thesis
    using inv pc by (auto simp: conc_inv_def conc_shape_def)
qed

lemma inv_c_publish:
  assumes inv: "conc_inv cap s" and pc: "cpc s = C_publish x h"
  shows "conc_inv cap (s\<lparr>cpc := C_idle, ring := ring s\<lparr>rb_head := h + 1\<rparr>, popped := popped s @ [x]\<rparr>)"
    (is "conc_inv cap ?s'")
proof -
  have shape: "conc_shape cap s" using inv by (simp add: conc_inv_def)
  have ok: "h = of_nat (nc s)" "nc s < tail_read s" "x = pushed s ! nc s"
    using inv pc by (auto simp: conc_inv_def)
  then have lt: "nc s < np s" using shape by (auto simp: conc_shape_def)
  have c: "0 < unat cap" using conc_capacity [OF shape] by blast
  have "conc_shape cap ?s'" using shape ok by (auto simp: conc_shape_def)
  moreover have "popped s @ [x] = take (nc s + 1) (pushed s)"
    using inv ok lt by (simp add: conc_inv_def take_Suc_conv_app_nth)
  moreover have "rb_slots (ring s) ! ((nc s + 1 + i) mod unat cap) = expected ?s' (nc s + 1 + i)"
    if i: "i < unat cap" for i
  proof (cases "i + 1 < unat cap")
    case True
    then have "rb_slots (ring s) ! ((nc s + (1 + i)) mod unat cap) = expected s (nc s + (1 + i))"
      using inv unfolding conc_inv_def by (metis add.commute)
    then show ?thesis by (simp add: expected_def add.assoc)
  next
    case False
    then have wrap: "nc s + 1 + i = nc s + unat cap" using i by simp
    have "rb_slots (ring s) ! ((nc s + 0) mod unat cap) = expected s (nc s + 0)"
      using inv c unfolding conc_inv_def by blast
    then have "rb_slots (ring s) ! (nc s mod unat cap) = None" using pc by (simp add: expected_def)
    moreover have "expected ?s' (nc s + unat cap) = None"
      using inv shape c by (cases "ppc s") (auto simp: expected_def conc_inv_def conc_shape_def)
    ultimately show ?thesis unfolding wrap by simp
  qed
  moreover have "ppc_ok ?s' (ppc s)" using inv by (cases "ppc s") (auto simp: conc_inv_def)
  moreover have "min (np s) (Suc (nc s)) = Suc (nc s)" using lt by simp
  ultimately show ?thesis using inv by (simp add: conc_inv_def)
qed

lemma conc_step_inv:
  assumes "conc_step s s'" and inv: "conc_inv cap s"
  shows "conc_inv cap s'"
proof -
  have shape: "conc_shape cap s" using inv by (simp add: conc_inv_def)
  have ok: "ppc_ok s (ppc s)" "cpc_ok s (cpc s)" using inv by (simp_all add: conc_inv_def)
  have cap: "rb_capacity (ring s) = cap" "rb_tail (ring s) = of_nat (np s)"
    "rb_head (ring s) = of_nat (nc s)" using shape by (auto simp: conc_shape_def)
  note full = conc_full [OF shape] and empty = conc_empty [OF shape]
  have bounds: "np s - head_read s \<le> unat cap" "nc s \<le> tail_read s"
    using shape by (auto simp: conc_shape_def)
  from assms(1) show ?thesis
  proof cases
    case (p_reload x t k)
    have "ppc_ok s' (P_retest x t)" "cpc_ok s' (cpc s)"
      using ok p_reload by (cases "cpc s"; simp)+
    then show ?thesis
      using shape_head_read [OF shape p_reload(3,4)] p_reload by (intro inv_local [OF inv]) auto
  next
    case (c_reload h k)
    have "cpc_ok s' (C_retest h)" "ppc_ok s' (ppc s)"
      using ok c_reload by (cases "ppc s"; simp)+
    then show ?thesis
      using shape_tail_read [OF shape c_reload(3,4)] c_reload by (intro inv_local [OF inv]) auto
  next
    case (p_construct x t sl)
    then show ?thesis using inv_p_construct [OF inv] construct_target [OF inv] by simp
  next
    case (c_destroy x h y sl)
    then show ?thesis using inv_c_destroy [OF inv] take_target [OF inv] by simp
  next
    case (c_move h x sl)
    have "x = pushed s ! nc s" using take_target(2) [OF inv] c_move by auto
    then show ?thesis using ok c_move by (auto intro: inv_cpc [OF inv])
  next
    case (p_publish x t)
    then show ?thesis using inv_p_publish [OF inv] by simp
  next
    case (c_publish x h)
    then show ?thesis using inv_c_publish [OF inv] by simp
  next
    case (p_call x)
    then show ?thesis using cap(2) by (auto intro: inv_ppc [OF inv])
  next
    case (p_test x t)
    then show ?thesis using ok full bounds by (auto simp: cap(1) intro: inv_ppc [OF inv])
  next
    case (p_full x t)
    then show ?thesis by (auto intro: inv_ppc [OF inv])
  next
    case (p_room x t)
    then show ?thesis using ok full bounds by (auto simp: cap(1) intro: inv_ppc [OF inv])
  next
    case c_call
    then show ?thesis using cap(3) by (auto intro: inv_cpc [OF inv])
  next
    case (c_test h)
    then show ?thesis using ok empty bounds by (auto intro: inv_cpc [OF inv])
  next
    case (c_empty h)
    then show ?thesis by (auto intro: inv_cpc [OF inv])
  next
    case (c_some h)
    then show ?thesis using ok empty bounds by (auto intro: inv_cpc [OF inv])
  qed
qed

lemma conc_reachable_inv: "conc_reachable cap s \<Longrightarrow> conc_inv cap s"
  by (induction rule: conc_reachable.induct) (auto intro: conc_inv_init conc_step_inv)

section \<open>Properties\<close>

lemma replicate_2: "replicate 2 x = [x, x]"
  by (simp add: numeral_2_eq_2)

text \<open>C12. In every interleaving, with loads as stale as the memory model allows: the producer
  constructs only in raw storage, the consumer moves out of and destroys only a live element, which
  is the oldest not yet taken, and the two never touch the same slot at the same time.\<close>

theorem spsc_no_fault:
  assumes "conc_reachable cap s"
  shows "(\<forall>x t. ppc s = P_construct x t \<longrightarrow>
      construct_at (rb_slots (ring s)) (unat (t AND rb_mask (ring s))) x \<noteq> None) \<and>
    (\<forall>x h. cpc s = C_move h \<or> cpc s = C_destroy x h \<longrightarrow>
      map_option fst (take_from (rb_slots (ring s)) (unat (h AND rb_mask (ring s)))) =
        Some (pushed s ! length (popped s))) \<and>
    (\<forall>x y t h. ppc s = P_construct x t \<longrightarrow> cpc s = C_move h \<or> cpc s = C_destroy y h \<longrightarrow>
      unat (t AND rb_mask (ring s)) \<noteq> unat (h AND rb_mask (ring s)))"
proof -
  have inv: "conc_inv cap s" using assms by (rule conc_reachable_inv)
  have "unat (t AND rb_mask (ring s)) \<noteq> unat (h AND rb_mask (ring s))"
    if pc: "ppc s = P_construct x t" "cpc s = C_move h \<or> cpc s = C_destroy y h" for x y t h
    using mod_eq_window [of "np s" "unat cap" "nc s" "nc s"]
      construct_target(1,3) [OF inv pc(1)] take_target(1,3) [OF inv pc(2)] by auto
  then show ?thesis
    using construct_target(2) [OF inv] take_target(2) [OF inv] by auto
qed

theorem spsc_no_fault_witness:
  "\<exists>s :: nat conc. ppc s = P_construct 5 0 \<and> construct_at (rb_slots (ring s)) 0 5 \<noteq> None"
proof -
  define q :: "nat SpscRingBuffer" where "q = \<lparr>rb_capacity = 2, rb_mask = 1, rb_slots = [None, None],
    rb_tail = 0, rb_head_cached = 0, rb_head = 0, rb_tail_cached = 0\<rparr>"
  have "SpscRingBuffer_make 2 = Inr q"
    by (simp add: SpscRingBuffer_make_def q_def replicate_2)
  then have "conc_reachable 2 (conc_init q)" by (rule conc_reachable.start)
  moreover have "conc_step (conc_init q) (conc_init q\<lparr>ppc := P_test 5 0\<rparr>)"
    using conc_step.p_call [of "conc_init q" 5] by (simp add: conc_init_def q_def)
  moreover have "conc_step (conc_init q\<lparr>ppc := P_test 5 0\<rparr>) (conc_init q\<lparr>ppc := P_construct 5 0\<rparr>)"
    using conc_step.p_test [of "conc_init q\<lparr>ppc := P_test 5 0\<rparr>" 5 0] by (simp add: conc_init_def q_def)
  ultimately have "conc_reachable 2 (conc_init q\<lparr>ppc := P_construct 5 0\<rparr>)"
    by (blast intro: conc_reachable.step)
  from spsc_no_fault [OF this] show ?thesis
    by (intro exI [of _ "conc_init q\<lparr>ppc := P_construct 5 0\<rparr>"]) (simp add: conc_init_def q_def)
qed



end
