(* ===== verification/Spec2Isabelle.thy ===== *)
theory Spec2Isabelle
  imports WsHub ProgramRuns ExportTool ThreadPool Notifier DevicePoller SpscConcurrent ReadingExporter RuleEngine AlertLog SeriesStore
begin

text \<open>
  IronPulse polls Modbus TCP devices, decodes their registers into sensor readings, detects anomalies,
  keeps a history, exports telemetry, notifies people and feeds a dashboard. This development models the
  C++ code under \<open>src/src\<close> and \<open>src/include/ironpulse\<close> (paths below are relative to these).

  \<^bold>\<open>How the parts interact.\<close> One \<open>DevicePoller\<close> per device runs on a strand of its own, sends requests
  through its \<open>ModbusClient\<close>, and publishes a reading or a status event on the event bus. The handlers
  \<open>main.cpp\<close> subscribes store the reading (ring buffer and write-ahead log), run the rule engine, export
  the sample, count metrics and broadcast to the dashboard; an alert the rule engine publishes goes to the
  alert log, the metrics, the notifier's queue and the dashboard. A timer republishes device gauges and
  prunes the logs; the exporter's and the notifier's threads drain their queues; the HTTP server answers
  from the store, the alert log and the metrics. Shutdown stops them one after the other.

  \<^bold>\<open>Conventions.\<close> Integers that can wrap are \<open>w word\<close>; time points and durations are nanosecond
  counts (\<open>int\<close>); a \<open>double\<close> is its IEEE 754 bit pattern and arithmetic is computed exactly, then rounded
  (\<open>Ieee754\<close>). Text is a list of bytes (\<open>char\<close>). What could be undefined behaviour in C++ (a read out of
  range, a pop of an empty deque, an overflowing conversion) has the type \<open>'a ub\<close>, whose \<open>None\<close> is the
  fault; exceptions are \<open>Inl\<close> of their message. What a mutex protects, or what one strand runs
  without waiting, is one step; concurrency is an arbitrary sequence or a step relation of such steps.

  \<^bold>\<open>Theories and code.\<close>

  \<^item> Shared: \<open>Prelude\<close> (integer types, checked reads, memory images, list lemmas), \<open>Text\<close>, \<open>Printf\<close>,
    \<open>Decimal\<close>, \<open>ToChars\<close>, \<open>Calendar\<close>, \<open>Ieee754\<close>, \<open>OrderedMap\<close> (what the code uses of the C++
    standard library: decimal texts, \<open>%.2f\<close> and \<open>%.Ng\<close>, shortest \<open>to_chars\<close>, \<open>gmtime\<close>, floating
    point, \<open>std::map\<close>), \<open>Json\<close> (the JSON library as a record of operations), \<open>CoreTypes\<close>
    (\<open>core/events.hpp\<close> and the structs of \<open>core/config.hpp\<close>).
  \<^item> \<open>Config\<close>: \<open>core/config.cpp\<close>, the loader, expansion of environment variables and validation.
  \<^item> Modbus: \<open>FrameCodec\<close> (\<open>protocol/frame_codec.cpp\<close>), \<open>RegisterDecoder\<close>
    (\<open>protocol/register_decoder.cpp\<close>: read planning, values from registers), \<open>ModbusClient\<close>
    (\<open>protocol/modbus_client.cpp\<close>: handlers, deadline, queue of calls), \<open>DevicePoller\<close>
    (\<open>protocol/device_poller.cpp\<close>, with its client and both strands).
  \<^item> Export: \<open>SpscRing\<close> and \<open>SpscConcurrent\<close> (\<open>ingest/ring_buffer.hpp\<close>, sequentially and with its
    two threads interleaved under stale loads), \<open>Ingestor\<close> (\<open>ingest/ingestor.cpp\<close>), \<open>Serializer\<close>
    (\<open>ingest/serializer.hpp\<close>, with both checksum routines), \<open>Segment\<close> and \<open>SegmentWriter\<close>
    (\<open>ingest/segment.cpp\<close>), \<open>ReadingExporter\<close> (\<open>ingest/reading_exporter.cpp\<close>), \<open>ExportTool\<close>
    (\<open>ingest/export_tool.cpp\<close>).
  \<^item> Detection: \<open>Detectors\<close> (\<open>analytics/strategies\<close>), \<open>RuleEngine\<close> (\<open>analytics/rule_engine.hpp\<close>,
    \<open>detector_factory.hpp\<close>), \<open>EventBus\<close> (\<open>core/event_bus.hpp\<close>), \<open>AlertLog\<close> (\<open>core/alert_log.hpp\<close>,
    \<open>core/device_registry.hpp\<close>).
  \<^item> Storage: \<open>SampleBuffer\<close> (\<open>storage/ring_buffer.hpp\<close>), \<open>Wal\<close> (\<open>storage/wal_writer.hpp\<close>,
    \<open>storage/retention_policy.hpp\<close>), \<open>SeriesStore\<close> (\<open>storage/series_store.hpp\<close>).
  \<^item> Interfaces to people: \<open>Metrics\<close> (\<open>core/metrics.cpp\<close>), \<open>Base64\<close> and \<open>Sha1\<close>
    (\<open>core/base64.hpp\<close>, \<open>core/sha1.hpp\<close>), \<open>WsServer\<close> (\<open>api/ws_server.cpp\<close>: pure functions and one
    connection), \<open>WsHub\<close> (the same file: all connections from accept to close, and broadcasts),
    \<open>Serialization\<close> (\<open>api/serialization.hpp\<close>), \<open>HttpServer\<close> (\<open>api/http_server.cpp\<close>), \<open>Catalog\<close> and
    \<open>Messages\<close> (\<open>notify/messages.cpp\<close>), \<open>Notifier\<close> (\<open>notify/notifier.cpp\<close>).
  \<^item> \<open>ThreadPool\<close> (\<open>core/thread_pool.hpp\<close>), and \<open>Program\<close> with \<open>ProgramRuns\<close> (\<open>main.cpp\<close>): start-up,
    the event handlers action by action, the timer, the shutdown sequence, and every interleaving of
    the strands and threads.

  \<^bold>\<open>Interfaces.\<close> \<open>bounded_queue\<close> (\<open>QueueSpec\<close>) is the contract of a bounded FIFO queue; \<open>SpscRing\<close>
  interprets it, and the ingestor's proofs rest on the interpretation. \<open>sliding_window\<close>
  (\<open>SlidingWindow\<close>) is the contract of a history that keeps the newest entries; the alert log, the sample
  buffers, the z-score window and the notifier's queue interpret it on their own operations.

  \<^bold>\<open>What the lemmas show\<close>, in groups:

  \<^item> wire formats: the decoder accepts exactly the well-formed frames; what is serialized is read
    back; every burst of damage within four payload bytes is reported; both checksum routines are the
    bitwise CRC-32C; a damaged segment gives every intact batch in order; the tool's CSV reads back;
  \<^item> protocol state machines: every call is answered once, whatever completes in whatever order; a polling
    cycle ends within a bound that depends only on the plan; no reachable step is undefined; statuses alternate;
  \<^item> concurrency: the ring is a FIFO and touches no slot out of turn under any interleaving; accepted
    samples are conserved from the queue to the sink, and the consumer stops within a bound;
  \<^item> storage: the writer loses nothing without a budget; a store on top of an earlier log answers
    every recorded sample; retention keeps what is recent;
  \<^item> detection: the vote is characterized on every reading; cooldowns hold; a sustained breach
    alerts once; the incremental z-score is its definition on the window; the CUSUM sums are bounded;
  \<^item> delivery: the bus calls exactly the live handlers; the notifier keeps the newest notifications in
    order and its announcements alternate; the WebSocket outbox is a FIFO; only authenticated clients
    receive frames, and requests without the token learn nothing;
  \<^item> the whole program: valid configurations start and are wired as configured; in every interleaving
    each alert reaches the log, the counters, the notifier and the dashboard.

  Some theorems show behaviour the code does not mean to have: an undetected deadline, a log fragment that
  shifts the records after it, a deque popped when empty, a reading after the last flush.

  \<^bold>\<open>Bounds and fuel.\<close> Loops are structural recursions or \<open>function\<close>s with a measure, except two
  with fuel: \<open>free_sequence\<close> (the search for an unused segment number) runs with the number of
  files plus one, which suffices because each turn rules out a different file; \<open>records_in\<close> (reading a log)
  runs with the number of bytes, and each turn consumes sixteen. The handlers' loops that wait for
  events are not loops of the model: every event is a step.

  \<^bold>\<open>Parameters.\<close> The JSON library (\<open>Json\<close>, with what its documentation says in \<open>json_documented\<close>), the
  HTTP client and server library, what Asio's operations on sockets and timers complete with, the
  outcomes of file operations, the contents of directories, clocks, environment, the CPU's CRC
  instruction, the choice \<open>std::sort\<close> makes among equal elements, iteration orders of hash maps, and
  the generated version header.

  \<^bold>\<open>Not modelled.\<close> \<open>core/logger.cpp\<close> only configures spdlog, which is not in the repository, and log
  lines are left out everywhere: nothing the program does depends on them. \<open>ingest/cache_line.hpp\<close>
  is an alignment constant and affects where fields lie, not what they hold. Creating and
  joining threads, opening listening sockets, the command line of \<open>main\<close>, serving static files and
  destructors that only release memory have no counterpart. Failures to allocate memory are not
  considered; fused multiply-add and other rounding modes are outside the model. Within
  these limits every other implementation file is modelled; the components list gives the details.
\<close>

end
